(* ===== verification/Runtime_Prelude.thy ===== *)
theory Runtime_Prelude
  imports Main "HOL-Library.Word"
begin

text \<open>
  Shared vocabulary of the development: the machine types and error enumerations of
  \<^verbatim>\<open>include/iouring_runtime/core\<close>, the way undefined behaviour is made visible, the
  collections the component proofs feed to the simplifier, the generic lemmas on lists and
  32-bit words, and the two interfaces most components are instances of (an invariant kept by
  a transition system, and a stream transducer that does not depend on how its input is cut).
\<close>

section \<open>Machine types\<close>

type_synonym byte = "8 word"
type_synonym u16 = "16 word"
type_synonym u32 = "32 word"
type_synonym u64 = "64 word"

type_synonym SessionId = u64
type_synonym ContextId = u16

record Address =
  host :: string
  port :: u16

section \<open>Error enumerations and faults\<close>

datatype CoreError = kInvalidArgument | kResourceExhausted | kAlreadyExists | kNotFound

datatype RingError = kSetupFailed | kSubmissionFailed | kBufferRegistrationFailed

datatype IoError =
    kConnectionRefused | kDisconnected | kTimeout | kSendFailed | kMalformedPacket
  | kBindFailed | kListenFailed

text \<open>
  What the language leaves undefined is a value of its own: an operation that would read or
  write outside an object, or through a dead or null pointer, returns \<open>Inl\<close> of a fault,
  and a theorem that it returns \<open>Inr\<close> is a memory-safety theorem.
\<close>

datatype fault = OutOfBounds | NullDeref | UseAfterFree

section \<open>Socket handles\<close>

text \<open>A handle is its descriptor; what an operation closes is part of its result.\<close>

type_synonym SocketHandle = int

definition SocketHandle_Valid :: "SocketHandle \<Rightarrow> bool" where
  "SocketHandle_Valid fd \<longleftrightarrow> fd \<ge> 0"

definition SocketHandle_Reset :: "int \<Rightarrow> SocketHandle \<Rightarrow> int list \<times> SocketHandle" where
  "SocketHandle_Reset new_fd fd = (if fd \<ge> 0 then [fd] else [], new_fd)"

section \<open>Collections\<close>

named_theorems u32_simps \<open>unsigned readings of 32-bit arithmetic that does not wrap\<close>

section \<open>Lists\<close>

definition write_at :: "nat \<Rightarrow> 'a list \<Rightarrow> 'a list \<Rightarrow> 'a list" where
  "write_at n xs buf = take n buf @ xs @ drop (n + length xs) buf"

definition memcpy_into :: "'a list \<Rightarrow> nat \<Rightarrow> 'a list \<Rightarrow> fault + 'a list" where
  "memcpy_into buf n xs =
     (if n + length xs \<le> length buf then Inr (write_at n xs buf) else Inl OutOfBounds)"

definition subspan :: "nat \<Rightarrow> nat \<Rightarrow> 'a list \<Rightarrow> 'a list" where
  "subspan n len xs = take len (drop n xs)"

lemma length_write_at [simp]:
  "n + length xs \<le> length buf \<Longrightarrow> length (write_at n xs buf) = length buf"
  by (simp add: write_at_def)

lemma take_write_at [simp]:
  "n \<le> length buf \<Longrightarrow> take n (write_at n xs buf) = take n buf"
  by (simp add: write_at_def)

lemma subspan_write_at_append:
  assumes "a \<le> n" "n + length xs \<le> length buf"
  shows "subspan a (n - a + length xs) (write_at n xs buf) = subspan a (n - a) buf @ xs"
proof -
  have "drop a (write_at n xs buf) = drop a (take n buf) @ xs @ drop (n + length xs) buf"
    using assms by (simp add: write_at_def)
  moreover have "length (drop a (take n buf)) = n - a"
    using assms by simp
  ultimately show ?thesis
    using assms by (simp add: subspan_def drop_take)
qed

lemma subspan_write_at_front:
  "length xs \<le> length buf \<Longrightarrow> subspan 0 (length xs) (write_at 0 xs buf) = xs"
  by (simp add: subspan_def write_at_def)

lemma length_subspan [simp]: "length (subspan n len xs) = min len (length xs - n)"
  by (simp add: subspan_def min.commute)

lemma subspan_0 [simp]: "subspan n 0 xs = []"
  by (simp add: subspan_def)

lemma drop_subspan: "drop k (subspan n len xs) = subspan (n + k) (len - k) xs"
  by (simp add: subspan_def drop_take add.commute)

section \<open>Decimal numbers\<close>

text \<open>\<open>std::to_string\<close> on an unsigned value, least significant digit last.\<close>

definition digit_char :: "nat \<Rightarrow> char" where
  "digit_char d = char_of (48 + d)"

function to_string_nat :: "nat \<Rightarrow> string" where
  "to_string_nat n =
     (if n < 10 then [digit_char n] else to_string_nat (n div 10) @ [digit_char (n mod 10)])"
  by pat_completeness auto
termination by (relation "measure id") auto

declare to_string_nat.simps [simp del]

section \<open>32-bit arithmetic\<close>

lemma unat_u32_plus [u32_simps]:
  fixes a b :: u32
  assumes "unat a + unat b < 2 ^ 32"
  shows "unat (a + b) = unat a + unat b"
  using assms by (simp add: unat_word_ariths)

lemma unat_u32_minus [u32_simps]:
  fixes a b :: u32
  assumes "unat b \<le> unat a"
  shows "unat (a - b) = unat a - unat b"
  using assms by (simp add: unat_sub word_le_nat_alt)

lemma unat_u32_of_nat [u32_simps]:
  "n < 2 ^ 32 \<Longrightarrow> unat (of_nat n :: u32) = n"
  by (simp add: unat_of_nat take_bit_nat_eq_self)

lemma unat_u32_lt: "unat (x :: u32) < 4294967296"
  using unsigned_less [of x] by simp

lemma unat_u16_lt: "unat (x :: u16) < 65536"
  using unsigned_less [of x] by simp

lemma unat_u8_lt: "unat (x :: byte) < 256"
  using unsigned_less [of x] by simp

lemma unat_ucast_u16_u32 [simp]: "unat (ucast (x :: u16) :: u32) = unat x"
  using unat_u16_lt [of x] by (simp add: unsigned_ucast_eq take_bit_nat_eq_self)

lemma unat_ucast_u8_u16 [simp]: "unat (ucast (x :: byte) :: u16) = unat x"
  using unat_u8_lt [of x] by (simp add: unsigned_ucast_eq take_bit_nat_eq_self)

lemma unat_ucast_u32_u64: "unat (ucast (x :: u32) :: u64) = unat x"
  using unat_u32_lt [of x] by (simp add: unsigned_ucast_eq take_bit_nat_eq_self)

lemma unat_ucast_u16_u64: "unat (ucast (x :: u16) :: u64) = unat x"
  using unat_u16_lt [of x] by (simp add: unsigned_ucast_eq take_bit_nat_eq_self)

section \<open>Interface: an invariant of a transition system\<close>

text \<open>
  The concurrent components are step relations. The client of this interface asks for the
  initial states, the steps and the invariant; it gets that every reachable state satisfies it.
\<close>

inductive reachable_from :: "('s \<Rightarrow> 's \<Rightarrow> bool) \<Rightarrow> ('s \<Rightarrow> bool) \<Rightarrow> 's \<Rightarrow> bool"
  for step :: "'s \<Rightarrow> 's \<Rightarrow> bool" and start :: "'s \<Rightarrow> bool" where
  reach_start: "start s \<Longrightarrow> reachable_from step start s"
| reach_step: "reachable_from step start s \<Longrightarrow> step s t \<Longrightarrow> reachable_from step start t"

locale inductive_invariant =
  fixes step :: "'s \<Rightarrow> 's \<Rightarrow> bool" and start :: "'s \<Rightarrow> bool" and inv :: "'s \<Rightarrow> bool"
  assumes inv_start: "start s \<Longrightarrow> inv s"
    and inv_step: "inv s \<Longrightarrow> step s t \<Longrightarrow> inv t"
begin

lemma reachable_inv: "reachable_from step start s \<Longrightarrow> inv s"
  by (induction rule: reachable_from.induct) (auto intro: inv_start inv_step)

lemma reachable_step_inv: "reachable_from step start s \<Longrightarrow> step s t \<Longrightarrow> inv s \<and> inv t"
  using reachable_inv inv_step by blast

end

section \<open>Interface: a transducer that does not depend on chunk boundaries\<close>

text \<open>
  A receive path is called once per chunk the kernel hands over, and TCP promises nothing about
  where a chunk ends. \<open>feed\<close> is the handler, \<open>absorbed s\<close> what the state stands for as a
  function of the bytes seen so far. The provider proves the law for one chunk; the client gets
  it for any sequence of chunks.
\<close>

locale chunk_transducer =
  fixes feed :: "'s \<Rightarrow> 'a list \<Rightarrow> 's"
    and rel :: "'a list \<Rightarrow> 's \<Rightarrow> bool"
  assumes feed_rel: "rel seen s \<Longrightarrow> rel (seen @ chunk) (feed s chunk)"
begin

lemma feed_all_rel: "rel seen s \<Longrightarrow> rel (seen @ concat chunks) (foldl feed s chunks)"
proof (induction chunks arbitrary: seen s)
  case Nil
  then show ?case by simp
next
  case (Cons c cs)
  from feed_rel [OF Cons.prems, of c] have "rel (seen @ c) (feed s c)" .
  from Cons.IH [OF this] show ?case by simp
qed

end

end
