(* ===== verification/Recv_Buffer.thy ===== *)
theory Recv_Buffer
  imports Runtime_Prelude
begin

text \<open>
  The reassembly buffer of \<^verbatim>\<open>include/iouring_runtime/core/RecvBuffer.h\<close>: a fixed array with
  a read and a write position, kept at their 32-bit width, and its refinement of a plain byte
  queue of bounded length. \<open>readable\<close> is the abstraction function.
\<close>

section \<open>State and operations\<close>

record RecvBuffer =
  buffer :: "byte list"
  capacity :: u32
  read_pos :: u32
  write_pos :: u32

definition RecvBuffer_new :: "u32 \<Rightarrow> RecvBuffer" where
  "RecvBuffer_new sz =
     \<lparr>buffer = replicate (unat sz) 0, capacity = sz, read_pos = 0, write_pos = 0\<rparr>"

definition ReadRegion :: "RecvBuffer \<Rightarrow> byte list" where
  "ReadRegion b = subspan (unat (read_pos b)) (unat (write_pos b - read_pos b)) (buffer b)"

definition WriteRegion :: "RecvBuffer \<Rightarrow> byte list" where
  "WriteRegion b = subspan (unat (write_pos b)) (unat (capacity b - write_pos b)) (buffer b)"

definition IsEmpty :: "RecvBuffer \<Rightarrow> bool" where
  "IsEmpty b \<longleftrightarrow> read_pos b = write_pos b"

definition ShouldCompact :: "RecvBuffer \<Rightarrow> bool" where
  "ShouldCompact b \<longleftrightarrow> read_pos b > capacity b div 2"

definition ReadableSize :: "RecvBuffer \<Rightarrow> u32" where
  "ReadableSize b = write_pos b - read_pos b"

definition WritableSize :: "RecvBuffer \<Rightarrow> u32" where
  "WritableSize b = capacity b - write_pos b"

definition OnWrite :: "u32 \<Rightarrow> RecvBuffer \<Rightarrow> RecvBuffer" where
  "OnWrite n b = b\<lparr>write_pos := write_pos b + n\<rparr>"

definition OnRead :: "u32 \<Rightarrow> RecvBuffer \<Rightarrow> RecvBuffer" where
  "OnRead n b =
     (let b' = b\<lparr>read_pos := read_pos b + n\<rparr> in
      if read_pos b' = write_pos b' then b'\<lparr>read_pos := 0, write_pos := 0\<rparr> else b')"

definition Compact :: "RecvBuffer \<Rightarrow> RecvBuffer" where
  "Compact b =
     (if read_pos b = 0 then b
      else let remaining = write_pos b - read_pos b;
               buf = (if remaining > 0
                      then write_at 0 (subspan (unat (read_pos b)) (unat remaining) (buffer b))
                             (buffer b)
                      else buffer b)
           in b\<lparr>buffer := buf, read_pos := 0, write_pos := remaining\<rparr>)"

text \<open>
  \<open>Append\<close> compares the 32-bit truncation of the size and then copies the whole span. The
  result keeps the state also when the buffer is full, since the compaction has then happened.
\<close>

definition Append :: "byte list \<Rightarrow> RecvBuffer \<Rightarrow> fault + (CoreError option \<times> RecvBuffer)" where
  "Append data b =
     (let n = (of_nat (length data) :: u32);
          b1 = (if WritableSize b < n then Compact b else b)
      in if WritableSize b1 < n then Inr (Some kResourceExhausted, b1)
         else case memcpy_into (buffer b1) (unat (write_pos b1)) data of
                Inl f \<Rightarrow> Inl f
              | Inr buf \<Rightarrow> Inr (None, b1\<lparr>buffer := buf, write_pos := write_pos b1 + n\<rparr>))"

section \<open>Invariant and abstraction\<close>

definition rb_inv :: "RecvBuffer \<Rightarrow> bool" where
  "rb_inv b \<longleftrightarrow> length (buffer b) = unat (capacity b)
     \<and> unat (read_pos b) \<le> unat (write_pos b) \<and> unat (write_pos b) \<le> unat (capacity b)"

abbreviation readable :: "RecvBuffer \<Rightarrow> byte list" where
  "readable b \<equiv> ReadRegion b"

lemma rb_inv_new [simp]: "rb_inv (RecvBuffer_new sz)"
  by (simp add: rb_inv_def RecvBuffer_new_def)

lemma readable_new [simp]: "readable (RecvBuffer_new sz) = []"
  by (simp add: ReadRegion_def RecvBuffer_new_def)

lemma length_readable:
  assumes "rb_inv b"
  shows "length (readable b) = unat (write_pos b) - unat (read_pos b)"
  using assms by (auto simp: ReadRegion_def rb_inv_def unat_u32_minus)

lemma unat_ReadableSize:
  "rb_inv b \<Longrightarrow> unat (ReadableSize b) = length (readable b)"
  by (simp add: length_readable) (simp add: ReadableSize_def rb_inv_def unat_u32_minus)

lemma IsEmpty_iff: "rb_inv b \<Longrightarrow> IsEmpty b \<longleftrightarrow> readable b = []"
  by (auto simp: IsEmpty_def word_unat_eq_iff rb_inv_def
      simp flip: length_0_conv simp: length_readable)

lemma length_readable_le: "rb_inv b \<Longrightarrow> length (readable b) \<le> unat (capacity b)"
  by (simp add: length_readable) (simp add: rb_inv_def le_diff_conv)

lemma rb_inv_Compact: "rb_inv b \<Longrightarrow> rb_inv (Compact b)"
  by (auto simp: rb_inv_def Compact_def Let_def unat_u32_minus)

lemma capacity_Compact [simp]: "capacity (Compact b) = capacity b"
  by (simp add: Compact_def Let_def)

lemma readable_Compact:
  assumes "rb_inv b"
  shows "readable (Compact b) = readable b"
proof (cases "read_pos b = 0")
  case True
  then show ?thesis by (simp add: Compact_def)
next
  case False
  let ?rem = "write_pos b - read_pos b"
  let ?xs = "subspan (unat (read_pos b)) (unat ?rem) (buffer b)"
  have len: "length ?xs = unat ?rem" and le: "length ?xs \<le> length (buffer b)"
    using assms by (auto simp: rb_inv_def unat_u32_minus)
  show ?thesis
  proof (cases "?rem > 0")
    case True
    with False len subspan_write_at_front [OF le] show ?thesis
      by (simp add: Compact_def ReadRegion_def Let_def)
  next
    case rem0: False
    then have "?rem = 0" by (simp add: word_neq_0_conv [symmetric])
    with False show ?thesis
      by (simp add: Compact_def ReadRegion_def Let_def)
  qed
qed

lemma unat_WritableSize:
  "rb_inv b \<Longrightarrow> unat (WritableSize b) = unat (capacity b) - unat (write_pos b)"
  by (simp add: WritableSize_def rb_inv_def unat_u32_minus)

lemma write_pos_Compact:
  "rb_inv b \<Longrightarrow> unat (write_pos (Compact b)) = length (readable b)"
proof -
  assume inv: "rb_inv b"
  show ?thesis
  proof (cases "read_pos b = 0")
    case True
    with inv show ?thesis by (simp add: Compact_def length_readable)
  next
    case False
    with inv show ?thesis
      by (simp add: Compact_def Let_def length_readable) (simp add: rb_inv_def unat_u32_minus)
  qed
qed

lemma OnRead_inv:
  assumes "rb_inv b" "unat n \<le> length (readable b)"
  shows "rb_inv (OnRead n b)" "readable (OnRead n b) = drop (unat n) (readable b)"
proof -
  have len: "length (readable b) = unat (write_pos b) - unat (read_pos b)"
    using assms(1) by (rule length_readable)
  have rp: "unat (read_pos b + n) = unat (read_pos b) + unat n"
    using assms len unat_u32_lt [of "write_pos b"]
    by (intro unat_u32_plus) (auto simp: rb_inv_def)
  show "rb_inv (OnRead n b)"
    using assms len rp by (auto simp: OnRead_def Let_def rb_inv_def)
  show "readable (OnRead n b) = drop (unat n) (readable b)"
  proof (cases "read_pos b + n = write_pos b")
    case True
    then have "length (readable b) \<le> unat n"
      using rp len by auto
    with True show ?thesis by (simp add: OnRead_def Let_def ReadRegion_def)
  next
    case False
    have "unat (write_pos b - (read_pos b + n)) = unat (write_pos b - read_pos b) - unat n"
      using assms rp len by (auto simp: rb_inv_def unat_u32_minus)
    with False rp show ?thesis
      by (simp add: OnRead_def Let_def ReadRegion_def drop_subspan)
  qed
qed

lemma capacity_OnRead [simp]: "capacity (OnRead n b) = capacity b"
  by (simp add: OnRead_def Let_def)

text \<open>\<open>Append\<close> succeeds exactly when the unread bytes and the new ones fit the capacity.\<close>

lemma Append_fits:
  assumes "rb_inv b" "length (readable b) + length data \<le> unat (capacity b)"
  obtains b' where "Append data b = Inr (None, b')" "rb_inv b'"
    "readable b' = readable b @ data" "capacity b' = capacity b"
proof -
  have n: "unat (of_nat (length data) :: u32) = length data"
    using assms(2) unat_u32_lt [of "capacity b"] by (intro unat_u32_of_nat) simp
  define b1 where "b1 = (if WritableSize b < of_nat (length data) then Compact b else b)"
  have b1: "rb_inv b1" "readable b1 = readable b" "capacity b1 = capacity b"
    using assms(1) by (auto simp: b1_def rb_inv_Compact readable_Compact)
  have room: "unat (write_pos b1) + length data \<le> unat (capacity b)"
  proof (cases "WritableSize b < of_nat (length data)")
    case True
    with assms show ?thesis by (simp add: b1_def write_pos_Compact)
  next
    case False
    then have "length data \<le> unat (WritableSize b)"
      by (simp add: n word_less_nat_alt not_less)
    with assms(1) False show ?thesis
      by (auto simp: b1_def unat_WritableSize rb_inv_def)
  qed
  have notless: "\<not> WritableSize b1 < of_nat (length data)"
    using room b1 by (simp add: word_less_nat_alt n unat_WritableSize)
  define buf where "buf = write_at (unat (write_pos b1)) data (buffer b1)"
  define b' where "b' = b1\<lparr>buffer := buf, write_pos := write_pos b1 + of_nat (length data)\<rparr>"
  have fit: "unat (write_pos b1) + length data \<le> length (buffer b1)"
    using b1 room by (simp add: rb_inv_def)
  have wp: "unat (write_pos b1 + of_nat (length data)) = unat (write_pos b1) + length data"
    using room unat_u32_lt [of "capacity b"] n by (simp add: unat_u32_plus)
  have "Append data b = Inr (None, b')"
    using notless fit
    by (simp add: Append_def Let_def b1_def [symmetric] memcpy_into_def buf_def b'_def)
  moreover have "rb_inv b'"
    using b1 fit wp room by (simp add: b'_def rb_inv_def buf_def)
  moreover have "readable b' = readable b @ data"
  proof -
    have "unat (write_pos b1 + of_nat (length data) - read_pos b1)
        = (unat (write_pos b1) - unat (read_pos b1)) + length data"
      using b1(1) wp by (subst unat_u32_minus) (auto simp: rb_inv_def)
    moreover have "unat (write_pos b1 - read_pos b1) = unat (write_pos b1) - unat (read_pos b1)"
      using b1(1) by (simp add: rb_inv_def unat_u32_minus)
    moreover have "unat (read_pos b1) \<le> unat (write_pos b1)"
      using b1(1) by (simp add: rb_inv_def)
    ultimately have "readable b' = readable b1 @ data"
      using subspan_write_at_append [OF _ fit, of "unat (read_pos b1)"]
      by (simp add: ReadRegion_def b'_def buf_def)
    with b1(2) show ?thesis by simp
  qed
  moreover have "capacity b' = capacity b"
    using b1 by (simp add: b'_def)
  ultimately show ?thesis by (rule that)
qed

lemma Append_full:
  assumes "rb_inv b" "unat (capacity b) < length (readable b) + length data"
    "length data < 2 ^ 32"
  obtains b' where "Append data b = Inr (Some kResourceExhausted, b')" "rb_inv b'"
    "readable b' = readable b" "capacity b' = capacity b"
proof -
  have n: "unat (of_nat (length data) :: u32) = length data"
    using assms(3) by (rule unat_u32_of_nat)
  have "unat (WritableSize b) \<le> unat (capacity b) - length (readable b)"
    using assms(1) by (simp add: unat_WritableSize length_readable)
  then have c: "WritableSize b < of_nat (length data)"
    using assms(1,2) length_readable_le [OF assms(1)] by (simp add: word_less_nat_alt n)
  have "WritableSize (Compact b) < of_nat (length data)"
    using assms(1,2) length_readable_le [OF assms(1)]
    by (simp add: word_less_nat_alt n unat_WritableSize rb_inv_Compact write_pos_Compact)
  with c assms(1) show ?thesis
    by (intro that [of "Compact b"])
      (simp_all add: Append_def Let_def rb_inv_Compact readable_Compact)
qed

section \<open>Refinement of a bounded byte queue\<close>

text \<open>
  What the clients of the buffer rely on: a queue of at most \<open>cap\<close> bytes. A run is a list of
  operations; it also collects, for every append, whether it was accepted. \<open>None\<close> is a run
  that reads more than there is, which the interface forbids.
\<close>

datatype rb_op = RbAppend "byte list" | RbRead nat | RbCompact

fun bq_run :: "nat \<Rightarrow> rb_op list \<Rightarrow> byte list \<Rightarrow> (bool list \<times> byte list) option" where
  "bq_run cap [] q = Some ([], q)"
| "bq_run cap (RbAppend d # ops) q =
     (let fits = length q + length d \<le> cap in
      map_option (apfst ((#) fits)) (bq_run cap ops (if fits then q @ d else q)))"
| "bq_run cap (RbRead n # ops) q =
     (if n \<le> length q then bq_run cap ops (drop n q) else None)"
| "bq_run cap (RbCompact # ops) q = bq_run cap ops q"

fun rb_run :: "rb_op list \<Rightarrow> RecvBuffer \<Rightarrow> fault + (bool list \<times> RecvBuffer)" where
  "rb_run [] b = Inr ([], b)"
| "rb_run (RbAppend d # ops) b =
     (case Append d b of
        Inl f \<Rightarrow> Inl f
      | Inr (e, b') \<Rightarrow> (case rb_run ops b' of
                        Inl f \<Rightarrow> Inl f
                      | Inr (oks, b'') \<Rightarrow> Inr ((e = None) # oks, b'')))"
| "rb_run (RbRead n # ops) b = rb_run ops (OnRead (of_nat n) b)"
| "rb_run (RbCompact # ops) b = rb_run ops (Compact b)"

fun small_op :: "rb_op \<Rightarrow> bool" where
  "small_op (RbAppend d) \<longleftrightarrow> length d < 2 ^ 32"
| "small_op _ \<longleftrightarrow> True"

definition rb_refines :: "nat \<Rightarrow> bool list \<times> byte list \<Rightarrow> fault + (bool list \<times> RecvBuffer) \<Rightarrow> bool" where
  "rb_refines cap spec res \<longleftrightarrow>
     (\<exists>b. res = Inr (fst spec, b) \<and> rb_inv b \<and> readable b = snd spec \<and> unat (capacity b) = cap)"

lemma Append_refines:
  assumes "rb_inv b" "length d < 2 ^ 32"
  obtains e b' where "Append d b = Inr (e, b')" "rb_inv b'" "capacity b' = capacity b"
    "e = None \<longleftrightarrow> length (readable b) + length d \<le> unat (capacity b)"
    "readable b' = (if length (readable b) + length d \<le> unat (capacity b) then readable b @ d else readable b)"
proof (cases "length (readable b) + length d \<le> unat (capacity b)")
  case True
  obtain b' where "Append d b = Inr (None, b')" "rb_inv b'" "readable b' = readable b @ d"
      "capacity b' = capacity b"
    using Append_fits [OF assms(1) True] .
  then show ?thesis using that [of None b'] True by simp
next
  case False
  then have "unat (capacity b) < length (readable b) + length d" by simp
  then obtain b' where "Append d b = Inr (Some kResourceExhausted, b')" "rb_inv b'"
      "readable b' = readable b" "capacity b' = capacity b"
    using Append_full [OF assms(1) _ assms(2)] by blast
  then show ?thesis using that [of "Some kResourceExhausted" b'] False by simp
qed

lemma rb_run_refines:
  assumes "rb_inv b" "\<forall>op \<in> set ops. small_op op"
    "bq_run (unat (capacity b)) ops (readable b) = Some spec"
  shows "rb_refines (unat (capacity b)) spec (rb_run ops b)"
  using assms
proof (induction ops arbitrary: b spec)
  case Nil
  then show ?case by (auto simp: rb_refines_def)
next
  case (Cons op ops)
  show ?case
  proof (cases op)
    case (RbAppend d)
    then have d: "length d < 2 ^ 32" using Cons.prems by simp
    obtain e b' where ap: "Append d b = Inr (e, b')" "rb_inv b'" "capacity b' = capacity b"
      "e = None \<longleftrightarrow> length (readable b) + length d \<le> unat (capacity b)"
      "readable b' = (if length (readable b) + length d \<le> unat (capacity b) then readable b @ d else readable b)"
      using Append_refines [OF Cons.prems(1) d] .
    obtain rest where rest: "bq_run (unat (capacity b)) ops (readable b') = Some rest"
        "spec = apfst ((#) (e = None)) rest"
      using Cons.prems(3) RbAppend ap(4,5) by (auto simp: Let_def split: if_splits)
    have "rb_refines (unat (capacity b)) rest (rb_run ops b')"
      using Cons.IH [OF ap(2)] Cons.prems(2) rest(1) ap(3) by simp
    then show ?thesis
      using rest(2) RbAppend ap(1) by (cases rest) (auto simp: rb_refines_def)
  next
    case (RbRead n)
    then have n: "n \<le> length (readable b)" and run: "bq_run (unat (capacity b)) ops (drop n (readable b)) = Some spec"
      using Cons.prems(3) by (auto split: if_splits)
    then have u: "unat (of_nat n :: u32) = n"
      using length_readable_le [OF Cons.prems(1)] unat_u32_lt [of "capacity b"]
      by (intro unat_u32_of_nat) simp
    show ?thesis
      using Cons.IH [of "OnRead (of_nat n) b"] OnRead_inv [OF Cons.prems(1), of "of_nat n"] n u run
        Cons.prems(2) RbRead by simp
  next
    case RbCompact
    then show ?thesis
      using Cons.IH [of "Compact b"] Cons.prems by (simp add: rb_inv_Compact readable_Compact)
  qed
qed



end
