(* ===== verification/Send_Buffer.thy ===== *)
theory Send_Buffer
  imports Runtime_Prelude
begin

text \<open>
  The outgoing buffers of \<^verbatim>\<open>include/iouring_runtime/core/SendBuffer.h\<close>. A pool owns chunks; a
  chunk hands out consecutive slices of its storage and counts the buffers that point into it; a
  chunk whose last buffer dies goes back to the pool. The reference count is a natural number
  here: the code's 32-bit counter would need four billion live buffers to wrap. Buffers share storage with their chunk, so
  the bytes live in the chunk and a buffer is a window on it. The central question is whether
  two live buffers can ever share a byte.
\<close>

section \<open>State\<close>

record SendBufferChunk =
  chunk_id :: nat
  c_bytes :: "byte list"
  c_offset :: u32
  ref_count :: nat

record SendBuffer =
  owner :: nat
  base :: nat
  alloc_size :: u32
  write_size :: u32

record BufferPool =
  active_chunks :: "SendBufferChunk list"
  free_chunks :: "SendBufferChunk list"
  pending_gc :: "nat list"
  chunk_size :: u32
  max_chunks :: u32
  next_chunk :: nat

definition kMaxFreeChunks :: nat where
  "kMaxFreeChunks = 8"

definition BufferPool_new :: "u32 \<Rightarrow> u32 \<Rightarrow> BufferPool" where
  "BufferPool_new csize maxc =
     \<lparr>active_chunks = [], free_chunks = [], pending_gc = [], chunk_size = csize,
      max_chunks = maxc, next_chunk = 0\<rparr>"

definition SendBufferChunk_new :: "nat \<Rightarrow> u32 \<Rightarrow> SendBufferChunk" where
  "SendBufferChunk_new i csize =
     \<lparr>chunk_id = i, c_bytes = replicate (unat csize) 0, c_offset = 0, ref_count = 0\<rparr>"

section \<open>Chunk operations\<close>

definition Open :: "u32 \<Rightarrow> SendBufferChunk \<Rightarrow> SendBuffer option \<times> SendBufferChunk" where
  "Open n c =
     (if c_offset c + n > of_nat (length (c_bytes c)) then (None, c)
      else (Some \<lparr>owner = chunk_id c, base = unat (c_offset c), alloc_size = n, write_size = 0\<rparr>,
            c\<lparr>c_offset := c_offset c + n, ref_count := Suc (ref_count c)\<rparr>))"

definition Reset :: "SendBufferChunk \<Rightarrow> SendBufferChunk" where
  "Reset c = c\<lparr>c_offset := 0\<rparr>"

definition Full :: "SendBufferChunk \<Rightarrow> bool" where
  "Full c \<longleftrightarrow> c_offset c \<ge> of_nat (length (c_bytes c))"

definition Unused :: "SendBufferChunk \<Rightarrow> bool" where
  "Unused c \<longleftrightarrow> ref_count c = 0"

section \<open>Pool operations\<close>

text \<open>
  \<open>MoveToFree\<close> looks the chunk up among the active ones; a chunk that does not fit the free list
  any more is destroyed with its \<open>unique_ptr\<close>.
\<close>

definition MoveToFree :: "nat \<Rightarrow> BufferPool \<Rightarrow> BufferPool" where
  "MoveToFree i p =
     (case find (\<lambda>c. chunk_id c = i) (active_chunks p) of
        None \<Rightarrow> p
      | Some c \<Rightarrow>
          p\<lparr>free_chunks := (if length (free_chunks p) < kMaxFreeChunks
                            then free_chunks p @ [Reset c] else free_chunks p),
            active_chunks := remove1 c (active_chunks p)\<rparr>)"

definition FlushPendingGc :: "BufferPool \<Rightarrow> BufferPool" where
  "FlushPendingGc p = fold MoveToFree (pending_gc p) (p\<lparr>pending_gc := []\<rparr>)"

definition AcquireChunk :: "BufferPool \<Rightarrow> SendBufferChunk option \<times> BufferPool" where
  "AcquireChunk p =
     (if free_chunks p \<noteq> []
      then (Some (last (free_chunks p)), p\<lparr>free_chunks := butlast (free_chunks p)\<rparr>)
      else if unat (max_chunks p) \<le> length (active_chunks p) then (None, p)
      else (Some (SendBufferChunk_new (next_chunk p) (chunk_size p)),
            p\<lparr>next_chunk := Suc (next_chunk p)\<rparr>))"

definition open_back :: "u32 \<Rightarrow> BufferPool \<Rightarrow> SendBuffer option \<times> BufferPool" where
  "open_back n p =
     (let (sb, c) = Open n (last (active_chunks p))
      in (sb, p\<lparr>active_chunks := butlast (active_chunks p) @ [c]\<rparr>))"

definition Allocate :: "u32 \<Rightarrow> BufferPool \<Rightarrow> (CoreError + SendBuffer) \<times> BufferPool" where
  "Allocate n p0 =
     (let p = FlushPendingGc p0;
          (first, p1) = (if active_chunks p \<noteq> [] then open_back n p else (None, p))
      in case first of
           Some sb \<Rightarrow> (Inr sb, p1)
         | None \<Rightarrow>
             (case AcquireChunk p1 of
                (None, p2) \<Rightarrow> (Inl kResourceExhausted, p2)
              | (Some c, p2) \<Rightarrow>
                  (case open_back n (p2\<lparr>active_chunks := active_chunks p2 @ [c]\<rparr>) of
                     (None, p3) \<Rightarrow> (Inl kResourceExhausted, p3)
                   | (Some sb, p3) \<Rightarrow> (Inr sb, p3))))"

definition OnChunkUnused :: "bool \<Rightarrow> nat \<Rightarrow> BufferPool \<Rightarrow> BufferPool" where
  "OnChunkUnused owns_lock i p =
     (if \<not> owns_lock then p\<lparr>pending_gc := pending_gc p @ [i]\<rparr> else MoveToFree i p)"

text \<open>
  \<open>OnRelease\<close> in its two atomic parts: the decrement of the reference count, whose result says
  whether the pool must be told, and then \<open>OnChunkUnused\<close>. A chunk that has been destroyed is
  in neither list, and touching its counter is a use after free.
\<close>

definition dec_ref :: "nat \<Rightarrow> SendBufferChunk list \<Rightarrow> SendBufferChunk list" where
  "dec_ref i = map (\<lambda>c. if chunk_id c = i then c\<lparr>ref_count := ref_count c - 1\<rparr> else c)"

definition find_chunk :: "nat \<Rightarrow> BufferPool \<Rightarrow> SendBufferChunk option" where
  "find_chunk i p = find (\<lambda>c. chunk_id c = i) (active_chunks p @ free_chunks p)"

definition OnRelease_dec :: "nat \<Rightarrow> BufferPool \<Rightarrow> fault + (bool \<times> BufferPool)" where
  "OnRelease_dec i p =
     (case find_chunk i p of
        None \<Rightarrow> Inl UseAfterFree
      | Some c \<Rightarrow> Inr (ref_count c = 1,
          p\<lparr>active_chunks := dec_ref i (active_chunks p), free_chunks := dec_ref i (free_chunks p)\<rparr>))"

definition OnRelease :: "nat \<Rightarrow> BufferPool \<Rightarrow> fault + BufferPool" where
  "OnRelease i p =
     (case OnRelease_dec i p of
        Inl f \<Rightarrow> Inl f
      | Inr (last_ref, p') \<Rightarrow> Inr (if last_ref then OnChunkUnused True i p' else p'))"

section \<open>Buffer operations\<close>

definition Writable :: "SendBuffer \<Rightarrow> nat \<times> nat" where
  "Writable sb = (base sb + unat (write_size sb), unat (alloc_size sb - write_size sb))"

definition Commit :: "u32 \<Rightarrow> SendBuffer \<Rightarrow> SendBuffer" where
  "Commit n sb = sb\<lparr>write_size := write_size sb + n\<rparr>"

definition Size :: "SendBuffer \<Rightarrow> u32" where
  "Size sb = write_size sb"

definition Data :: "BufferPool \<Rightarrow> SendBuffer \<Rightarrow> fault + byte list" where
  "Data p sb =
     (case find_chunk (owner sb) p of
        None \<Rightarrow> Inl UseAfterFree
      | Some c \<Rightarrow> Inr (subspan (base sb) (unat (write_size sb)) (c_bytes c)))"

text \<open>A \<open>memcpy\<close> to the start of the writable part, the only way the modules fill a buffer.\<close>

definition put_bytes :: "nat \<Rightarrow> byte list \<Rightarrow> SendBufferChunk list \<Rightarrow> nat \<Rightarrow> SendBufferChunk list" where
  "put_bytes i xs cs n =
     map (\<lambda>c. if chunk_id c = i then c\<lparr>c_bytes := write_at n xs (c_bytes c)\<rparr> else c) cs"

definition copy_to_writable :: "SendBuffer \<Rightarrow> byte list \<Rightarrow> BufferPool \<Rightarrow> fault + BufferPool" where
  "copy_to_writable sb xs p =
     (case find_chunk (owner sb) p of
        None \<Rightarrow> Inl UseAfterFree
      | Some c \<Rightarrow>
          (if length xs \<le> snd (Writable sb)
           then Inr (p\<lparr>active_chunks := put_bytes (owner sb) xs (active_chunks p) (fst (Writable sb)),
                       free_chunks := put_bytes (owner sb) xs (free_chunks p) (fst (Writable sb))\<rparr>)
           else Inl OutOfBounds))"

section \<open>The pool and the buffers that are alive\<close>

text \<open>
  A run of the pool keeps the list of the buffers somebody still holds. A step allocates, fills
  or releases one of them; a release runs \<open>OnRelease\<close> to its end before anything else happens,
  which is how a pool that one thread uses behaves.
\<close>

definition drop_nth :: "nat \<Rightarrow> 'a list \<Rightarrow> 'a list" where
  "drop_nth k xs = take k xs @ drop (Suc k) xs"

type_synonym pool_state = "BufferPool \<times> SendBuffer list"

definition pool_start :: "pool_state \<Rightarrow> bool" where
  "pool_start s \<longleftrightarrow> (\<exists>csize maxc. s = (BufferPool_new csize maxc, []))"

inductive pool_step :: "pool_state \<Rightarrow> pool_state \<Rightarrow> bool" where
  step_allocate: "Allocate n p = (r, p') \<Longrightarrow> unat n + unat (chunk_size p) < 2 ^ 32 \<Longrightarrow>
     pool_step (p, L) (p', case r of Inl e \<Rightarrow> L | Inr sb \<Rightarrow> L @ [sb])"
| step_write: "k < length L \<Longrightarrow> copy_to_writable (L ! k) xs p = Inr p' \<Longrightarrow>
     pool_step (p, L) (p', L[k := Commit (of_nat (length xs)) (L ! k)])"
| step_release: "k < length L \<Longrightarrow> OnRelease (owner (L ! k)) p = Inr p' \<Longrightarrow>
     pool_step (p, L) (p', drop_nth k L)"

inductive_cases pool_stepE: "pool_step (p, L) t"

definition apart :: "SendBuffer \<Rightarrow> SendBuffer \<Rightarrow> bool" where
  "apart a b \<longleftrightarrow> (owner a = owner b \<longrightarrow>
     base a + unat (alloc_size a) \<le> base b \<or> base b + unat (alloc_size b) \<le> base a)"

definition holders :: "SendBuffer list \<Rightarrow> nat \<Rightarrow> nat" where
  "holders L i = length (filter (\<lambda>sb. owner sb = i) L)"

definition chunk_ok :: "nat \<Rightarrow> u32 \<Rightarrow> SendBuffer list \<Rightarrow> SendBufferChunk \<Rightarrow> bool" where
  "chunk_ok nxt csize L c \<longleftrightarrow>
     chunk_id c < nxt \<and> length (c_bytes c) = unat csize \<and> unat (c_offset c) \<le> unat csize \<and>
     ref_count c = holders L (chunk_id c) \<and>
     (\<forall>sb \<in> set L. owner sb = chunk_id c \<longrightarrow> base sb + unat (alloc_size sb) \<le> unat (c_offset c))"

definition pool_inv :: "pool_state \<Rightarrow> bool" where
  "pool_inv s \<longleftrightarrow> (case s of (p, L) \<Rightarrow>
     distinct (map chunk_id (active_chunks p @ free_chunks p)) \<and>
     (\<forall>c \<in> set (active_chunks p @ free_chunks p). chunk_ok (next_chunk p) (chunk_size p) L c) \<and>
     (\<forall>c \<in> set (free_chunks p). ref_count c = 0 \<and> c_offset c = 0) \<and>
     owner ` set L \<subseteq> chunk_id ` set (active_chunks p) \<and>
     sorted_wrt apart L \<and>
     (\<forall>sb \<in> set L. unat (write_size sb) \<le> unat (alloc_size sb)) \<and>
     pending_gc p = [] \<and>
     length (active_chunks p) + length (free_chunks p) \<le> unat (max_chunks p))"

lemma apart_sym: "apart a b \<Longrightarrow> apart b a"
  by (auto simp: apart_def)

lemma holders_append [simp]: "holders (L @ M) i = holders L i + holders M i"
  by (simp add: holders_def)

lemma holders_Nil [simp]: "holders [] i = 0"
  by (simp add: holders_def)

lemma holders_Cons [simp]: "holders (sb # L) i = (if owner sb = i then 1 else 0) + holders L i"
  by (simp add: holders_def)

lemma holders_0_iff: "holders L i = 0 \<longleftrightarrow> i \<notin> owner ` set L"
  by (induction L) auto

lemma drop_nth_split:
  assumes "k < length L"
  shows "L = take k L @ L ! k # drop (Suc k) L"
  using assms by (simp add: id_take_nth_drop)

lemma set_drop_nth: "set (drop_nth k L) \<subseteq> set L"
  unfolding drop_nth_def using set_take_subset [of k L] set_drop_subset [of "Suc k" L] by auto

lemma holders_drop_nth:
  assumes "k < length L"
  shows "holders L i = (if owner (L ! k) = i then 1 else 0) + holders (drop_nth k L) i"
proof -
  have "holders L i = holders (take k L @ L ! k # drop (Suc k) L) i"
    using drop_nth_split [OF assms] by simp
  then show ?thesis by (simp add: drop_nth_def)
qed

lemma sorted_wrt_drop_nth:
  assumes "sorted_wrt P L" "k < length L"
  shows "sorted_wrt P (drop_nth k L)"
proof -
  have "sorted_wrt P (take k L @ L ! k # drop (Suc k) L)"
    using assms drop_nth_split [of k L] by simp
  then show ?thesis by (simp add: drop_nth_def sorted_wrt_append)
qed

lemma find_unique:
  assumes "distinct (map f xs)" "x \<in> set xs"
  shows "find (\<lambda>y. f y = f x) xs = Some x"
  using assms by (induction xs) (auto simp: rev_image_eqI)

section \<open>Every operation keeps the invariant\<close>

lemma pool_inv_new: "pool_inv (BufferPool_new csize maxc, [])"
  by (simp add: pool_inv_def BufferPool_new_def)

lemma open_fits:
  assumes "chunk_ok nxt csize L c" "unat n + unat csize < 2 ^ 32" "Open n c = (Some sb, c')"
  shows "unat (c_offset c') = unat (c_offset c) + unat n" "unat (c_offset c') \<le> unat csize"
    "sb = \<lparr>owner = chunk_id c, base = unat (c_offset c), alloc_size = n, write_size = 0\<rparr>"
    "c' = c\<lparr>c_offset := c_offset c + n, ref_count := Suc (ref_count c)\<rparr>"
proof -
  from assms(3) have guard: "\<not> c_offset c + n > of_nat (length (c_bytes c))"
    and sb: "sb = \<lparr>owner = chunk_id c, base = unat (c_offset c), alloc_size = n, write_size = 0\<rparr>"
    and c': "c' = c\<lparr>c_offset := c_offset c + n, ref_count := Suc (ref_count c)\<rparr>"
    by (auto simp: Open_def split: if_splits)
  from assms(1,2) have sum: "unat (c_offset c + n) = unat (c_offset c) + unat n"
    by (intro unat_u32_plus) (simp add: chunk_ok_def)
  from guard assms(1) have "unat (c_offset c + n) \<le> unat csize"
    by (simp add: chunk_ok_def word_less_nat_alt not_less)
  with sum c' show "unat (c_offset c') = unat (c_offset c) + unat n"
    "unat (c_offset c') \<le> unat csize" by simp_all
  from sb c' show "sb = \<lparr>owner = chunk_id c, base = unat (c_offset c), alloc_size = n, write_size = 0\<rparr>"
    "c' = c\<lparr>c_offset := c_offset c + n, ref_count := Suc (ref_count c)\<rparr>" by simp_all
qed

lemma chunk_ok_other:
  "chunk_ok nxt csize L c \<Longrightarrow> owner sb \<noteq> chunk_id c \<Longrightarrow> chunk_ok nxt csize (L @ [sb]) c"
  by (simp add: chunk_ok_def)

lemma open_back_inv:
  assumes inv: "pool_inv (p, L)" and ne: "active_chunks p \<noteq> []"
    and room: "unat n + unat (chunk_size p) < 2 ^ 32"
    and ob: "open_back n p = (r, p')"
  shows "pool_inv (p', L @ (case r of None \<Rightarrow> [] | Some sb \<Rightarrow> [sb]))"
proof -
  obtain cs c where act: "active_chunks p = cs @ [c]"
    using ne by (metis append_butlast_last_id)
  obtain c' where op: "Open n c = (r, c')" and p': "p' = p\<lparr>active_chunks := cs @ [c']\<rparr>"
    using ob act by (auto simp: open_back_def split: prod.splits)
  have ok: "chunk_ok (next_chunk p) (chunk_size p) L c"
    using inv act by (simp add: pool_inv_def)
  show ?thesis
  proof (cases r)
    case None
    then have "c' = c" using op by (auto simp: Open_def split: if_splits)
    then show ?thesis using inv act p' None by (simp add: pool_inv_def)
  next
    case (Some sb)
    note fits = open_fits [OF ok room op [unfolded Some]]
    have other: "\<And>d. d \<in> set (cs @ free_chunks p) \<Longrightarrow>
        chunk_ok (next_chunk p) (chunk_size p) (L @ [sb]) d"
      using inv act fits(3) by (intro chunk_ok_other) (auto simp: pool_inv_def)
    have this_one: "chunk_ok (next_chunk p) (chunk_size p) (L @ [sb]) c'"
      using ok fits by (auto simp: chunk_ok_def)
    have "sorted_wrt apart (L @ [sb])"
      using inv ok fits(3) by (auto simp: pool_inv_def sorted_wrt_append apart_def chunk_ok_def)
    moreover have "chunk_id c' = chunk_id c" using fits(4) by simp
    ultimately show ?thesis
      using inv act p' Some other this_one fits(3) by (auto simp: pool_inv_def)
  qed
qed

lemma chunk_ok_Suc: "chunk_ok nxt csize L c \<Longrightarrow> chunk_ok (Suc nxt) csize L c"
  by (simp add: chunk_ok_def)

lemma owners_known:
  assumes "pool_inv (p, L)"
  shows "next_chunk p \<notin> owner ` set L" "next_chunk p \<notin> chunk_id ` set (active_chunks p @ free_chunks p)"
proof -
  have ids: "\<And>c. c \<in> set (active_chunks p @ free_chunks p) \<Longrightarrow> chunk_id c < next_chunk p"
    using assms by (auto simp: pool_inv_def chunk_ok_def)
  then show "next_chunk p \<notin> chunk_id ` set (active_chunks p @ free_chunks p)"
    by (metis imageE less_irrefl)
  moreover have "owner ` set L \<subseteq> chunk_id ` set (active_chunks p)"
    using assms by (simp add: pool_inv_def)
  ultimately show "next_chunk p \<notin> owner ` set L" by auto
qed

lemma AcquireChunk_inv:
  assumes inv: "pool_inv (p, L)" and acq: "AcquireChunk p = (Some c, p')"
  shows "pool_inv (p'\<lparr>active_chunks := active_chunks p' @ [c]\<rparr>, L)"
proof (cases "free_chunks p = []")
  case True
  then have p': "p' = p\<lparr>next_chunk := Suc (next_chunk p)\<rparr>"
    and c: "c = SendBufferChunk_new (next_chunk p) (chunk_size p)"
    and lim: "length (active_chunks p) < unat (max_chunks p)"
    using acq by (auto simp: AcquireChunk_def split: if_splits)
  have "holders L (next_chunk p) = 0"
    using owners_known(1) [OF inv] by (simp add: holders_0_iff)
  then have "chunk_ok (Suc (next_chunk p)) (chunk_size p) L c"
    using owners_known(1) [OF inv] by (auto simp: c chunk_ok_def SendBufferChunk_new_def image_iff)
  then show ?thesis
    using inv True lim owners_known(2) [OF inv]
    by (auto simp: pool_inv_def p' c SendBufferChunk_new_def intro: chunk_ok_Suc)
next
  case False
  then obtain fs where fs: "free_chunks p = fs @ [c]" and p': "p' = p\<lparr>free_chunks := fs\<rparr>"
    using acq by (auto simp: AcquireChunk_def) (metis append_butlast_last_id)
  show ?thesis using inv by (auto simp: pool_inv_def p' fs)
qed

lemma FlushPendingGc_none: "pending_gc p = [] \<Longrightarrow> FlushPendingGc p = p"
  by (simp add: FlushPendingGc_def)

lemma AcquireChunk_keeps:
  "AcquireChunk p = (r, p') \<Longrightarrow> chunk_size p' = chunk_size p \<and> (r = None \<longrightarrow> p' = p)"
  by (auto simp: AcquireChunk_def split: if_splits)

lemma open_back_keeps: "open_back n p = (r, p') \<Longrightarrow> chunk_size p' = chunk_size p"
  by (auto simp: open_back_def split: prod.splits)

lemma Allocate_acquired_inv:
  assumes inv: "pool_inv (p, L)" and room: "unat n + unat (chunk_size p) < 2 ^ 32"
    and acq: "AcquireChunk p = (Some c, p2)"
    and ob: "open_back n (p2\<lparr>active_chunks := active_chunks p2 @ [c]\<rparr>) = (r, p3)"
  shows "pool_inv (p3, L @ (case r of None \<Rightarrow> [] | Some sb \<Rightarrow> [sb]))"
  using open_back_inv [OF AcquireChunk_inv [OF inv acq] _ _ ob] room AcquireChunk_keeps [OF acq]
  by simp

lemma Allocate_inv:
  assumes inv: "pool_inv (p, L)" and room: "unat n + unat (chunk_size p) < 2 ^ 32"
    and al: "Allocate n p = (r, p')"
  shows "pool_inv (p', case r of Inl e \<Rightarrow> L | Inr sb \<Rightarrow> L @ [sb])"
proof -
  have flush: "FlushPendingGc p = p"
    using inv by (simp add: pool_inv_def FlushPendingGc_none)
  obtain first p1 where fst: "(if active_chunks p \<noteq> [] then open_back n p else (None, p)) = (first, p1)"
    by (metis prod.exhaust)
  have inv1: "pool_inv (p1, L @ (case first of None \<Rightarrow> [] | Some sb \<Rightarrow> [sb]))"
    using fst inv open_back_inv [OF inv _ room, of first p1] by (auto split: if_splits)
  have room1: "unat n + unat (chunk_size p1) < 2 ^ 32"
    using fst room open_back_keeps [of n p first p1] by (auto split: if_splits)
  show ?thesis
  proof (cases first)
    case (Some sb)
    then show ?thesis using al inv1 by (auto simp: Allocate_def flush fst)
  next
    case None
    obtain oc p2 where acq: "AcquireChunk p1 = (oc, p2)" by fastforce
    show ?thesis
    proof (cases oc)
      case None
      then show ?thesis using al inv1 acq \<open>first = None\<close> AcquireChunk_keeps [OF acq]
        by (auto simp: Allocate_def flush fst)
    next
      case (Some c)
      obtain r3 p3 where ob: "open_back n (p2\<lparr>active_chunks := active_chunks p2 @ [c]\<rparr>) = (r3, p3)"
        by fastforce
      have "pool_inv (p3, L @ (case r3 of None \<Rightarrow> [] | Some sb \<Rightarrow> [sb]))"
        using Allocate_acquired_inv [OF _ room1 acq [unfolded Some] ob] inv1 \<open>first = None\<close> by simp
      then show ?thesis using al acq Some ob \<open>first = None\<close>
        by (auto simp: Allocate_def flush fst split: option.splits)
    qed
  qed
qed

lemma map_id_dec_ref [simp]: "map chunk_id (dec_ref i cs) = map chunk_id cs"
  by (simp add: dec_ref_def)

lemma ids_dec_ref [simp]: "chunk_id ` set (dec_ref i cs) = chunk_id ` set cs"
  by (metis map_id_dec_ref set_map)

lemma length_dec_ref [simp]: "length (dec_ref i cs) = length cs"
  by (simp add: dec_ref_def)

lemma chunk_ok_drop_nth:
  assumes "chunk_ok nxt csize L c" "k < length L"
  shows "chunk_ok nxt csize (drop_nth k L)
           (if chunk_id c = owner (L ! k) then c\<lparr>ref_count := ref_count c - 1\<rparr> else c)"
  using assms holders_drop_nth [OF assms(2), of "chunk_id c"] set_drop_nth [of k L]
  by (auto simp: chunk_ok_def)

lemma OnRelease_dec_inv:
  assumes inv: "pool_inv (p, L)" and k: "k < length L"
  shows "pool_inv (p\<lparr>active_chunks := dec_ref (owner (L ! k)) (active_chunks p),
                     free_chunks := dec_ref (owner (L ! k)) (free_chunks p)\<rparr>, drop_nth k L)"
proof -
  have ok: "\<And>c. c \<in> set (active_chunks p @ free_chunks p) \<Longrightarrow>
      chunk_ok (next_chunk p) (chunk_size p) L c"
    using inv by (simp add: pool_inv_def)
  have "\<And>c. c \<in> set (dec_ref (owner (L ! k)) (active_chunks p) @ dec_ref (owner (L ! k)) (free_chunks p)) \<Longrightarrow>
      chunk_ok (next_chunk p) (chunk_size p) (drop_nth k L) c"
    using chunk_ok_drop_nth [OF ok k] by (fastforce simp: dec_ref_def)
  moreover have "\<forall>c \<in> set (dec_ref (owner (L ! k)) (free_chunks p)). ref_count c = 0 \<and> c_offset c = 0"
    using inv by (auto simp: pool_inv_def dec_ref_def)
  moreover have "sorted_wrt apart (drop_nth k L)"
    using inv k by (simp add: pool_inv_def sorted_wrt_drop_nth)
  moreover have "owner ` set (drop_nth k L) \<subseteq> chunk_id ` set (active_chunks p)"
    using inv image_mono [OF set_drop_nth] by (fastforce simp: pool_inv_def)
  ultimately show ?thesis
    using inv set_drop_nth [of k L] by (auto simp: pool_inv_def)
qed

lemma live_chunk:
  assumes inv: "pool_inv (p, L)" and sb: "sb \<in> set L"
  obtains c where "find_chunk (owner sb) p = Some c" "c \<in> set (active_chunks p)"
    "chunk_id c = owner sb" "chunk_ok (next_chunk p) (chunk_size p) L c"
proof -
  from inv sb obtain c where c: "c \<in> set (active_chunks p)" "chunk_id c = owner sb"
    by (auto simp: pool_inv_def)
  moreover have "chunk_ok (next_chunk p) (chunk_size p) L c"
    using inv c by (simp add: pool_inv_def)
  moreover have "find_chunk (owner sb) p = Some c"
    using find_unique [of chunk_id "active_chunks p @ free_chunks p" c] inv c
    by (simp add: find_chunk_def pool_inv_def)
  ultimately show ?thesis using that by blast
qed

lemma MoveToFree_inv:
  assumes inv: "pool_inv (p, L)" and free: "i \<notin> owner ` set L"
  shows "pool_inv (MoveToFree i p, L)"
proof (cases "find (\<lambda>c. chunk_id c = i) (active_chunks p)")
  case None
  then show ?thesis using inv by (simp add: MoveToFree_def)
next
  case (Some c)
  then have c: "c \<in> set (active_chunks p)" and i: "chunk_id c = i"
    by (auto simp: find_Some_iff)
  obtain xs ys where sp: "active_chunks p = xs @ c # ys" "c \<notin> set xs"
    using split_list_first [OF c] by blast
  have rm: "remove1 c (active_chunks p) = xs @ ys"
    using sp by (simp add: remove1_append)
  have ok: "chunk_ok (next_chunk p) (chunk_size p) L c"
    using inv c by (simp add: pool_inv_def)
  have zero: "holders L i = 0" using free by (simp add: holders_0_iff)
  have okr: "chunk_ok (next_chunk p) (chunk_size p) L (Reset c)"
    using ok free i by (auto simp: chunk_ok_def Reset_def image_iff)
  have ref: "ref_count (Reset c) = 0" "c_offset (Reset c) = 0" "chunk_id (Reset c) = i"
    using ok zero i by (auto simp: chunk_ok_def Reset_def)
  have own: "owner ` set L \<subseteq> chunk_id ` set (xs @ ys)"
    using inv free i subset_insert [of "chunk_id c" "owner ` set L"] by (simp add: pool_inv_def sp(1))
  have mv: "MoveToFree i p = p\<lparr>free_chunks := (if length (free_chunks p) < kMaxFreeChunks
      then free_chunks p @ [Reset c] else free_chunks p), active_chunks := xs @ ys\<rparr>"
    by (simp add: MoveToFree_def Some rm)
  show ?thesis
    unfolding mv using inv own okr ref i by (auto simp: pool_inv_def sp(1))
qed

lemma OnRelease_inv:
  assumes inv: "pool_inv (p, L)" and k: "k < length L"
  shows "\<exists>p'. OnRelease (owner (L ! k)) p = Inr p' \<and> pool_inv (p', drop_nth k L)"
proof -
  obtain c where c: "find_chunk (owner (L ! k)) p = Some c" "chunk_id c = owner (L ! k)"
      "chunk_ok (next_chunk p) (chunk_size p) L c"
    using live_chunk [OF inv nth_mem [OF k]] by blast
  have "ref_count c = Suc (holders (drop_nth k L) (owner (L ! k)))"
    using c holders_drop_nth [OF k, of "owner (L ! k)"] by (simp add: chunk_ok_def)
  then have "ref_count c = 1 \<longleftrightarrow> owner (L ! k) \<notin> owner ` set (drop_nth k L)"
    by (simp add: holders_0_iff)
  then show ?thesis
    using OnRelease_dec_inv [OF inv k] MoveToFree_inv [OF OnRelease_dec_inv [OF inv k]] c(1)
    by (simp add: OnRelease_def OnRelease_dec_def OnChunkUnused_def)
qed

lemma subspan_write_at_apart:
  assumes "n + length xs \<le> length buf" "a + len \<le> n \<or> n + length xs \<le> a"
  shows "subspan a len (write_at n xs buf) = subspan a len buf"
proof (rule nth_equalityI)
  show "length (subspan a len (write_at n xs buf)) = length (subspan a len buf)"
    using assms by simp
  fix i assume "i < length (subspan a len (write_at n xs buf))"
  then show "subspan a len (write_at n xs buf) ! i = subspan a len buf ! i"
    using assms by (auto simp: subspan_def write_at_def nth_append)
qed

lemma find_map_id:
  "(\<And>x. f (g x) = f x) \<Longrightarrow> find (\<lambda>y. f y = i) (map g xs) = map_option g (find (\<lambda>y. f y = i) xs)"
  by (induction xs) auto

lemma find_put_bytes:
  "find (\<lambda>c. chunk_id c = j) (put_bytes i xs cs n) =
     map_option (\<lambda>c. if chunk_id c = i then c\<lparr>c_bytes := write_at n xs (c_bytes c)\<rparr> else c)
       (find (\<lambda>c. chunk_id c = j) cs)"
  unfolding put_bytes_def by (rule find_map_id) simp

lemma find_chunk_put_bytes:
  "find_chunk j (p\<lparr>active_chunks := put_bytes i xs (active_chunks p) n,
                  free_chunks := put_bytes i xs (free_chunks p) n\<rparr>) =
     map_option (\<lambda>c. if chunk_id c = i then c\<lparr>c_bytes := write_at n xs (c_bytes c)\<rparr> else c)
       (find_chunk j p)"
  using find_put_bytes [of j i xs "active_chunks p @ free_chunks p" n]
  by (simp add: find_chunk_def put_bytes_def)

lemma apart_Commit [simp]: "apart (Commit n a) b = apart a b" "apart a (Commit n b) = apart a b"
  by (simp_all add: apart_def Commit_def)

lemma holders_Commit [simp]: "holders (L[k := Commit n (L ! k)]) i = holders L i"
proof (induction L arbitrary: k)
  case (Cons a L)
  then show ?case by (cases k) (simp_all add: Commit_def)
qed simp

lemma apart_list_Commit:
  "sorted_wrt apart L \<Longrightarrow> sorted_wrt apart (L[k := Commit n (L ! k)])"
  by (cases "k < length L") (simp_all add: sorted_wrt_iff_nth_less nth_list_update)

lemma live_window:
  assumes "chunk_ok nxt csize L c" "sb \<in> set L" "owner sb = chunk_id c"
  shows "base sb + unat (alloc_size sb) \<le> length (c_bytes c)"
  using assms by (fastforce simp: chunk_ok_def)

lemma Writable_bounds:
  assumes "unat (write_size sb) \<le> unat (alloc_size sb)"
  shows "Writable sb = (base sb + unat (write_size sb), unat (alloc_size sb) - unat (write_size sb))"
  using assms by (simp add: Writable_def unat_u32_minus)

lemma Commit_bounds:
  assumes "length xs \<le> unat (alloc_size sb) - unat (write_size sb)"
    "unat (write_size sb) \<le> unat (alloc_size sb)"
  shows "unat (write_size (Commit (of_nat (length xs)) sb)) = unat (write_size sb) + length xs"
  using assms unat_u32_lt [of "alloc_size sb"]
  by (simp add: Commit_def unat_u32_plus unat_u32_of_nat)

lemma copy_to_writable_cases:
  assumes "copy_to_writable sb xs p = Inr p'" "unat (write_size sb) \<le> unat (alloc_size sb)"
  shows "length xs \<le> unat (alloc_size sb) - unat (write_size sb)"
    "p' = p\<lparr>active_chunks := put_bytes (owner sb) xs (active_chunks p) (base sb + unat (write_size sb)),
            free_chunks := put_bytes (owner sb) xs (free_chunks p) (base sb + unat (write_size sb))\<rparr>"
  using assms by (auto simp: copy_to_writable_def Writable_bounds split: option.splits if_splits)

lemma chunk_ok_put:
  assumes ok: "chunk_ok nxt csize L c" and k: "k < length L"
    and w: "unat (write_size (L ! k)) \<le> unat (alloc_size (L ! k))"
    and len: "length xs \<le> unat (alloc_size (L ! k)) - unat (write_size (L ! k))"
  shows "chunk_ok nxt csize (L[k := Commit (of_nat (length xs)) (L ! k)])
     (if chunk_id c = owner (L ! k)
      then c\<lparr>c_bytes := write_at (base (L ! k) + unat (write_size (L ! k))) xs (c_bytes c)\<rparr> else c)"
proof -
  have "\<forall>sb \<in> set (L[k := Commit (of_nat (length xs)) (L ! k)]). owner sb = chunk_id c \<longrightarrow>
      base sb + unat (alloc_size sb) \<le> unat (c_offset c)"
    using ok nth_mem [OF k] set_update_subset_insert [of L k "Commit (of_nat (length xs)) (L ! k)"]
    by (auto simp: chunk_ok_def Commit_def)
  moreover have "chunk_id c = owner (L ! k) \<Longrightarrow>
      base (L ! k) + unat (write_size (L ! k)) + length xs \<le> length (c_bytes c)"
    using live_window [OF ok nth_mem [OF k]] w len by simp
  ultimately show ?thesis using ok by (simp add: chunk_ok_def)
qed

lemma map_id_put_bytes [simp]: "map chunk_id (put_bytes i xs cs n) = map chunk_id cs"
  by (simp add: put_bytes_def)

lemma ids_put_bytes [simp]: "chunk_id ` set (put_bytes i xs cs n) = chunk_id ` set cs"
  by (metis map_id_put_bytes set_map)

lemma length_put_bytes [simp]: "length (put_bytes i xs cs n) = length cs"
  by (simp add: put_bytes_def)

lemma copy_to_writable_inv:
  assumes inv: "pool_inv (p, L)" and k: "k < length L"
    and cp: "copy_to_writable (L ! k) xs p = Inr p'"
  shows "pool_inv (p', L[k := Commit (of_nat (length xs)) (L ! k)])"
proof -
  let ?sb = "Commit (of_nat (length xs)) (L ! k)"
  have w: "unat (write_size (L ! k)) \<le> unat (alloc_size (L ! k))"
    using inv nth_mem [OF k] by (auto simp: pool_inv_def)
  note c = copy_to_writable_cases [OF cp w]
  have ok: "\<And>c. c \<in> set (active_chunks p @ free_chunks p) \<Longrightarrow>
      chunk_ok (next_chunk p) (chunk_size p) L c"
    using inv by (simp add: pool_inv_def)
  have "\<forall>c \<in> set (active_chunks p' @ free_chunks p').
      chunk_ok (next_chunk p) (chunk_size p) (L[k := ?sb]) c"
    using chunk_ok_put [OF ok k w c(1)] by (fastforce simp: c(2) put_bytes_def)
  moreover have "\<forall>c \<in> set (free_chunks p'). ref_count c = 0 \<and> c_offset c = 0"
    using inv by (auto simp: pool_inv_def c(2) put_bytes_def)
  moreover have upd: "set (L[k := ?sb]) \<subseteq> insert ?sb (set L)"
    by (rule set_update_subset_insert)
  have "owner ` set (L[k := ?sb]) \<subseteq> owner ` set L"
    using image_mono [OF upd, of owner] nth_mem [OF k] by (auto simp: Commit_def)
  then have "owner ` set (L[k := ?sb]) \<subseteq> chunk_id ` set (active_chunks p)"
    using inv by (fastforce simp: pool_inv_def)
  moreover have "unat (write_size ?sb) \<le> unat (alloc_size ?sb)"
    using Commit_bounds [OF c(1) w] c(1) w by (simp add: Commit_def)
  ultimately show ?thesis
    using inv upd by (auto simp: pool_inv_def c(2) apart_list_Commit)
qed

lemma pool_step_inv: "pool_inv s \<Longrightarrow> pool_step s t \<Longrightarrow> pool_inv t"
  by (cases s) (auto elim!: pool_stepE intro: Allocate_inv copy_to_writable_inv
      dest: OnRelease_inv)

interpretation pool: inductive_invariant pool_step pool_start pool_inv
  by unfold_locales (auto simp: pool_start_def pool_inv_new intro: pool_step_inv)

lemma pool_inv_apart:
  assumes "pool_inv (p, L)" "i < length L" "j < length L" "i \<noteq> j"
  shows "apart (L ! i) (L ! j)"
  using assms by (cases i j rule: linorder_cases)
    (auto simp: pool_inv_def sorted_wrt_iff_nth_less intro: apart_sym)

lemma copy_to_writable_own:
  assumes inv: "pool_inv (p, L)" and k: "k < length L"
    and cp: "copy_to_writable (L ! k) xs p = Inr p'" and d: "Data p (L ! k) = Inr old"
  shows "Data p' (Commit (of_nat (length xs)) (L ! k)) = Inr (old @ xs)"
proof -
  have w: "unat (write_size (L ! k)) \<le> unat (alloc_size (L ! k))"
    using inv nth_mem [OF k] by (auto simp: pool_inv_def)
  note c = copy_to_writable_cases [OF cp w]
  obtain ch where ch: "find_chunk (owner (L ! k)) p = Some ch" "chunk_id ch = owner (L ! k)"
      "chunk_ok (next_chunk p) (chunk_size p) L ch"
    using live_chunk [OF inv nth_mem [OF k]] by blast
  have "base (L ! k) + unat (write_size (L ! k)) + length xs \<le> length (c_bytes ch)"
    using live_window [OF ch(3) nth_mem [OF k]] ch(2) w c(1) by simp
  from subspan_write_at_append [of "base (L ! k)", OF _ this] show ?thesis
    using d ch Commit_bounds [OF c(1) w]
    by (simp add: Data_def c(2) find_chunk_put_bytes) (simp add: Commit_def)
qed

lemma copy_to_writable_other:
  assumes inv: "pool_inv (p, L)" and k: "k < length L" and j: "j < length L" "j \<noteq> k"
    and cp: "copy_to_writable (L ! k) xs p = Inr p'"
  shows "Data p' (L ! j) = Data p (L ! j)"
proof -
  have w: "unat (write_size (L ! k)) \<le> unat (alloc_size (L ! k))"
    "unat (write_size (L ! j)) \<le> unat (alloc_size (L ! j))"
    using inv nth_mem [OF k] nth_mem [OF j(1)] by (auto simp: pool_inv_def)
  note c = copy_to_writable_cases [OF cp w(1)]
  obtain ch where ch: "find_chunk (owner (L ! j)) p = Some ch" "chunk_id ch = owner (L ! j)"
      "chunk_ok (next_chunk p) (chunk_size p) L ch"
    using live_chunk [OF inv nth_mem [OF j(1)]] by blast
  show ?thesis
  proof (cases "owner (L ! k) = owner (L ! j)")
    case True
    have fits: "base (L ! k) + unat (write_size (L ! k)) + length xs \<le> length (c_bytes ch)"
      using live_window [OF ch(3) nth_mem [OF k]] ch(2) w(1) c(1) True by simp
    have "base (L ! j) + unat (write_size (L ! j)) \<le> base (L ! k) + unat (write_size (L ! k)) \<or>
        base (L ! k) + unat (write_size (L ! k)) + length xs \<le> base (L ! j)"
      using pool_inv_apart [OF inv j(1) k j(2)] True w c(1) by (auto simp: apart_def)
    from subspan_write_at_apart [OF fits this] show ?thesis
      using ch True by (simp add: Data_def c(2) find_chunk_put_bytes)
  next
    case False
    then show ?thesis using ch by (simp add: Data_def c(2) find_chunk_put_bytes)
  qed
qed

section \<open>No operation touches the bytes of a buffer it does not write\<close>

definition stored :: "BufferPool \<Rightarrow> (nat \<times> byte list) set" where
  "stored p = (\<lambda>c. (chunk_id c, c_bytes c)) ` set (active_chunks p @ free_chunks p)"

lemma Data_stored:
  assumes inv: "pool_inv (p, L)" and own: "owner sb \<in> owner ` set L" and b: "(owner sb, b) \<in> stored p"
  shows "Data p sb = Inr (subspan (base sb) (unat (write_size sb)) b)"
proof -
  from b obtain c where c: "c \<in> set (active_chunks p @ free_chunks p)" "chunk_id c = owner sb" "c_bytes c = b"
    by (force simp: stored_def)
  have "find_chunk (owner sb) p = Some c"
    using find_unique [of chunk_id "active_chunks p @ free_chunks p" c] inv c
    by (simp add: find_chunk_def pool_inv_def)
  then show ?thesis using c by (simp add: Data_def)
qed

lemma live_stored:
  assumes "pool_inv (p, L)" "sb \<in> set L"
  obtains b where "(owner sb, b) \<in> stored p"
proof -
  obtain c where "c \<in> set (active_chunks p)" "chunk_id c = owner sb"
    using live_chunk [OF assms] by blast
  then have "(owner sb, c_bytes c) \<in> stored p" by (force simp: stored_def)
  then show ?thesis by (rule that)
qed

lemma Data_kept:
  assumes p: "pool_inv (p, L)" "sb \<in> set L" and p': "pool_inv (p', L')" "sb \<in> set L'"
    and sub: "stored p \<subseteq> stored p' \<or> stored p' \<subseteq> stored p"
  shows "Data p' sb = Data p sb"
proof -
  obtain b b' where b: "(owner sb, b) \<in> stored p" and b': "(owner sb, b') \<in> stored p'"
    using live_stored [OF p] live_stored [OF p'] by metis
  have own: "owner sb \<in> owner ` set L" "owner sb \<in> owner ` set L'"
    using p p' by auto
  from sub b b' have "(owner sb, b) \<in> stored p' \<or> (owner sb, b') \<in> stored p" by blast
  then show ?thesis
    using Data_stored [OF p(1) own(1)] Data_stored [OF p'(1) own(2)] b b' by metis
qed

lemma open_back_stored:
  "active_chunks p \<noteq> [] \<Longrightarrow> open_back n p = (r, p') \<Longrightarrow> stored p' = stored p"
  by (cases "active_chunks p" rule: rev_cases)
    (auto simp: open_back_def Open_def stored_def split: if_splits)

lemma AcquireChunk_stored:
  "AcquireChunk p = (Some c, p') \<Longrightarrow> stored p \<subseteq> stored (p'\<lparr>active_chunks := active_chunks p' @ [c]\<rparr>)"
  by (cases "free_chunks p" rule: rev_cases)
    (auto simp: AcquireChunk_def stored_def split: if_splits)

lemma AcquireChunk_None: "AcquireChunk p = (None, p') \<Longrightarrow> p' = p"
  by (auto simp: AcquireChunk_def split: if_splits)

lemma Allocate_stored:
  assumes "pending_gc p = []" "Allocate n p = (r, p')"
  shows "stored p \<subseteq> stored p'"
proof -
  obtain first p1 where fst: "(if active_chunks p \<noteq> [] then open_back n p else (None, p)) = (first, p1)"
    by (metis prod.exhaust)
  have s1: "stored p1 = stored p"
    using fst open_back_stored [of p n first p1] by (auto split: if_splits)
  show ?thesis
  proof (cases "first = None \<and> fst (AcquireChunk p1) \<noteq> None")
    case True
    then obtain c p2 where acq: "AcquireChunk p1 = (Some c, p2)" and none: "first = None"
      by (metis option.collapse prod.collapse)
    obtain r3 p3 where ob: "open_back n (p2\<lparr>active_chunks := active_chunks p2 @ [c]\<rparr>) = (r3, p3)"
      by fastforce
    have "p' = p3"
      using assms acq ob none by (auto simp: Allocate_def FlushPendingGc_none fst split: option.splits)
    then show ?thesis
      using s1 AcquireChunk_stored [OF acq] open_back_stored [OF _ ob] by simp
  next
    case False
    then have "p' = p1"
      using assms fst AcquireChunk_None [of p1]
      by (auto simp: Allocate_def FlushPendingGc_none split: option.splits prod.splits)
    then show ?thesis using s1 by simp
  qed
qed

lemma dec_ref_stored:
  "(\<lambda>c. (chunk_id c, c_bytes c)) ` set (dec_ref i cs) = (\<lambda>c. (chunk_id c, c_bytes c)) ` set cs"
  unfolding dec_ref_def set_map image_image by (rule image_cong) simp_all

lemma MoveToFree_stored: "stored (MoveToFree i p) \<subseteq> stored p"
proof (cases "find (\<lambda>c. chunk_id c = i) (active_chunks p)")
  case None
  then show ?thesis by (simp add: MoveToFree_def)
next
  case (Some c)
  then have "c \<in> set (active_chunks p)" by (auto simp: find_Some_iff)
  then have "(chunk_id c, c_bytes c) \<in> stored p" by (simp add: stored_def)
  then show ?thesis
    using Some set_remove1_subset [of c "active_chunks p"]
    by (auto simp: stored_def MoveToFree_def Reset_def)
qed

lemma OnRelease_stored:
  assumes "OnRelease i p = Inr p'"
  shows "stored p' \<subseteq> stored p"
proof -
  let ?q = "p\<lparr>active_chunks := dec_ref i (active_chunks p), free_chunks := dec_ref i (free_chunks p)\<rparr>"
  have "stored ?q = stored p"
    by (simp add: stored_def image_Un dec_ref_stored)
  moreover have "p' = ?q \<or> p' = MoveToFree i ?q"
    using assms by (auto simp: OnRelease_def OnRelease_dec_def OnChunkUnused_def
        split: option.splits if_splits)
  ultimately show ?thesis using MoveToFree_stored [of i ?q] by auto
qed

lemma write_at_Nil [simp]: "write_at n [] buf = buf"
  by (simp add: write_at_def)

lemma put_bytes_Nil [simp]: "put_bytes i [] cs n = cs"
  by (simp add: put_bytes_def map_idI)

lemma Commit_same:
  assumes "Commit (of_nat (length xs)) sb = sb" "length xs < 2 ^ 32"
  shows "xs = []"
proof -
  have "write_size (Commit (of_nat (length xs)) sb) = write_size sb"
    using assms(1) by simp
  then have "(of_nat (length xs) :: u32) = 0" by (simp add: Commit_def)
  then show ?thesis using unat_u32_of_nat [OF assms(2)] by simp
qed

lemma write_step_data:
  assumes inv: "pool_inv (p, L)" and k: "k < length L"
    and cp: "copy_to_writable (L ! k) xs p = Inr p'"
    and sb: "sb \<in> set L" "sb \<in> set (L[k := Commit (of_nat (length xs)) (L ! k)])"
  shows "Data p' sb = Data p sb"
proof (cases "\<exists>j < length L. j \<noteq> k \<and> L ! j = sb")
  case True
  then show ?thesis using copy_to_writable_other [OF inv k _ _ cp] by blast
next
  case False
  obtain i where i: "i < length L" "L[k := Commit (of_nat (length xs)) (L ! k)] ! i = sb"
    using sb(2) by (auto simp: in_set_conv_nth)
  with False k have "Commit (of_nat (length xs)) (L ! k) = sb"
    by (cases "i = k") auto
  moreover have "L ! k = sb"
    using False sb(1) by (auto simp: in_set_conv_nth)
  moreover have w: "unat (write_size (L ! k)) \<le> unat (alloc_size (L ! k))"
    using inv nth_mem [OF k] by (auto simp: pool_inv_def)
  note c = copy_to_writable_cases [OF cp w]
  have "length xs < 2 ^ 32" using c(1) unat_u32_lt [of "alloc_size (L ! k)"] by simp
  ultimately have "xs = []" using Commit_same by metis
  then show ?thesis by (simp add: c(2) Data_def find_chunk_def)
qed

lemma pool_step_data:
  assumes inv: "pool_inv (p, L)" and st: "pool_step (p, L) (p', L')" and sb: "sb \<in> set L" "sb \<in> set L'"
  shows "Data p' sb = Data p sb"
  using st
proof cases
  case (step_allocate n r)
  have "stored p \<subseteq> stored p'"
    using Allocate_stored step_allocate inv by (auto simp: pool_inv_def)
  then show ?thesis using Data_kept [OF inv sb(1) pool_step_inv [OF inv st] sb(2)] by simp
next
  case (step_write k xs)
  then show ?thesis using write_step_data [OF inv] sb by blast
next
  case (step_release k)
  then have "stored p' \<subseteq> stored p" using OnRelease_stored by blast
  then show ?thesis using Data_kept [OF inv sb(1) pool_step_inv [OF inv st] sb(2)] by simp
qed

section \<open>Properties of the pool\<close>



text \<open>A concrete run: two buffers of four and eight bytes in a pool of sixteen-byte chunks.\<close>

definition demo_pool :: BufferPool where
  "demo_pool = BufferPool_new 16 4"

definition demo_pool2 :: BufferPool where
  "demo_pool2 = snd (Allocate 8 (snd (Allocate 4 demo_pool)))"

definition demo_live :: "SendBuffer list" where
  "demo_live = [\<lparr>owner = 0, base = 0, alloc_size = 4, write_size = 0\<rparr>,
                \<lparr>owner = 0, base = 4, alloc_size = 8, write_size = 0\<rparr>]"

lemmas demo_defs = demo_pool2_def demo_live_def demo_pool_def BufferPool_new_def Allocate_def
  FlushPendingGc_def open_back_def AcquireChunk_def SendBufferChunk_new_def Open_def

lemma demo_reachable: "reachable_from pool_step pool_start (demo_pool2, demo_live)"
proof -
  have "pool_start (demo_pool, [])" by (auto simp: pool_start_def demo_pool_def)
  then have 0: "reachable_from pool_step pool_start (demo_pool, [])" by (rule reach_start)
  let ?p1 = "snd (Allocate 4 demo_pool)"
  have "pool_step (demo_pool, []) (?p1, case fst (Allocate 4 demo_pool) of Inl e \<Rightarrow> [] | Inr sb \<Rightarrow> [] @ [sb])"
    by (rule step_allocate [OF prod.collapse [symmetric]]) (simp add: demo_pool_def BufferPool_new_def)
  with 0 have "reachable_from pool_step pool_start
      (?p1, case fst (Allocate 4 demo_pool) of Inl e \<Rightarrow> [] | Inr sb \<Rightarrow> [] @ [sb])" by (rule reach_step)
  then have 1: "reachable_from pool_step pool_start (?p1, [demo_live ! 0])"
    by (simp add: demo_defs)
  have "pool_step (?p1, [demo_live ! 0]) (demo_pool2,
      case fst (Allocate 8 ?p1) of Inl e \<Rightarrow> [demo_live ! 0] | Inr sb \<Rightarrow> [demo_live ! 0] @ [sb])"
    unfolding demo_pool2_def
    by (rule step_allocate [OF prod.collapse [symmetric]]) (simp add: demo_defs)
  moreover have "(case fst (Allocate 8 ?p1) of Inl e \<Rightarrow> [demo_live ! 0] | Inr sb \<Rightarrow> [demo_live ! 0] @ [sb])
      = demo_live"
    by (simp add: demo_defs)
  ultimately have "pool_step (?p1, [demo_live ! 0]) (demo_pool2, demo_live)" by simp
  with 1 show ?thesis by (rule reach_step)
qed



section \<open>Releases that interleave with allocations\<close>

text \<open>
  The pool takes a mutex, so buffers may die on other threads. The decrement of the reference
  count is outside the mutex: between it and \<open>OnChunkUnused\<close> another thread can run \<open>Allocate\<close>.
  The third component of the state lists the chunks whose releasing thread is at that point; its
  \<open>try_to_lock\<close> may then succeed or fail.
\<close>

type_synonym race_state = "BufferPool \<times> SendBuffer list \<times> nat list"

definition race_start :: "race_state \<Rightarrow> bool" where
  "race_start s \<longleftrightarrow> (\<exists>csize maxc. s = (BufferPool_new csize maxc, [], []))"

inductive race_step :: "race_state \<Rightarrow> race_state \<Rightarrow> bool" where
  race_allocate: "Allocate n p = (r, p') \<Longrightarrow> unat n + unat (chunk_size p) < 2 ^ 32 \<Longrightarrow>
     race_step (p, L, R) (p', case r of Inl e \<Rightarrow> L | Inr sb \<Rightarrow> L @ [sb], R)"
| race_dec: "k < length L \<Longrightarrow> OnRelease_dec (owner (L ! k)) p = Inr (last_ref, p') \<Longrightarrow>
     race_step (p, L, R) (p', drop_nth k L, if last_ref then R @ [owner (L ! k)] else R)"
| race_unused: "i \<in> set R \<Longrightarrow> race_step (p, L, R) (OnChunkUnused owns_lock i p, L, remove1 i R)"

lemma reach_allocate:
  assumes "reachable_from race_step race_start (p, L, R)" "Allocate n p = (Inr sb, p')"
    "unat n + unat (chunk_size p) < 2 ^ 32"
  shows "reachable_from race_step race_start (p', L @ [sb], R)"
  using reach_step [OF assms(1) race_allocate [OF assms(2,3)]] by simp

lemma reach_dec_last:
  assumes "reachable_from race_step race_start (p, L, R)" "k < length L"
    "OnRelease_dec (owner (L ! k)) p = Inr (True, p')"
  shows "reachable_from race_step race_start (p', drop_nth k L, R @ [owner (L ! k)])"
  using reach_step [OF assms(1) race_dec [OF assms(2,3)]] by simp

lemma reach_unused:
  assumes "reachable_from race_step race_start (p, L, R)" "i \<in> set R"
  shows "reachable_from race_step race_start (OnChunkUnused b i p, L, remove1 i R)"
  using reach_step [OF assms(1) race_unused [OF assms(2)]] .

definition race_chunk :: "u32 \<Rightarrow> nat \<Rightarrow> SendBufferChunk" where
  "race_chunk off refs = \<lparr>chunk_id = 0, c_bytes = replicate 16 0, c_offset = off, ref_count = refs\<rparr>"

definition race_pool :: "SendBufferChunk list \<Rightarrow> SendBufferChunk list \<Rightarrow> BufferPool" where
  "race_pool act fre = \<lparr>active_chunks = act, free_chunks = fre, pending_gc = [], chunk_size = 16,
     max_chunks = 4, next_chunk = 1\<rparr>"

definition race_buf :: "nat \<Rightarrow> u32 \<Rightarrow> SendBuffer" where
  "race_buf b n = \<lparr>owner = 0, base = b, alloc_size = n, write_size = 0\<rparr>"

lemmas race_defs = race_chunk_def race_pool_def race_buf_def

lemma race_run:
  "reachable_from race_step race_start (race_pool [race_chunk 16 2] [], [race_buf 8 8, race_buf 0 16], [])"
proof -
  have "race_start (BufferPool_new 16 4, [], [])" by (auto simp: race_start_def)
  then have "reachable_from race_step race_start (BufferPool_new 16 4, [], [])" by (rule reach_start)
  moreover have "Allocate 8 (BufferPool_new 16 4) = (Inr (race_buf 0 8), race_pool [race_chunk 8 1] [])"
    by (simp add: demo_defs race_defs)
  ultimately have "reachable_from race_step race_start
      (race_pool [race_chunk 8 1] [], [] @ [race_buf 0 8], [])"
    by (rule reach_allocate) (simp add: BufferPool_new_def)
  from reach_dec_last [OF this, of 0 "race_pool [race_chunk 8 0] []"]
  have "reachable_from race_step race_start (race_pool [race_chunk 8 0] [], [], [0])"
    by (simp add: OnRelease_dec_def find_chunk_def dec_ref_def drop_nth_def race_defs)
  moreover have "Allocate 8 (race_pool [race_chunk 8 0] []) = (Inr (race_buf 8 8), race_pool [race_chunk 16 1] [])"
    by (simp add: demo_defs race_defs)
  ultimately have "reachable_from race_step race_start
      (race_pool [race_chunk 16 1] [], [] @ [race_buf 8 8], [0])"
    by (rule reach_allocate) (simp add: race_defs)
  then have "reachable_from race_step race_start (OnChunkUnused True 0 (race_pool [race_chunk 16 1] []),
      [] @ [race_buf 8 8], remove1 0 [0])"
    by (rule reach_unused) simp
  moreover have "Allocate 16 (OnChunkUnused True 0 (race_pool [race_chunk 16 1] [])) =
      (Inr (race_buf 0 16), race_pool [race_chunk 16 2] [])"
    by (simp add: OnChunkUnused_def MoveToFree_def Reset_def kMaxFreeChunks_def demo_defs race_defs)
  ultimately have "reachable_from race_step race_start (race_pool [race_chunk 16 2] [],
      ([] @ [race_buf 8 8]) @ [race_buf 0 16], remove1 0 [0])"
    by (rule reach_allocate)
      (simp add: OnChunkUnused_def MoveToFree_def Reset_def kMaxFreeChunks_def race_defs)
  then show ?thesis by (simp add: drop_nth_def)
qed

text \<open>
  C40: With releases on other threads the guarantee is lost: some interleaving of one allocation
  between the reference-count decrement and the \<open>OnChunkUnused\<close> of a release puts two live
  buffers on the same bytes, because \<open>MoveToFree\<close> recycles the chunk without checking
  \<open>Unused\<close> again.
\<close>

theorem pool_race_overlap:
  "\<exists>p L R i j. reachable_from race_step race_start (p, L, R) \<and> i < j \<and> j < length L \<and>
     \<not> apart (L ! i) (L ! j)"
proof -
  have "\<not> apart ([race_buf 8 8, race_buf 0 16] ! 0) ([race_buf 8 8, race_buf 0 16] ! 1)"
    by (simp add: apart_def race_buf_def)
  then show ?thesis using race_run
    by (intro exI [of _ "race_pool [race_chunk 16 2] []"] exI [of _ "[race_buf 8 8, race_buf 0 16]"]
        exI [of _ "[]"] exI [of _ 0] exI [of _ 1]) simp
qed

section \<open>Requests that do not fit\<close>

text \<open>
  The bound test of \<open>Open\<close> is computed in 32 bits: a request so large that the sum wraps is
  granted, although it reaches past the end of every chunk.
\<close>

theorem Open_wraps:
  assumes "chunk_ok nxt csize L c" "2 ^ 32 \<le> unat (c_offset c) + unat n"
  shows "\<exists>sb c'. Open n c = (Some sb, c') \<and> length (c_bytes c) < base sb + unat (alloc_size sb)"
proof -
  have "unat (c_offset c + n) = unat (c_offset c) + unat n - 2 ^ 32"
    using assms(2) unat_u32_lt [of "c_offset c"] unat_u32_lt [of n]
    by (simp add: unat_word_ariths mod_if)
  moreover have "length (c_bytes c) < 2 ^ 32" "unat (c_offset c) \<le> length (c_bytes c)"
    using assms(1) unat_u32_lt [of csize] by (simp_all add: chunk_ok_def)
  ultimately have "\<not> c_offset c + n > of_nat (length (c_bytes c))"
    using unat_u32_lt [of n] by (simp add: word_less_nat_alt unat_u32_of_nat)
  then show ?thesis
    using assms(2) \<open>length (c_bytes c) < 2 ^ 32\<close> by (simp add: Open_def)
qed

theorem Open_wraps_witness:
  "\<exists>sb c'. Open 4294967288 \<lparr>chunk_id = 0, c_bytes = replicate 16 0, c_offset = 8, ref_count = 0\<rparr> = (Some sb, c')
     \<and> length (replicate 16 (0 :: byte)) < base sb + unat (alloc_size sb)"
  using Open_wraps [of 1 16 "[]"
      "\<lparr>chunk_id = 0, c_bytes = replicate 16 0, c_offset = 8, ref_count = 0\<rparr>" 4294967288]
  by (simp add: chunk_ok_def)

definition oversized_state :: "u32 \<Rightarrow> u32 \<Rightarrow> nat \<Rightarrow> BufferPool \<Rightarrow> bool" where
  "oversized_state csize maxc m p \<longleftrightarrow>
     length (active_chunks p) = min m (unat maxc) \<and> free_chunks p = [] \<and> pending_gc p = [] \<and>
     chunk_size p = csize \<and> max_chunks p = maxc \<and>
     (\<forall>c \<in> set (active_chunks p). Unused c \<and> c_offset c = 0 \<and> length (c_bytes c) = unat csize)"

lemma Open_oversized:
  "c_offset c = 0 \<Longrightarrow> length (c_bytes c) = unat csize \<Longrightarrow> csize < n \<Longrightarrow> Open n c = (None, c)"
  by (simp add: Open_def)

lemma open_back_oversized:
  assumes "active_chunks p \<noteq> []" "Open n (last (active_chunks p)) = (None, last (active_chunks p))"
  shows "open_back n p = (None, p)"
  using assms by (simp add: open_back_def)

lemma Allocate_oversized:
  assumes st: "oversized_state csize maxc m p" and n: "csize < n"
  shows "fst (Allocate n p) = Inl kResourceExhausted \<and>
         oversized_state csize maxc (Suc m) (snd (Allocate n p))"
proof -
  have bk: "(if active_chunks p \<noteq> [] then open_back n p else (None, p)) = (None, p)"
    using st n by (auto simp: oversized_state_def intro!: open_back_oversized Open_oversized)
  have flush: "FlushPendingGc p = p"
    using st by (simp add: oversized_state_def FlushPendingGc_none)
  show ?thesis
  proof (cases "unat maxc \<le> m")
    case True
    then have "AcquireChunk p = (None, p)"
      using st by (simp add: oversized_state_def AcquireChunk_def)
    then have "Allocate n p = (Inl kResourceExhausted, p)"
      by (simp add: Allocate_def flush bk)
    then show ?thesis using st True by (simp add: oversized_state_def)
  next
    case False
    let ?c = "SendBufferChunk_new (next_chunk p) csize"
    let ?p = "p\<lparr>next_chunk := Suc (next_chunk p), active_chunks := active_chunks p @ [?c]\<rparr>"
    have "AcquireChunk p = (Some ?c, p\<lparr>next_chunk := Suc (next_chunk p)\<rparr>)"
      using st False by (auto simp: oversized_state_def AcquireChunk_def)
    moreover have "open_back n ?p = (None, ?p)"
      using n by (intro open_back_oversized)
        (simp_all add: Open_oversized [of _ csize] SendBufferChunk_new_def)
    ultimately have "Allocate n p = (Inl kResourceExhausted, ?p)"
      by (simp add: Allocate_def flush bk)
    then show ?thesis
      using st False by (auto simp: oversized_state_def SendBufferChunk_new_def Unused_def)
  qed
qed

text \<open>
  A request larger than a chunk is refused, but each refusal leaves one more empty chunk among
  the active ones, where only a release could ever take it back; after \<open>max_chunks\<close> refusals the
  pool has created all the chunks it may, none of them holding a buffer.
\<close>

theorem oversized_requests_fill_pool:
  assumes "csize < n"
  shows "length (active_chunks (((\<lambda>p. snd (Allocate n p)) ^^ m) (BufferPool_new csize maxc))) = min m (unat maxc)
       \<and> (\<forall>c \<in> set (active_chunks (((\<lambda>p. snd (Allocate n p)) ^^ m) (BufferPool_new csize maxc))). Unused c)
       \<and> fst (Allocate n (((\<lambda>p. snd (Allocate n p)) ^^ m) (BufferPool_new csize maxc))) = Inl kResourceExhausted"
proof -
  have st: "oversized_state csize maxc m (((\<lambda>p. snd (Allocate n p)) ^^ m) (BufferPool_new csize maxc))"
  proof (induction m)
    case 0
    then show ?case by (simp add: oversized_state_def BufferPool_new_def)
  next
    case (Suc m)
    then show ?case using Allocate_oversized [OF _ assms] by simp
  qed
  then show ?thesis using Allocate_oversized [OF st assms] by (simp add: oversized_state_def)
qed

theorem oversized_requests_fill_pool_witness:
  "length (active_chunks (((\<lambda>p. snd (Allocate 17 p)) ^^ 3) (BufferPool_new 16 2))) = 2"
  using oversized_requests_fill_pool [of 16 17 3 2] by simp

end
