(* ===== verification/Packet_Session.thy ===== *)
theory Packet_Session
  imports Recv_Buffer Send_Buffer
begin

text \<open>
  Packet framing of \<^verbatim>\<open>src/modules/game/PacketSession.cpp\<close> and
  \<^verbatim>\<open>include/iouring_runtime/game/PacketBuilder.h\<close>: a packet is a little-endian size, a
  little-endian id and a payload, the size counting the four header bytes. \<open>frames\<close> is the
  reference decoder over the whole byte stream; the session's receive handler, which keeps an
  incomplete packet in its receive buffer between calls, is shown to compute it for every way
  the stream is cut into chunks.
\<close>

unbundle bit_operations_syntax

section \<open>Constants and wire format\<close>

definition kHeaderSize :: u32 where
  "kHeaderSize = 4"

definition kMaxPacketSize :: u32 where
  "kMaxPacketSize = 65535"

definition le16_bytes :: "u16 \<Rightarrow> byte list" where
  "le16_bytes v = [ucast v, ucast (drop_bit 8 v)]"

fun ReadLe16 :: "byte list \<Rightarrow> fault + u16" where
  "ReadLe16 (b0 # b1 # _) = Inr (ucast b0 OR push_bit 8 (ucast b1))"
| "ReadLe16 _ = Inl OutOfBounds"

section \<open>The session\<close>

text \<open>
  \<open>OnPacket\<close> is virtual and \<open>Disconnect\<close> belongs to the base class, so the state records the
  calls to them: the packets handed to the application, in order, and the number of disconnects.
\<close>

record PacketSession =
  recv_buffer :: RecvBuffer
  packets :: "(u16 \<times> byte list) list"
  disconnects :: nat

definition PacketSession_new :: PacketSession where
  "PacketSession_new = \<lparr>recv_buffer = RecvBuffer_new 65536, packets = [], disconnects = 0\<rparr>"

definition PacketSession_Disconnect :: "PacketSession \<Rightarrow> PacketSession" where
  "PacketSession_Disconnect s = s\<lparr>disconnects := Suc (disconnects s)\<rparr>"

definition OnPacket :: "u16 \<Rightarrow> byte list \<Rightarrow> PacketSession \<Rightarrow> PacketSession" where
  "OnPacket i payload s = s\<lparr>packets := packets s @ [(i, payload)]\<rparr>"

definition AppendToRecvBuffer ::
    "byte list \<Rightarrow> PacketSession \<Rightarrow> fault + (bool \<times> PacketSession)" where
  "AppendToRecvBuffer data s =
     (if data = [] then Inr (True, s)
      else case Append data (recv_buffer s) of
             Inl f \<Rightarrow> Inl f
           | Inr (Some _, b) \<Rightarrow> Inr (False, PacketSession_Disconnect (s\<lparr>recv_buffer := b\<rparr>))
           | Inr (None, b) \<Rightarrow> Inr (True, s\<lparr>recv_buffer := b\<rparr>))"

definition ValidatePacketSize :: "u16 \<Rightarrow> PacketSession \<Rightarrow> bool \<times> PacketSession" where
  "ValidatePacketSize packet_size s =
     (if kHeaderSize \<le> ucast packet_size \<and> ucast packet_size \<le> kMaxPacketSize
      then (True, s) else (False, PacketSession_Disconnect s))"

text \<open>Reading the payload of a packet that starts a span: four bytes on, up to the packet's end.\<close>

definition packet_payload :: "byte list \<Rightarrow> u16 \<Rightarrow> fault + byte list" where
  "packet_payload span packet_size =
     (let n = unat (ucast packet_size - kHeaderSize) in
      if unat kHeaderSize + n \<le> length span then Inr (subspan (unat kHeaderSize) n span)
      else Inl OutOfBounds)"

definition CompleteBody ::
    "byte list \<Rightarrow> nat \<Rightarrow> PacketSession \<Rightarrow> fault + (bool \<times> nat \<times> PacketSession)" where
  "CompleteBody data off s =
     (case ReadLe16 (ReadRegion (recv_buffer s)) of
        Inl f \<Rightarrow> Inl f
      | Inr packet_size \<Rightarrow>
          (let (valid, s1) = ValidatePacketSize packet_size s in
           if \<not> valid then Inr (False, off, s1)
           else let needed = unat (ucast packet_size - ReadableSize (recv_buffer s1));
                    copied = min needed (length data - off)
                in case AppendToRecvBuffer (subspan off copied data) s1 of
                     Inl f \<Rightarrow> Inl f
                   | Inr (False, s2) \<Rightarrow> Inr (False, off, s2)
                   | Inr (True, s2) \<Rightarrow>
                       (if ReadableSize (recv_buffer s2) < ucast packet_size
                        then Inr (True, off + copied, s2)
                        else let packet = ReadRegion (recv_buffer s2) in
                             case ReadLe16 (drop 2 packet) of
                               Inl f \<Rightarrow> Inl f
                             | Inr packet_id \<Rightarrow>
                                 (case packet_payload packet packet_size of
                                    Inl f \<Rightarrow> Inl f
                                  | Inr payload \<Rightarrow>
                                      (let s3 = OnPacket packet_id payload s2 in
                                       Inr (True, off + copied,
                                         s3\<lparr>recv_buffer :=
                                              OnRead (ucast packet_size) (recv_buffer s3)\<rparr>))))))"

definition CompleteBufferedPacket ::
    "byte list \<Rightarrow> nat \<Rightarrow> PacketSession \<Rightarrow> fault + (bool \<times> nat \<times> PacketSession)" where
  "CompleteBufferedPacket data off s =
     (if ReadableSize (recv_buffer s) < kHeaderSize
      then let needed = unat (kHeaderSize - ReadableSize (recv_buffer s));
               copied = min needed (length data - off)
           in case AppendToRecvBuffer (subspan off copied data) s of
                Inl f \<Rightarrow> Inl f
              | Inr (False, s1) \<Rightarrow> Inr (False, off, s1)
              | Inr (True, s1) \<Rightarrow>
                  (if ReadableSize (recv_buffer s1) < kHeaderSize
                   then Inr (True, off + copied, s1)
                   else CompleteBody data (off + copied) s1)
      else CompleteBody data off s)"

lemma CompleteBody_offset:
  "CompleteBody data off s = Inr (ok, off', s') \<Longrightarrow> off \<le> off'"
  by (auto simp: CompleteBody_def Let_def split: sum.splits prod.splits if_splits bool.splits)

lemma CompleteBufferedPacket_offset:
  "CompleteBufferedPacket data off s = Inr (ok, off', s') \<Longrightarrow> off \<le> off'"
  by (auto simp: CompleteBufferedPacket_def Let_def dest: CompleteBody_offset
      split: sum.splits prod.splits if_splits bool.splits)

text \<open>
  The loop of \<open>OnRecv\<close>. Its flag tells a plain \<open>return\<close> (\<open>False\<close>) from reaching the code
  after the loop. It ends because every pass either consumes input or empties the buffer, after
  which the next pass consumes input.
\<close>

function OnRecv_loop :: "byte list \<Rightarrow> nat \<Rightarrow> PacketSession \<Rightarrow> fault + (bool \<times> PacketSession)" where
  "OnRecv_loop data off s =
     (if off < length data then
        if \<not> IsEmpty (recv_buffer s) then
          (case CompleteBufferedPacket data off s of
             Inl f \<Rightarrow> Inl f
           | Inr (ok, off', s') \<Rightarrow>
               (if \<not> ok then Inr (False, s')
                else if \<not> IsEmpty (recv_buffer s') then Inr (True, s')
                else OnRecv_loop data off' s'))
        else let remaining = length data - off in
          if remaining < unat kHeaderSize
          then AppendToRecvBuffer (subspan off remaining data) s
          else (case ReadLe16 (drop off data) of
                  Inl f \<Rightarrow> Inl f
                | Inr packet_size \<Rightarrow>
                    (let (valid, s1) = ValidatePacketSize packet_size s in
                     if \<not> valid then Inr (False, s1)
                     else if remaining < unat packet_size
                     then AppendToRecvBuffer (subspan off remaining data) s1
                     else (case ReadLe16 (drop (off + 2) data) of
                             Inl f \<Rightarrow> Inl f
                           | Inr packet_id \<Rightarrow>
                               (case packet_payload (drop off data) packet_size of
                                  Inl f \<Rightarrow> Inl f
                                | Inr payload \<Rightarrow>
                                    OnRecv_loop data (off + unat packet_size)
                                      (OnPacket packet_id payload s1)))))
      else Inr (True, s))"
  by pat_completeness auto
termination
  apply (relation "measure (\<lambda>(data, off, s).
      2 * (length data - off) + (if IsEmpty (recv_buffer s) then 0 else 1))")
    apply simp
   apply (auto dest!: CompleteBufferedPacket_offset)[1]
  apply (auto simp: ValidatePacketSize_def OnPacket_def kHeaderSize_def word_le_nat_alt
      split: if_splits)
  done

declare OnRecv_loop.simps [simp del]

definition OnRecv :: "byte list \<Rightarrow> PacketSession \<Rightarrow> fault + PacketSession" where
  "OnRecv data s =
     (case OnRecv_loop data 0 s of
        Inl f \<Rightarrow> Inl f
      | Inr (False, s') \<Rightarrow> Inr s'
      | Inr (True, s') \<Rightarrow>
          Inr (if ShouldCompact (recv_buffer s')
               then s'\<lparr>recv_buffer := Compact (recv_buffer s')\<rparr> else s'))"

section \<open>The reference decoder\<close>

definition le16 :: "byte list \<Rightarrow> nat" where
  "le16 bs = unat (bs ! 0) + 256 * unat (bs ! 1)"

definition packet_id_of :: "byte list \<Rightarrow> u16" where
  "packet_id_of bs = of_nat (le16 (drop 2 bs))"

text \<open>
  \<open>frames bs\<close> is the complete packets at the front of \<open>bs\<close> and what is left: \<open>Some r\<close> for the
  bytes of an incomplete packet, \<open>None\<close> when the next header has an impossible size.
\<close>

function frames :: "byte list \<Rightarrow> (u16 \<times> byte list) list \<times> byte list option" where
  "frames bs =
     (if length bs < 4 then ([], Some bs)
      else if le16 bs < 4 then ([], None)
      else if length bs < le16 bs then ([], Some bs)
      else let (ps, r) = frames (drop (le16 bs) bs)
           in ((packet_id_of bs, subspan 4 (le16 bs - 4) bs) # ps, r))"
  by pat_completeness auto
termination
  by (relation "measure length") auto

declare frames.simps [simp del]

lemma frames_short: "length bs < 4 \<Longrightarrow> frames bs = ([], Some bs)"
  by (simp add: frames.simps)

lemma frames_bad: "4 \<le> length bs \<Longrightarrow> le16 bs < 4 \<Longrightarrow> frames bs = ([], None)"
  by (simp add: frames.simps)

lemma frames_partial:
  "4 \<le> length bs \<Longrightarrow> 4 \<le> le16 bs \<Longrightarrow> length bs < le16 bs \<Longrightarrow> frames bs = ([], Some bs)"
  by (simp add: frames.simps)

lemma frames_packet:
  assumes "4 \<le> le16 bs" "le16 bs \<le> length bs"
  shows "frames bs = ((packet_id_of bs, subspan 4 (le16 bs - 4) bs) # fst (frames (drop (le16 bs) bs)),
                      snd (frames (drop (le16 bs) bs)))"
  using assms by (subst frames.simps) (simp add: Let_def split_beta)

lemma le16_append: "2 \<le> length bs \<Longrightarrow> le16 (bs @ d) = le16 bs"
  by (auto simp: le16_def nth_append)

lemma packet_id_of_append: "4 \<le> length bs \<Longrightarrow> packet_id_of (bs @ d) = packet_id_of bs"
  by (simp add: packet_id_of_def le16_append)

lemma subspan_append_left: "n + k \<le> length bs \<Longrightarrow> subspan n k (bs @ d) = subspan n k bs"
  by (simp add: subspan_def)

lemma subspan_take: "subspan k (n - k) (take n xs) = subspan k (n - k) xs"
  by (simp add: subspan_def drop_take)

text \<open>More input extends the decoding: what was left over is decoded together with it.\<close>

lemma frames_append:
  "frames (bs @ d) =
     (case snd (frames bs) of
        None \<Rightarrow> frames bs
      | Some r \<Rightarrow> (fst (frames bs) @ fst (frames (r @ d)), snd (frames (r @ d))))"
proof (induction bs rule: frames.induct)
  case (1 bs)
  consider "length bs < 4" | "4 \<le> length bs" "le16 bs < 4"
    | "4 \<le> length bs" "4 \<le> le16 bs" "length bs < le16 bs"
    | "4 \<le> length bs" "4 \<le> le16 bs" "le16 bs \<le> length bs"
    by linarith
  then show ?case
  proof cases
    case 4
    let ?rest = "drop (le16 bs) bs"
    from 4 have IH: "frames (?rest @ d) =
        (case snd (frames ?rest) of
           None \<Rightarrow> frames ?rest
         | Some r \<Rightarrow> (fst (frames ?rest) @ fst (frames (r @ d)), snd (frames (r @ d))))"
      by (intro "1.IH") auto
    have le: "le16 (bs @ d) = le16 bs"
      using 4 by (intro le16_append) simp
    have "frames (bs @ d) = ((packet_id_of bs, subspan 4 (le16 bs - 4) bs)
        # fst (frames (?rest @ d)), snd (frames (?rest @ d)))"
      using 4 le by (subst frames_packet) (simp_all add: packet_id_of_append subspan_append_left)
    with 4 IH show ?thesis
      by (simp add: frames_packet [of bs] split: option.splits)
  qed (simp_all add: frames_short frames_bad frames_partial le16_append)
qed

lemma length_frames_rest: "snd (frames bs) = Some r \<Longrightarrow> length r \<le> length bs"
proof (induction bs rule: frames.induct)
  case (1 bs)
  show ?case
  proof (cases "4 \<le> length bs \<and> 4 \<le> le16 bs \<and> le16 bs \<le> length bs")
    case True
    with "1.prems" have "snd (frames (drop (le16 bs) bs)) = Some r"
      by (simp add: frames_packet)
    with True have "length r \<le> length (drop (le16 bs) bs)" by (intro "1.IH") auto
    then show ?thesis by simp
  next
    case False
    with "1.prems" show ?thesis
      by (subst (asm) frames.simps) (auto split: if_splits)
  qed
qed

section \<open>The handler decodes the stream\<close>

lemma ReadLe16_le16:
  assumes "2 \<le> length bs"
  shows "ReadLe16 bs = Inr (of_nat (le16 bs))"
proof -
  obtain b0 b1 rest where bs: "bs = b0 # b1 # rest"
    using assms by (metis Suc_le_length_iff numeral_2_eq_2)
  have "(ucast b0 :: u16) AND push_bit 8 (ucast b1) = 0"
    by (rule bit_eqI) (auto simp: bit_and_iff bit_push_bit_iff bit_ucast_iff
        dest: bit_imp_le_length)
  then have "(ucast b0 OR push_bit 8 (ucast b1) :: u16) = ucast b0 + push_bit 8 (ucast b1)"
    by (simp add: disjunctive_add_eq_or)
  also have "\<dots> = of_nat (unat b0) + 256 * of_nat (unat b1)"
    by (simp add: push_bit_eq_mult mult.commute)
  also have "\<dots> = of_nat (le16 bs)"
    by (simp add: bs le16_def)
  finally show ?thesis by (simp add: bs)
qed

lemma le16_lt: "le16 bs < 65536"
  using unat_u8_lt [of "bs ! 0"] unat_u8_lt [of "bs ! 1"] by (simp add: le16_def)

lemma unat_le16 [simp]: "unat (of_nat (le16 bs) :: u16) = le16 bs"
  using le16_lt [of bs] by (simp add: unat_of_nat take_bit_nat_eq_self)

lemma ValidatePacketSize_le16:
  "ValidatePacketSize (of_nat (le16 bs)) s =
     (if 4 \<le> le16 bs then (True, s) else (False, PacketSession_Disconnect s))"
  using le16_lt [of bs]
  by (simp add: ValidatePacketSize_def kHeaderSize_def kMaxPacketSize_def word_le_nat_alt)

lemma packet_payload_le16:
  assumes "4 \<le> le16 bs" "le16 bs \<le> length bs"
  shows "packet_payload bs (of_nat (le16 bs)) = Inr (subspan 4 (le16 bs - 4) bs)"
proof -
  have "unat (ucast (of_nat (le16 bs) :: u16) - kHeaderSize) = le16 bs - 4"
    using assms by (subst unat_u32_minus) (simp_all add: kHeaderSize_def)
  with assms show ?thesis
    by (simp add: packet_payload_def Let_def kHeaderSize_def)
qed

text \<open>
  Between calls the buffer holds an incomplete packet: too short for a header, or a valid header
  whose packet is longer than what has arrived.
\<close>

definition ps_inv :: "PacketSession \<Rightarrow> bool" where
  "ps_inv s \<longleftrightarrow> rb_inv (recv_buffer s) \<and> capacity (recv_buffer s) = 65536
     \<and> frames (readable (recv_buffer s)) = ([], Some (readable (recv_buffer s)))"

abbreviation residue :: "PacketSession \<Rightarrow> byte list" where
  "residue s \<equiv> readable (recv_buffer s)"

lemma frames_incomplete_iff:
  "frames r = ([], Some r) \<longleftrightarrow> length r < 4 \<or> (4 \<le> le16 r \<and> length r < le16 r)"
proof -
  have "length r < 4 \<or> (4 \<le> le16 r \<and> length r < le16 r)" if "frames r = ([], Some r)"
    using that by (subst (asm) frames.simps) (auto simp: Let_def split_beta split: if_splits)
  then show ?thesis
    by (cases "length r < 4") (auto simp: frames_short frames_partial)
qed

lemma ps_inv_length: "ps_inv s \<Longrightarrow> length (residue s) < 65536"
  using le16_lt [of "residue s"] by (auto simp: ps_inv_def frames_incomplete_iff)

lemma AppendToRecvBuffer_fits:
  assumes "rb_inv (recv_buffer s)" "capacity (recv_buffer s) = 65536"
    "length (residue s) + length d \<le> 65536"
  obtains b where "AppendToRecvBuffer d s = Inr (True, s\<lparr>recv_buffer := b\<rparr>)" "rb_inv b"
    "capacity b = 65536" "readable b = residue s @ d"
proof (cases "d = []")
  case True
  with assms show ?thesis
    by (intro that [of "recv_buffer s"]) (simp_all add: AppendToRecvBuffer_def)
next
  case False
  have "length (residue s) + length d \<le> unat (capacity (recv_buffer s))"
    using assms by simp
  with assms(1) obtain b where "Append d (recv_buffer s) = Inr (None, b)" "rb_inv b"
      "readable b = residue s @ d" "capacity b = capacity (recv_buffer s)"
    by (rule Append_fits)
  with False assms(2) show ?thesis
    by (intro that [of b]) (simp_all add: AppendToRecvBuffer_def)
qed

lemma take_drop_split: "take k (drop n xs) @ drop (n + k) xs = drop n xs"
  by (metis add.commute append_take_drop_id drop_drop)

text \<open>
  The three outcomes of completing a buffered packet, in terms of the pending stream \<open>bs\<close> and
  the offset \<open>e\<close> of the first byte after its first packet.
\<close>

definition completes ::
    "byte list \<Rightarrow> nat \<Rightarrow> PacketSession \<Rightarrow> fault + (bool \<times> nat \<times> PacketSession) \<Rightarrow> bool" where
  "completes bs e s res \<longleftrightarrow>
     (if 4 \<le> length bs \<and> le16 bs < 4 then
        (\<exists>off' s'. res = Inr (False, off', s') \<and> packets s' = packets s
           \<and> disconnects s' = Suc (disconnects s))
      else if length bs < 4 \<or> length bs < le16 bs then
        (\<exists>off' b. res = Inr (True, off', s\<lparr>recv_buffer := b\<rparr>) \<and> rb_inv b \<and> capacity b = 65536
           \<and> readable b = bs)
      else
        (\<exists>b. res = Inr (True, e,
                 OnPacket (packet_id_of bs) (subspan 4 (le16 bs - 4) bs) s\<lparr>recv_buffer := b\<rparr>)
           \<and> rb_inv b \<and> capacity b = 65536 \<and> readable b = []))"

lemma completes_other_buffer [simp]:
  "completes bs e (s\<lparr>recv_buffer := b\<rparr>) res = completes bs e s res"
  by (simp add: completes_def OnPacket_def)

lemma completes_packet:
  assumes "4 \<le> le16 bs" "le16 bs \<le> length bs" "rb_inv b" "capacity b = 65536" "readable b = []"
  shows "completes bs e s
    (Inr (True, e, OnPacket (packet_id_of bs) (subspan 4 (le16 bs - 4) bs) s\<lparr>recv_buffer := b\<rparr>))"
  using assms by (auto simp: completes_def)

lemma completes_offset:
  "(4 \<le> le16 bs \<Longrightarrow> e = e') \<Longrightarrow> completes bs e s res = completes bs e' s res"
  by (auto simp: completes_def)

lemma CompleteBody_completes:
  assumes inv: "rb_inv (recv_buffer s)" "capacity (recv_buffer s) = 65536"
    and len: "4 \<le> length (residue s)" "4 \<le> le16 (residue s) \<Longrightarrow> length (residue s) \<le> le16 (residue s)"
    and off: "off \<le> length data"
  shows "completes (residue s @ drop off data) (off + (le16 (residue s) - length (residue s))) s
           (CompleteBody data off s)"
proof -
  let ?r = "residue s" and ?rest = "drop off data"
  let ?n = "le16 ?r" and ?bs = "residue s @ drop off data"
  have bs: "le16 ?bs = ?n" "4 \<le> length ?bs"
    using len(1) by (simp_all add: le16_append)
  have rd: "ReadLe16 ?r = Inr (of_nat ?n)"
    using len(1) by (intro ReadLe16_le16) simp
  show ?thesis
  proof (cases "4 \<le> ?n")
    case False
    with bs rd show ?thesis
      by (simp add: completes_def Let_def CompleteBody_def ValidatePacketSize_le16
          PacketSession_Disconnect_def)
  next
    case True
    let ?copied = "min (?n - length ?r) (length data - off)"
    have nd: "unat (ucast (of_nat ?n :: u16) - ReadableSize (recv_buffer s)) = ?n - length ?r"
      using len(2) True inv by (subst unat_u32_minus) (simp_all add: unat_ReadableSize)
    have "length ?r + length (subspan off ?copied data) \<le> 65536"
      using len(2) True le16_lt [of ?r] by simp
    with inv obtain b where
      app: "AppendToRecvBuffer (subspan off ?copied data) s = Inr (True, s\<lparr>recv_buffer := b\<rparr>)"
      and b: "rb_inv b" "capacity b = 65536" "readable b = ?r @ subspan off ?copied data"
      by (rule AppendToRecvBuffer_fits)
    have lenb: "length (readable b) = min ?n (length ?bs)"
      using b(3) len(2) True by simp
    have szb: "ReadableSize b < ucast (of_nat ?n :: u16) \<longleftrightarrow> length ?bs < ?n"
      using lenb b(1) by (auto simp: word_less_nat_alt unat_ReadableSize)
    show ?thesis
    proof (cases "length ?bs < ?n")
      case short: True
      then have "?copied = length data - off" by simp
      then have "readable b = ?bs"
        using b(3) by (simp add: subspan_def)
      with short True bs rd nd app b szb show ?thesis
        by (auto simp: completes_def Let_def CompleteBody_def ValidatePacketSize_le16)
    next
      case False
      then have cp: "?copied = ?n - length ?r" by simp
      have rb: "readable b = take ?n ?bs"
        using b(3) len(2) True by (simp add: cp subspan_def)
      have lb: "length (readable b) = ?n" using lenb False by simp
      have le16b: "le16 (readable b) = ?n"
        using len(1) b(3) by (simp add: le16_append)
      have idb: "packet_id_of (readable b) = packet_id_of ?bs"
        using len(1) b(3) by (simp add: packet_id_of_append)
      have plb: "subspan 4 (?n - 4) (readable b) = subspan 4 (?n - 4) ?bs"
        unfolding rb by (rule subspan_take)
      have pay: "packet_payload (readable b) (of_nat ?n) = Inr (subspan 4 (?n - 4) ?bs)"
        using packet_payload_le16 [of "readable b"] True lb le16b plb by simp
      have rid: "ReadLe16 (drop 2 (readable b)) = Inr (packet_id_of ?bs)"
        unfolding idb [symmetric] packet_id_of_def [of "readable b"]
        using lb True by (intro ReadLe16_le16) simp
      have rdb: "rb_inv (OnRead (ucast (of_nat ?n :: u16)) b)"
          "readable (OnRead (ucast (of_nat ?n :: u16)) b) = []"
        using OnRead_inv [OF b(1), of "ucast (of_nat ?n :: u16)"] lb by simp_all
      have "CompleteBody data off s = Inr (True, off + (?n - length ?r),
              OnPacket (packet_id_of ?bs) (subspan 4 (?n - 4) ?bs) s
                \<lparr>recv_buffer := OnRead (ucast (of_nat ?n :: u16)) b\<rparr>)"
        using False True rd nd app szb cp pay rid
        by (simp add: CompleteBody_def Let_def ValidatePacketSize_le16 OnPacket_def)
      with completes_packet [OF _ _ rdb(1) _ rdb(2), of ?bs] False True bs b(2) show ?thesis by simp
    qed
  qed
qed

lemma CompleteBufferedPacket_completes:
  assumes "ps_inv s" "off \<le> length data"
  shows "completes (residue s @ drop off data)
           (off + (le16 (residue s @ drop off data) - length (residue s))) s
           (CompleteBufferedPacket data off s)"
proof -
  let ?r = "residue s" and ?bs = "residue s @ drop off data"
  have inv: "rb_inv (recv_buffer s)" "capacity (recv_buffer s) = 65536"
    and inc: "length ?r < 4 \<or> (4 \<le> le16 ?r \<and> length ?r < le16 ?r)"
    using assms(1) by (simp_all add: ps_inv_def frames_incomplete_iff)
  have hdr: "ReadableSize (recv_buffer s) < kHeaderSize \<longleftrightarrow> length ?r < 4"
    using inv by (simp add: word_less_nat_alt unat_ReadableSize kHeaderSize_def)
  show ?thesis
  proof (cases "length ?r < 4")
    case False
    with inv inc hdr assms(2) CompleteBody_completes [of s off data] show ?thesis
      by (simp add: CompleteBufferedPacket_def le16_append)
  next
    case True
    let ?copied = "min (4 - length ?r) (length data - off)"
    have nd: "unat (kHeaderSize - ReadableSize (recv_buffer s)) = 4 - length ?r"
      using True inv by (subst unat_u32_minus) (simp_all add: unat_ReadableSize kHeaderSize_def)
    have "length ?r + length (subspan off ?copied data) \<le> 65536"
      using True by simp
    with inv obtain b where
      app: "AppendToRecvBuffer (subspan off ?copied data) s = Inr (True, s\<lparr>recv_buffer := b\<rparr>)"
      and b: "rb_inv b" "capacity b = 65536" "readable b = ?r @ subspan off ?copied data"
      by (rule AppendToRecvBuffer_fits)
    have lenb: "length (readable b) = min 4 (length ?bs)"
      using b(3) True by simp
    have szb: "ReadableSize b < kHeaderSize \<longleftrightarrow> length ?bs < 4"
      using lenb b(1) by (auto simp: word_less_nat_alt unat_ReadableSize kHeaderSize_def)
    show ?thesis
    proof (cases "length ?bs < 4")
      case short: True
      then have "?copied = length data - off" by simp
      then have "readable b = ?bs"
        using b(3) by (simp add: subspan_def)
      with short True hdr nd app b szb show ?thesis
        by (auto simp: completes_def Let_def CompleteBufferedPacket_def)
    next
      case False
      then have cp: "?copied = 4 - length ?r" by simp
      let ?s1 = "s\<lparr>recv_buffer := b\<rparr>" and ?off1 = "off + (4 - length ?r)"
      have off1: "?off1 \<le> length data" and l4: "length (readable b) = 4"
        using False assms(2) lenb by simp_all
      have bs1: "residue ?s1 @ drop ?off1 data = ?bs"
        using b(3) by (simp add: cp subspan_def take_drop_split)
      have n1: "le16 (readable b) = le16 ?bs"
        using l4 by (simp add: le16_append flip: bs1)
      have "completes ?bs (?off1 + (le16 (readable b) - 4)) ?s1 (CompleteBody data ?off1 ?s1)"
        using CompleteBody_completes [of ?s1 ?off1 data] b(1,2) l4 off1 bs1 by simp
      then have c1: "completes ?bs (off + (le16 ?bs - length ?r)) s (CompleteBody data ?off1 ?s1)"
        using True by (simp add: n1) (subst completes_offset, auto)
      have "CompleteBufferedPacket data off s = CompleteBody data ?off1 ?s1"
        using True False hdr nd app szb cp
        by (simp add: CompleteBufferedPacket_def Let_def)
      with c1 show ?thesis by simp
    qed
  qed
qed

text \<open>
  The relation between the stream seen since the connection opened and the session: the packets
  handed over are those of the reference decoder, and either the rest waits in the buffer, or the
  stream is malformed and the session has been told to disconnect.
\<close>

definition delivered :: "byte list \<Rightarrow> PacketSession \<Rightarrow> bool" where
  "delivered seen s \<longleftrightarrow>
     packets s = fst (frames seen)
   \<and> (case snd (frames seen) of
        Some r \<Rightarrow> ps_inv s \<and> residue s = r \<and> disconnects s = 0
      | None \<Rightarrow> disconnects s = 1)"

definition decodes :: "byte list \<Rightarrow> PacketSession \<Rightarrow> PacketSession \<Rightarrow> bool" where
  "decodes bs s s' \<longleftrightarrow>
     packets s' = packets s @ fst (frames bs)
   \<and> (case snd (frames bs) of
        Some r \<Rightarrow> ps_inv s' \<and> residue s' = r \<and> disconnects s' = disconnects s
      | None \<Rightarrow> disconnects s' = Suc (disconnects s))"

lemma frames_rest_incomplete: "snd (frames bs) = Some r \<Longrightarrow> frames r = ([], Some r)"
proof (induction bs rule: frames.induct)
  case (1 bs)
  show ?case
  proof (cases "4 \<le> length bs \<and> 4 \<le> le16 bs \<and> le16 bs \<le> length bs")
    case True
    with "1.prems" have "snd (frames (drop (le16 bs) bs)) = Some r"
      by (simp add: frames_packet)
    with True show ?thesis by (intro "1.IH") auto
  next
    case False
    with "1.prems" have "r = bs \<and> (length bs < 4 \<or> 4 \<le> le16 bs)"
      by (subst (asm) frames.simps) (auto split: if_splits)
    with False show ?thesis by (auto simp: frames_incomplete_iff not_le)
  qed
qed

lemma ps_inv_intro:
  "rb_inv b \<Longrightarrow> capacity b = 65536 \<Longrightarrow> frames (readable b) = ([], Some (readable b))
     \<Longrightarrow> ps_inv (s\<lparr>recv_buffer := b\<rparr>)"
  by (simp add: ps_inv_def)

lemma AppendToRecvBuffer_rest:
  assumes "ps_inv s" "residue s = []" "frames d = ([], Some d)"
  shows "\<exists>s'. AppendToRecvBuffer d s = Inr (True, s') \<and> decodes d s s'"
proof -
  have "rb_inv (recv_buffer s)" "capacity (recv_buffer s) = 65536"
      "length (residue s) + length d \<le> 65536"
    using assms le16_lt [of d] by (auto simp: ps_inv_def frames_incomplete_iff)
  then obtain b where "AppendToRecvBuffer d s = Inr (True, s\<lparr>recv_buffer := b\<rparr>)"
      "rb_inv b" "capacity b = 65536" "readable b = residue s @ d"
    by (rule AppendToRecvBuffer_fits)
  with assms show ?thesis
    by (intro exI [of _ "s\<lparr>recv_buffer := b\<rparr>"]) (simp add: decodes_def ps_inv_intro)
qed

lemma OnRecv_loop_decodes:
  assumes "ps_inv s" "off \<le> length data"
  shows "\<exists>fl s'. OnRecv_loop data off s = Inr (fl, s') \<and> decodes (residue s @ drop off data) s s'"
  using assms
proof (induction data off s rule: OnRecv_loop.induct)
  case (1 data off s)
  let ?bs = "residue s @ drop off data"
  have inv: "rb_inv (recv_buffer s)" "capacity (recv_buffer s) = 65536"
      "frames (residue s) = ([], Some (residue s))"
    using "1.prems" by (simp_all add: ps_inv_def)
  consider "off = length data" | "off < length data" "residue s \<noteq> []"
    | "off < length data" "residue s = []"
    using "1.prems" by linarith
  then show ?case
  proof cases
    case 1
    with inv "1.prems" show ?thesis
      by (subst OnRecv_loop.simps) (auto simp: decodes_def)
  next
    case 2
    from 2 inv have ne: "\<not> IsEmpty (recv_buffer s)" by (simp add: IsEmpty_iff)
    have c: "completes ?bs (off + (le16 ?bs - length (residue s))) s
        (CompleteBufferedPacket data off s)"
      using "1.prems" by (rule CompleteBufferedPacket_completes)
    consider (bad) "4 \<le> length ?bs" "le16 ?bs < 4"
      | (part) "length ?bs < 4 \<or> (4 \<le> le16 ?bs \<and> length ?bs < le16 ?bs)"
      | (full) "4 \<le> le16 ?bs" "le16 ?bs \<le> length ?bs"
      by linarith
    then show ?thesis
    proof cases
      case bad
      then obtain off' s' where "CompleteBufferedPacket data off s = Inr (False, off', s')"
          "packets s' = packets s" "disconnects s' = Suc (disconnects s)"
        using c by (auto simp: completes_def Let_def)
      with bad 2 ne show ?thesis
        by (auto simp: OnRecv_loop.simps [of data off s] decodes_def frames_bad)
    next
      case part
      then obtain off' b where
        cb: "CompleteBufferedPacket data off s = Inr (True, off', s\<lparr>recv_buffer := b\<rparr>)"
        and b: "rb_inv b" "capacity b = 65536" "readable b = ?bs"
        using c by (auto simp: completes_def Let_def split: if_splits)
      have fr: "frames ?bs = ([], Some ?bs)"
        using part by (simp add: frames_incomplete_iff)
      have "\<not> IsEmpty b" using b 2 by (simp add: IsEmpty_iff)
      with cb ne 2 have "OnRecv_loop data off s = Inr (True, s\<lparr>recv_buffer := b\<rparr>)"
        by (simp add: OnRecv_loop.simps [of data off s])
      with b fr show ?thesis by (auto simp: decodes_def ps_inv_intro)
    next
      case full
      then obtain b where
        cb: "CompleteBufferedPacket data off s = Inr (True, off + (le16 ?bs - length (residue s)),
               OnPacket (packet_id_of ?bs) (subspan 4 (le16 ?bs - 4) ?bs) s\<lparr>recv_buffer := b\<rparr>)"
          (is "_ = Inr (True, ?off', ?s')")
        and b: "rb_inv b" "capacity b = 65536" "readable b = []"
        using c by (auto simp: completes_def Let_def)
      have le: "length (residue s) \<le> le16 ?bs"
        using full inv(3) by (cases "length (residue s) < 4")
          (auto simp: frames_incomplete_iff le16_append)
      have "ps_inv ?s'" using b by (intro ps_inv_intro) (simp_all add: frames_short)
      moreover have "?off' \<le> length data" using full 2 le by simp
      moreover have em: "IsEmpty (recv_buffer ?s')" using b by (simp add: IsEmpty_iff)
      ultimately obtain fl s' where
        ih: "OnRecv_loop data ?off' ?s' = Inr (fl, s')" "decodes (residue ?s' @ drop ?off' data) ?s' s'"
        using "1.IH"(1) [OF 2(1) ne cb] by blast
      have "drop ?off' data = drop (le16 ?bs) ?bs"
        using le by (simp add: add.commute)
      with ih b full have "decodes ?bs s s'"
        by (auto simp: decodes_def frames_packet [of ?bs] OnPacket_def split: option.splits)
      moreover have "OnRecv_loop data off s = Inr (fl, s')"
        using 2 ne cb em ih by (simp add: OnRecv_loop.simps [of data off s])
      ultimately show ?thesis by blast
    qed
  next
    case 3
    let ?d = "drop off data"
    from 3 inv have em: "IsEmpty (recv_buffer s)" by (simp add: IsEmpty_iff)
    have sub: "subspan off (length data - off) data = ?d" by (simp add: subspan_def)
    show ?thesis
    proof (cases "length ?d < 4")
      case True
      with AppendToRecvBuffer_rest [OF "1.prems"(1) 3(2), of ?d] 3 em sub show ?thesis
        by (auto simp: OnRecv_loop.simps [of data off s] kHeaderSize_def frames_short)
    next
      case False
      then have l4: "4 \<le> length ?d" by simp
      have rd: "ReadLe16 ?d = Inr (of_nat (le16 ?d))" using l4 by (intro ReadLe16_le16) simp
      have rid: "ReadLe16 (drop (off + 2) data) = Inr (packet_id_of ?d)"
        using ReadLe16_le16 [of "drop 2 ?d"] l4 by (simp add: packet_id_of_def add.commute)
      consider (bad) "le16 ?d < 4" | (part) "4 \<le> le16 ?d" "length ?d < le16 ?d"
        | (full) "4 \<le> le16 ?d" "le16 ?d \<le> length ?d"
        by linarith
      then show ?thesis
      proof cases
        case bad
        with 3 em rd l4 show ?thesis
          by (auto simp: OnRecv_loop.simps [of data off s] kHeaderSize_def ValidatePacketSize_le16
              decodes_def frames_bad PacketSession_Disconnect_def)
      next
        case part
        with AppendToRecvBuffer_rest [OF "1.prems"(1) 3(2), of ?d] l4 3 em sub rd show ?thesis
          by (auto simp: OnRecv_loop.simps [of data off s] kHeaderSize_def ValidatePacketSize_le16
              frames_partial)
      next
        case full
        let ?s' = "OnPacket (packet_id_of ?d) (subspan 4 (le16 ?d - 4) ?d) s"
        have pay: "packet_payload ?d (of_nat (le16 ?d)) = Inr (subspan 4 (le16 ?d - 4) ?d)"
          using full by (rule packet_payload_le16)
        have vp: "ValidatePacketSize (of_nat (le16 ?d)) s = (True, s)"
          using full by (simp add: ValidatePacketSize_le16)
        have step: "OnRecv_loop data off s = OnRecv_loop data (off + le16 ?d) ?s'"
          using 3 em rd rid pay l4 full
          by (simp add: OnRecv_loop.simps [of data off s] kHeaderSize_def ValidatePacketSize_le16)
        have "ps_inv ?s'" "off + le16 ?d \<le> length data"
          using "1.prems" full 3 by (simp_all add: ps_inv_def OnPacket_def)
        then obtain fl s' where ih: "OnRecv_loop data (off + le16 ?d) ?s' = Inr (fl, s')"
            "decodes (residue ?s' @ drop (off + le16 ?d) data) ?s' s'"
          using "1.IH"(2) [OF 3(1) _ refl _ rd refl vp [symmetric] _ _ rid pay] em full l4
          by (simp add: kHeaderSize_def) blast
        have "residue ?s' = []" using 3 by (simp add: OnPacket_def)
        with ih 3 full have "decodes ?bs s s'"
          by (auto simp: decodes_def frames_packet [of ?d] OnPacket_def add.commute
              split: option.splits)
        with step ih show ?thesis by auto
      qed
    qed
  qed
qed

lemma OnRecv_decodes:
  assumes "ps_inv s"
  shows "\<exists>s'. OnRecv data s = Inr s' \<and> decodes (residue s @ data) s s'"
proof -
  from OnRecv_loop_decodes [OF assms, of 0 data] obtain fl s1 where
    loop: "OnRecv_loop data 0 s = Inr (fl, s1)" "decodes (residue s @ data) s s1"
    by auto
  let ?b = "recv_buffer s1"
  let ?c = "if fl \<and> ShouldCompact ?b then s1\<lparr>recv_buffer := Compact ?b\<rparr> else s1"
  have "OnRecv data s = Inr ?c"
    using loop(1) by (simp add: OnRecv_def split: bool.split)
  moreover have "decodes (residue s @ data) s ?c"
    using loop(2)
    by (auto simp: decodes_def ps_inv_def rb_inv_Compact readable_Compact split: option.splits)
  ultimately show ?thesis by blast
qed

text \<open>
  The receive path as the base session drives it: one call per chunk, none once the session has
  been told to disconnect (\<open>Session::OnRecv\<close> checks \<open>CanUseOnOwner\<close> first).
\<close>

definition recv_chunk :: "fault + PacketSession \<Rightarrow> byte list \<Rightarrow> fault + PacketSession" where
  "recv_chunk st chunk =
     (case st of
        Inl f \<Rightarrow> Inl f
      | Inr s \<Rightarrow> if disconnects s = 0 then OnRecv chunk s else Inr s)"

definition delivered_ok :: "byte list \<Rightarrow> fault + PacketSession \<Rightarrow> bool" where
  "delivered_ok seen st \<longleftrightarrow> (\<exists>s. st = Inr s \<and> delivered seen s)"

lemma recv_chunk_delivered:
  assumes "delivered_ok seen st"
  shows "delivered_ok (seen @ chunk) (recv_chunk st chunk)"
proof -
  obtain s where st: "st = Inr s" and del: "delivered seen s"
    using assms by (auto simp: delivered_ok_def)
  show ?thesis
  proof (cases "snd (frames seen)")
    case None
    with del have "recv_chunk st chunk = Inr s" "delivered (seen @ chunk) s"
      by (simp_all add: st recv_chunk_def delivered_def frames_append [of seen])
    then show ?thesis by (simp add: delivered_ok_def)
  next
    case (Some r)
    with del have s: "ps_inv s" "residue s = r" "disconnects s = 0" "packets s = fst (frames seen)"
      by (simp_all add: delivered_def)
    from OnRecv_decodes [OF s(1), of chunk] obtain s' where
      "OnRecv chunk s = Inr s'" and dec: "decodes (r @ chunk) s s'"
      by (auto simp: s(2))
    then have "recv_chunk st chunk = Inr s'"
      by (simp add: st recv_chunk_def s(3))
    moreover have "delivered (seen @ chunk) s'"
      using dec Some s
      by (auto simp: delivered_def decodes_def frames_append [of seen] split: option.splits)
    ultimately show ?thesis by (simp add: delivered_ok_def)
  qed
qed

interpretation framing: chunk_transducer recv_chunk delivered_ok
  by unfold_locales (rule recv_chunk_delivered)

lemma delivered_new: "delivered_ok [] (Inr PacketSession_new)"
  by (simp add: delivered_ok_def delivered_def PacketSession_new_def ps_inv_def frames_short)
    (simp add: RecvBuffer_new_def)

section \<open>The encoder\<close>

text \<open>
  \<open>packet_bytes\<close> is the wire image of a packet, the reference for \<open>PacketBuilder::Build\<close>;
  \<open>None\<close> for one that is too large. \<open>Build\<close> itself allocates from the pool. Serialisation is
  protobuf's: \<open>payload\<close> is the serialised message, \<open>ser_ok\<close> the result of
  \<open>SerializeToArray\<close>. When it is false the buffer dies on return, which releases it.
\<close>

definition packet_bytes :: "u16 \<Rightarrow> byte list \<Rightarrow> byte list option" where
  "packet_bytes msg_id payload =
     (let payload_size = (of_nat (length payload) :: u32);
          total_size = kHeaderSize + payload_size
      in if total_size > kMaxPacketSize then None
         else Some (le16_bytes (ucast total_size) @ le16_bytes msg_id @ payload))"

definition Build ::
    "bool \<Rightarrow> u16 \<Rightarrow> byte list \<Rightarrow> BufferPool \<Rightarrow> fault + (SendBuffer option \<times> BufferPool)" where
  "Build ser_ok msg_id payload pool =
     (let payload_size = (of_nat (length payload) :: u32);
          total_size = kHeaderSize + payload_size
      in if total_size > kMaxPacketSize then Inr (None, pool)
         else case Allocate total_size pool of
           (Inl e, pool1) \<Rightarrow> Inr (None, pool1)
         | (Inr sb, pool1) \<Rightarrow>
             (let header = le16_bytes (ucast total_size) @ le16_bytes msg_id
              in if payload_size \<noteq> 0 \<and> \<not> ser_ok
                 then (case copy_to_writable sb header pool1 of
                         Inl f \<Rightarrow> Inl f
                       | Inr pool2 \<Rightarrow>
                           (case OnRelease (owner sb) pool2 of
                              Inl f \<Rightarrow> Inl f
                            | Inr pool3 \<Rightarrow> Inr (None, pool3)))
                 else (case copy_to_writable sb (header @ payload) pool1 of
                         Inl f \<Rightarrow> Inl f
                       | Inr pool2 \<Rightarrow> Inr (Some (Commit total_size sb), pool2))))"

lemma le16_le16_bytes: "le16 (le16_bytes v @ bs) = unat v"
proof -
  have "unat (ucast v :: byte) = unat v mod 256"
    by (simp add: unsigned_ucast_eq take_bit_eq_mod)
  moreover have "unat (ucast (drop_bit 8 v) :: byte) = unat v div 256"
    using unat_u16_lt [of v]
    by (simp add: unsigned_ucast_eq unsigned_drop_bit_eq take_bit_eq_mod drop_bit_eq_div
        less_mult_imp_div_less unat_div)
  ultimately show ?thesis by (simp add: le16_bytes_def le16_def)
qed

lemma length_le16_bytes [simp]: "length (le16_bytes v) = 2"
  by (simp add: le16_bytes_def)

lemma packet_bytes_Some:
  assumes "length payload < 2 ^ 32 - 4"
  shows "packet_bytes msg_id payload =
     (if length payload \<le> 65531
      then Some (le16_bytes (of_nat (length payload + 4)) @ le16_bytes msg_id @ payload) else None)"
proof -
  have "unat (kHeaderSize + of_nat (length payload)) = length payload + 4"
    using assms by (simp add: unat_u32_plus kHeaderSize_def unat_u32_of_nat)
  moreover have "(ucast (kHeaderSize + of_nat (length payload)) :: u16) = of_nat (length payload + 4)"
    using calculation by (metis of_nat_unat)
  ultimately show ?thesis
    by (auto simp: packet_bytes_def Let_def kMaxPacketSize_def word_less_nat_alt)
qed

lemma frames_packet_bytes:
  assumes "length payload \<le> 65531"
  shows "frames (the (packet_bytes msg_id payload) @ rest) =
           ((msg_id, payload) # fst (frames rest), snd (frames rest))"
proof -
  let ?pkt = "le16_bytes (of_nat (length payload + 4)) @ le16_bytes msg_id @ payload"
  have b: "packet_bytes msg_id payload = Some ?pkt"
    using assms by (simp add: packet_bytes_Some)
  have n: "le16 (?pkt @ rest) = length payload + 4"
    using assms by (simp add: le16_le16_bytes unat_of_nat take_bit_nat_eq_self del: of_nat_add)
  have i: "packet_id_of (?pkt @ rest) = msg_id"
    by (simp add: packet_id_of_def le16_le16_bytes del: of_nat_add)
  have "frames (?pkt @ rest) = ((packet_id_of (?pkt @ rest), subspan 4 (length payload) (?pkt @ rest))
      # fst (frames (drop (length payload + 4) (?pkt @ rest))),
      snd (frames (drop (length payload + 4) (?pkt @ rest))))"
    using n by (subst frames_packet) simp_all
  then show ?thesis
    using i by (simp add: b subspan_def)
qed

lemma frames_packet_bytes_all:
  "\<forall>(i, p) \<in> set msgs. length p \<le> 65531 \<Longrightarrow>
     frames (concat (map (\<lambda>(i, p). the (packet_bytes i p)) msgs)) = (msgs, Some [])"
  by (induction msgs) (auto simp: frames_short frames_packet_bytes)

section \<open>Properties\<close>

lemma Open_result: "Open n c = (Some sb, c') \<Longrightarrow> alloc_size sb = n \<and> write_size sb = 0"
  by (auto simp: Open_def split: if_splits)

lemma Allocate_result: "Allocate n p = (Inr sb, p') \<Longrightarrow> alloc_size sb = n \<and> write_size sb = 0"
  using Open_result by (fastforce simp: Allocate_def open_back_def Let_def
      split: option.splits if_splits prod.splits)

lemma Data_empty:
  assumes "pool_inv (p, L)" "sb \<in> set L" "write_size sb = 0"
  shows "Data p sb = Inr []"
proof -
  obtain c where "find_chunk (owner sb) p = Some c" using live_chunk [OF assms(1,2)] by blast
  then show ?thesis using assms(3) by (simp add: Data_def)
qed

lemma fill_fresh:
  assumes inv: "pool_inv (p, L @ [sb])" and w: "write_size sb = 0" and len: "length xs \<le> unat (alloc_size sb)"
  shows "\<exists>p'. copy_to_writable sb xs p = Inr p' \<and>
     pool_inv (p', L @ [Commit (of_nat (length xs)) sb]) \<and>
     Data p' (Commit (of_nat (length xs)) sb) = Inr xs"
proof -
  have k: "length L < length (L @ [sb])" and nth: "(L @ [sb]) ! length L = sb" by simp_all
  obtain c where "find_chunk (owner sb) p = Some c"
    using live_chunk [OF inv, of sb] by auto
  then obtain p' where cp: "copy_to_writable sb xs p = Inr p'"
    using w len by (simp add: copy_to_writable_def Writable_def)
  have "Data p sb = Inr []" using Data_empty [OF inv _ w] by simp
  then show ?thesis
    using cp copy_to_writable_inv [OF inv k] copy_to_writable_own [OF inv k] by (simp add: nth)
qed

lemma drop_nth_last [simp]: "drop_nth (length L) (L @ [x]) = L"
  by (simp add: drop_nth_def)

lemma fill_and_release:
  assumes inv: "pool_inv (p, L @ [sb])" and w: "write_size sb = 0" and len: "length xs \<le> unat (alloc_size sb)"
  shows "\<exists>p2 p3. copy_to_writable sb xs p = Inr p2 \<and> OnRelease (owner sb) p2 = Inr p3 \<and> pool_inv (p3, L)"
proof -
  obtain p2 where cp: "copy_to_writable sb xs p = Inr p2"
      and inv2: "pool_inv (p2, L @ [Commit (of_nat (length xs)) sb])"
    using fill_fresh [OF assms] by blast
  from OnRelease_inv [OF inv2, of "length L"] cp show ?thesis by (auto simp: Commit_def)
qed

text \<open>What \<open>Build\<close> returns, in terms of the wire image and of the allocation.\<close>

definition built ::
    "bool \<Rightarrow> u16 \<Rightarrow> byte list \<Rightarrow> BufferPool \<Rightarrow> SendBuffer list \<Rightarrow> SendBuffer option \<Rightarrow> BufferPool \<Rightarrow> bool" where
  "built ser_ok msg_id payload pool L r pool' \<longleftrightarrow>
     (case r of
        None \<Rightarrow> pool_inv (pool', L) \<and>
          (packet_bytes msg_id payload = None \<or> payload \<noteq> [] \<and> \<not> ser_ok \<or>
           (\<exists>e. fst (Allocate (of_nat (length payload + 4)) pool) = Inl e))
      | Some sb \<Rightarrow> pool_inv (pool', L @ [sb]) \<and>
          (\<exists>bs. packet_bytes msg_id payload = Some bs \<and> Data pool' sb = Inr bs))"

lemma Build_allocated:
  assumes inv: "pool_inv (pool1, L @ [sb])" and small: "length payload \<le> 65531"
    and al: "Allocate (of_nat (length payload + 4)) pool = (Inr sb, pool1)"
  shows "\<exists>r pool'. Build ser_ok msg_id payload pool = Inr (r, pool') \<and>
     built ser_ok msg_id payload pool L r pool'"
proof -
  let ?hdr = "le16_bytes (of_nat (length payload + 4)) @ le16_bytes msg_id"
  have tot: "kHeaderSize + of_nat (length payload) = (of_nat (length payload + 4) :: u32)"
    by (simp add: kHeaderSize_def)
  have n: "unat (of_nat (length payload + 4) :: u32) = length payload + 4"
    using small by (simp add: unat_u32_of_nat del: of_nat_add)
  then have small32: "\<not> (of_nat (length payload + 4) :: u32) > kMaxPacketSize"
    using small by (simp add: kMaxPacketSize_def word_less_nat_alt del: of_nat_add)
  have tot16: "(ucast (of_nat (length payload + 4) :: u32) :: u16) = of_nat (length payload + 4)"
    using n by (metis of_nat_unat)
  have zero: "(of_nat (length payload) :: u32) = 0 \<longleftrightarrow> payload = []"
    using small unat_u32_of_nat [of "length payload"] by auto
  have w: "write_size sb = 0" and sz: "unat (alloc_size sb) = length payload + 4"
    using Allocate_result [OF al] n by (simp_all del: of_nat_add)
  have pb: "packet_bytes msg_id payload = Some (?hdr @ payload)"
    using small by (simp add: packet_bytes_Some del: of_nat_add)
  show ?thesis
  proof (cases "payload \<noteq> [] \<and> \<not> ser_ok")
    case True
    obtain p2 p3 where "copy_to_writable sb ?hdr pool1 = Inr p2" "OnRelease (owner sb) p2 = Inr p3"
        "pool_inv (p3, L)"
      using fill_and_release [OF inv w, of ?hdr] sz by auto
    then show ?thesis using True small32 al zero
      by (simp add: Build_def Let_def tot tot16 built_def del: of_nat_add)
  next
    case False
    obtain p2 where "copy_to_writable sb (?hdr @ payload) pool1 = Inr p2"
        "pool_inv (p2, L @ [Commit (of_nat (length (?hdr @ payload))) sb])"
        "Data p2 (Commit (of_nat (length (?hdr @ payload))) sb) = Inr (?hdr @ payload)"
      using fill_fresh [OF inv w, of "?hdr @ payload"] sz by auto
    moreover have "length (?hdr @ payload) = length payload + 4" by simp
    ultimately show ?thesis using False small32 al zero pb
      by (auto simp: Build_def Let_def tot tot16 built_def simp del: of_nat_add length_append)
  qed
qed

text \<open>
  Building a packet on a pool in good order never faults. It returns no buffer for a payload
  over 65531 bytes, when serialisation fails, or when the pool has no room, and keeps the pool in
  order; otherwise the buffer it returns holds exactly the wire image of the packet.
\<close>

theorem Build_correct:
  assumes inv: "pool_inv (pool, L)" and room: "unat (chunk_size pool) + 65535 < 2 ^ 32"
    and len: "length payload < 2 ^ 32 - 4"
  shows "\<exists>r pool'. Build ser_ok msg_id payload pool = Inr (r, pool') \<and>
     built ser_ok msg_id payload pool L r pool'"
proof (cases "length payload \<le> 65531")
  case True
  let ?n = "of_nat (length payload + 4) :: u32"
  have "unat ?n + unat (chunk_size pool) < 2 ^ 32"
    using True room by (simp add: unat_u32_of_nat del: of_nat_add)
  note inv1 = Allocate_inv [OF inv this prod.collapse [symmetric]]
  show ?thesis
  proof (cases "fst (Allocate ?n pool)")
    case (Inr sb)
    then show ?thesis
      using Build_allocated [OF _ True, of "snd (Allocate ?n pool)" L sb] inv1
      by (metis prod.collapse sum.simps(6))
  next
    case (Inl e)
    then obtain pool1 where al: "Allocate ?n pool = (Inl e, pool1)"
      by (metis prod.collapse)
    have "\<not> ?n > kMaxPacketSize"
      using True by (simp add: kMaxPacketSize_def word_less_nat_alt unat_u32_of_nat del: of_nat_add)
    then have "Build ser_ok msg_id payload pool = Inr (None, pool1)"
      using al by (simp add: Build_def Let_def kHeaderSize_def add.commute)
    then show ?thesis using inv1 al by (simp add: built_def del: of_nat_add)
  qed
next
  case False
  then have "packet_bytes msg_id payload = None"
    using packet_bytes_Some [OF len] by simp
  moreover from this have "Build ser_ok msg_id payload pool = Inr (None, pool)"
    by (auto simp: packet_bytes_def Build_def Let_def split: if_splits)
  ultimately show ?thesis using inv by (simp add: built_def)
qed

theorem Build_correct_witness:
  "\<exists>r pool'. Build True 7 [1, 2, 3] (BufferPool_new 65536 4) = Inr (r, pool') \<and>
     built True 7 [1, 2, 3] (BufferPool_new 65536 4) [] r pool'"
  by (rule Build_correct [OF pool_inv_new]) (simp_all add: BufferPool_new_def)

text \<open>
  C26: Packet framing does not depend on how the kernel cuts the stream. From a new session,
  whatever the chunks, no receive reads or writes out of bounds, the packets handed to the
  application are those of the reference decoder on the concatenated bytes, in order, the bytes of
  an incomplete packet are kept, and the connection is dropped exactly when the stream is
  malformed.
\<close>

theorem OnRecv_chunks:
  "\<exists>s. foldl recv_chunk (Inr PacketSession_new) chunks = Inr s \<and>
       packets s = fst (frames (concat chunks)) \<and>
       (case snd (frames (concat chunks)) of
          Some r \<Rightarrow> readable (recv_buffer s) = r \<and> disconnects s = 0
        | None \<Rightarrow> disconnects s = 1)"
proof -
  have "delivered_ok ([] @ concat chunks) (foldl recv_chunk (Inr PacketSession_new) chunks)"
    by (rule framing.feed_all_rel [OF delivered_new])
  then show ?thesis
    by (auto simp: delivered_ok_def delivered_def split: option.splits)
qed



end
