(* ===== verification/Send_Queue.thy ===== *)
theory Send_Queue
  imports Send_Buffer
begin

text \<open>
  The per-session send queue of \<^verbatim>\<open>include/iouring_runtime/core/SendQueue.h\<close>. A committed
  buffer no longer changes, so a \<open>SendBufferRef\<close> is the bytes it holds, \<open>None\<close> the null
  pointer the queue also accepts. \<open>size_t\<close> counters are natural numbers: with a 32-bit limit on
  the entries and 32-bit buffer sizes they stay below \<open>2 ^ 64\<close>, which \<open>sq_inv_bytes_bound\<close> shows.
\<close>

type_synonym SendBufferRef = "byte list option"

definition ref_size :: "SendBufferRef \<Rightarrow> nat" where
  "ref_size r = (case r of None \<Rightarrow> 0 | Some bs \<Rightarrow> length bs)"

definition ref_bytes :: "SendBufferRef \<Rightarrow> byte list" where
  "ref_bytes r = (case r of None \<Rightarrow> [] | Some bs \<Rightarrow> bs)"

section \<open>State and operations\<close>

record PushResult =
  needs_register :: bool
  overflowed :: bool
  push_depth :: nat
  push_bytes :: nat

record Stats =
  current_depth :: nat
  stat_bytes :: nat
  stat_peak_depth :: nat
  stat_peak_bytes :: nat
  stat_overflows :: u64

record SendQueue =
  pending :: "SendBufferRef list"
  registered :: bool
  max_pending :: u32
  pending_bytes :: nat
  peak_depth :: nat
  peak_pending_bytes :: nat
  overflow_count :: u64

definition SendQueue_new :: "u32 \<Rightarrow> SendQueue" where
  "SendQueue_new maxp =
     \<lparr>pending = [], registered = False, max_pending = maxp, pending_bytes = 0, peak_depth = 0,
      peak_pending_bytes = 0, overflow_count = 0\<rparr>"

definition Push :: "SendBufferRef \<Rightarrow> SendQueue \<Rightarrow> PushResult \<times> SendQueue" where
  "Push buf q =
     (if length (pending q) \<ge> unat (max_pending q)
      then (\<lparr>needs_register = False, overflowed = True, push_depth = length (pending q),
             push_bytes = pending_bytes q\<rparr>, q\<lparr>overflow_count := overflow_count q + 1\<rparr>)
      else let first = \<not> registered q;
               bytes = pending_bytes q + ref_size buf;
               items = pending q @ [buf]
           in (\<lparr>needs_register = first, overflowed = False, push_depth = length items,
                push_bytes = bytes\<rparr>,
               q\<lparr>pending_bytes := bytes, pending := items,
                 peak_depth := (if length items > peak_depth q then length items else peak_depth q),
                 peak_pending_bytes :=
                   (if bytes > peak_pending_bytes q then bytes else peak_pending_bytes q),
                 registered := True\<rparr>))"

definition Drain :: "nat \<Rightarrow> SendQueue \<Rightarrow> SendBufferRef list \<times> SendQueue" where
  "Drain max_count q =
     (if max_count = 0 \<or> max_count \<ge> length (pending q)
      then (pending q, q\<lparr>pending := [], pending_bytes := 0\<rparr>)
      else let out = take max_count (pending q)
           in (out, q\<lparr>pending_bytes := foldl (\<lambda>n r. n - ref_size r) (pending_bytes q) out,
                      pending := drop max_count (pending q)\<rparr>))"

definition DrainInto :: "nat \<Rightarrow> SendQueue \<Rightarrow> SendBufferRef list \<times> SendQueue" where
  "DrainInto max_count q =
     (if pending q = [] then ([], q)
      else if max_count = 0 \<or> max_count \<ge> length (pending q)
      then (pending q, q\<lparr>pending := [], pending_bytes := 0\<rparr>)
      else let out = take max_count (pending q)
           in (out, q\<lparr>pending_bytes := foldl (\<lambda>n r. n - ref_size r) (pending_bytes q) out,
                      pending := drop max_count (pending q)\<rparr>))"

definition MarkSent :: "SendQueue \<Rightarrow> SendQueue" where
  "MarkSent q = (if pending q = [] then q\<lparr>registered := False\<rparr> else q)"

definition Snapshot :: "SendQueue \<Rightarrow> Stats" where
  "Snapshot q =
     \<lparr>current_depth = length (pending q), stat_bytes = pending_bytes q,
      stat_peak_depth = peak_depth q, stat_peak_bytes = peak_pending_bytes q,
      stat_overflows = overflow_count q\<rparr>"

section \<open>Invariant\<close>

definition sq_inv :: "SendQueue \<Rightarrow> bool" where
  "sq_inv q \<longleftrightarrow>
     pending_bytes q = sum_list (map ref_size (pending q)) \<and>
     length (pending q) \<le> unat (max_pending q) \<and>
     length (pending q) \<le> peak_depth q \<and> pending_bytes q \<le> peak_pending_bytes q \<and>
     (pending q \<noteq> [] \<longrightarrow> registered q)"

lemma sq_inv_new [simp]: "sq_inv (SendQueue_new maxp)"
  by (simp add: sq_inv_def SendQueue_new_def)

lemma foldl_minus: "foldl (\<lambda>n r. n - f r) (m :: nat) xs = m - sum_list (map f xs)"
  by (induction xs arbitrary: m) simp_all

lemma sum_take_drop:
  fixes f :: "'a \<Rightarrow> nat"
  shows "sum_list (map f xs) - sum_list (map f (take k xs)) = sum_list (map f (drop k xs))"
proof -
  have "sum_list (map f xs) = sum_list (map f (take k xs)) + sum_list (map f (drop k xs))"
    by (metis append_take_drop_id map_append sum_list_append)
  then show ?thesis by simp
qed

lemma sum_drop_le: "sum_list (map f (drop k xs)) \<le> sum_list (map (f :: 'a \<Rightarrow> nat) xs)"
  by (metis diff_le_self sum_take_drop)

lemma Push_inv: "sq_inv q \<Longrightarrow> sq_inv (snd (Push buf q))"
  by (auto simp: sq_inv_def Push_def Let_def)

lemma DrainInto_eq: "DrainInto k q = (if pending q = [] then ([], q) else Drain k q)"
  by (simp add: DrainInto_def Drain_def)

lemma Drain_inv: "sq_inv q \<Longrightarrow> sq_inv (snd (Drain k q))"
  using sum_drop_le [of ref_size k "pending q"]
  by (auto simp: sq_inv_def Drain_def Let_def foldl_minus sum_take_drop)

lemma DrainInto_inv: "sq_inv q \<Longrightarrow> sq_inv (snd (DrainInto k q))"
  by (simp add: DrainInto_eq Drain_inv)

lemma MarkSent_inv: "sq_inv q \<Longrightarrow> sq_inv (MarkSent q)"
  by (simp add: sq_inv_def MarkSent_def)

lemma DrainInto_split: "DrainInto k q = (out, q') \<Longrightarrow> pending q = out @ pending q'"
  by (auto simp: DrainInto_def Let_def split: if_splits)

lemma DrainInto_fields:
  "DrainInto k q = (out, q') \<Longrightarrow> registered q' = registered q \<and> max_pending q' = max_pending q"
  by (auto simp: DrainInto_def Let_def split: if_splits)

lemma DrainInto_empty_iff: "DrainInto k q = (out, q') \<Longrightarrow> out = [] \<longleftrightarrow> pending q = []"
  by (auto simp: DrainInto_def Let_def split: if_splits)

lemma sum_list_bound:
  "(\<And>x. x \<in> set xs \<Longrightarrow> f x \<le> (b :: nat)) \<Longrightarrow> sum_list (map f xs) \<le> length xs * b"
proof (induction xs)
  case (Cons x xs)
  have "f x \<le> b" using Cons.prems by simp
  moreover have "sum_list (map f xs) \<le> length xs * b" using Cons by simp
  ultimately show ?case by (simp add: add_mono)
qed simp

lemma sq_inv_bytes_bound:
  assumes "sq_inv q" "\<forall>r \<in> set (pending q). ref_size r < 4294967296"
  shows "pending_bytes q < 18446744073709551616"
proof -
  have "sum_list (map ref_size (pending q)) \<le> length (pending q) * 4294967295"
    using assms(2) by (intro sum_list_bound) fastforce
  moreover have "length (pending q) < 4294967296"
    using assms(1) unat_u32_lt [of "max_pending q"] by (simp add: sq_inv_def)
  ultimately show ?thesis using assms(1) by (simp add: sq_inv_def)
qed

section \<open>The queue is a FIFO\<close>

datatype sq_op = SqPush SendBufferRef | SqDrain nat | SqMarkSent

record sq_trace =
  tr_queue :: SendQueue
  tr_accepted :: "SendBufferRef list"
  tr_drained :: "SendBufferRef list"

fun sq_step :: "sq_trace \<Rightarrow> sq_op \<Rightarrow> sq_trace" where
  "sq_step t (SqPush b) =
     (let (r, q) = Push b (tr_queue t)
      in t\<lparr>tr_queue := q, tr_accepted := tr_accepted t @ (if overflowed r then [] else [b])\<rparr>)"
| "sq_step t (SqDrain k) =
     (let (out, q) = DrainInto k (tr_queue t)
      in t\<lparr>tr_queue := q, tr_drained := tr_drained t @ out\<rparr>)"
| "sq_step t SqMarkSent = t\<lparr>tr_queue := MarkSent (tr_queue t)\<rparr>"

definition sq_trace_ok :: "sq_trace \<Rightarrow> bool" where
  "sq_trace_ok t \<longleftrightarrow> sq_inv (tr_queue t) \<and> tr_accepted t = tr_drained t @ pending (tr_queue t)"

lemma pending_Push:
  "Push b q = (r, q') \<Longrightarrow> pending q' = pending q @ (if overflowed r then [] else [b])"
  by (auto simp: Push_def Let_def split: if_splits)

lemma pending_MarkSent [simp]: "pending (MarkSent q) = pending q"
  by (simp add: MarkSent_def)

lemma sq_step_ok: "sq_trace_ok t \<Longrightarrow> sq_trace_ok (sq_step t op)"
proof (cases op)
  case (SqPush b)
  assume ok: "sq_trace_ok t"
  obtain r q where p: "Push b (tr_queue t) = (r, q)" by fastforce
  with Push_inv [of "tr_queue t" b] pending_Push [OF p] SqPush ok show ?thesis
    by (simp add: sq_trace_ok_def)
next
  case (SqDrain k)
  assume ok: "sq_trace_ok t"
  obtain out q where d: "DrainInto k (tr_queue t) = (out, q)" by fastforce
  with DrainInto_inv [of "tr_queue t" k] DrainInto_split [OF d] SqDrain ok show ?thesis
    by (simp add: sq_trace_ok_def)
qed (simp add: sq_trace_ok_def MarkSent_inv)


end
