(* ===== verification/Session_Detail.thy ===== *)
theory Session_Detail
  imports Send_Queue
begin

text \<open>
  The helpers of \<^verbatim>\<open>include/iouring_runtime/core/SessionDetail.h\<close>: what a short send leaves
  to be sent, and the classification of socket results. An \<open>iovec\<close> is the bytes it points at.
\<close>

section \<open>Short sends\<close>

fun consume_iovs :: "nat \<Rightarrow> byte list list \<Rightarrow> nat \<times> nat" where
  "consume_iovs advanced [] = (0, advanced)"
| "consume_iovs advanced (iov # iovs) =
     (if length iov \<le> advanced
      then let (consumed, rest) = consume_iovs (advanced - length iov) iovs in (Suc consumed, rest)
      else (0, advanced))"

definition AdvanceSendState ::
    "byte list list \<Rightarrow> 'b list \<Rightarrow> nat \<Rightarrow> byte list list \<times> 'b list" where
  "AdvanceSendState iovs bufs advanced =
     (let (consumed, rest) = consume_iovs advanced iovs;
          iovs1 = (if consumed > 0 then drop consumed iovs else iovs);
          bufs1 = (if consumed > 0 then drop consumed bufs else bufs)
      in if rest > 0 \<and> iovs1 \<noteq> [] then (drop rest (hd iovs1) # tl iovs1, bufs1)
         else (iovs1, bufs1))"

lemma consume_iovs_spec:
  "consume_iovs adv iovs = (c, rest) \<Longrightarrow>
     c \<le> length iovs \<and> adv = length (concat (take c iovs)) + rest \<and>
     (c < length iovs \<longrightarrow> rest < length (iovs ! c))"
proof (induction adv iovs arbitrary: c rest rule: consume_iovs.induct)
  case (2 adv iov iovs)
  show ?case
  proof (cases "length iov \<le> adv")
    case True
    obtain c' r' where r: "consume_iovs (adv - length iov) iovs = (c', r')" by fastforce
    then have "c = Suc c'" "rest = r'" using 2(2) True by auto
    with 2(1) [OF True r] True show ?thesis by auto
  next
    case False
    with 2(2) show ?thesis by auto
  qed
qed simp

lemma AdvanceSendState_bytes:
  assumes "AdvanceSendState iovs bufs adv = (iovs', bufs')"
  shows "concat iovs' = drop adv (concat iovs)"
proof -
  obtain c rest where cr: "consume_iovs adv iovs = (c, rest)" by fastforce
  note spec = consume_iovs_spec [OF cr]
  have split: "concat iovs = concat (take c iovs) @ concat (drop c iovs)"
    by (metis append_take_drop_id concat_append)
  have d: "drop adv (concat iovs) = drop rest (concat (drop c iovs))"
    using spec by (simp add: split)
  show ?thesis
  proof (cases "drop c iovs")
    case Nil
    then show ?thesis using assms cr d by (auto simp: AdvanceSendState_def split: if_splits)
  next
    case (Cons iov tl)
    then have "c < length iovs" "iovs ! c = iov"
      by (metis drop_all leI list.discI, metis nth_via_drop)
    then have "rest < length iov" using spec by simp
    moreover have "iovs' = (if rest > 0 then drop rest iov # tl else drop c iovs)"
      using assms cr Cons by (cases "c = 0") (auto simp: AdvanceSendState_def Let_def split: if_splits)
    ultimately show ?thesis using d Cons by (cases "rest = 0") simp_all
  qed
qed

lemma AdvanceSendState_lengths:
  assumes "AdvanceSendState iovs bufs adv = (iovs', bufs')" "length iovs = length bufs"
  shows "length iovs' = length bufs'"
  using assms by (cases iovs) (auto simp: AdvanceSendState_def Let_def split: prod.splits if_splits)

lemma AdvanceSendState_rest:
  assumes "AdvanceSendState iovs bufs adv = (iovs', bufs')" "adv < length (concat iovs)"
  shows "iovs' \<noteq> []"
proof
  assume "iovs' = []"
  then have "drop adv (concat iovs) = []" using AdvanceSendState_bytes [OF assms(1)] by simp
  then show False using assms(2) by simp
qed

text \<open>
  After a short send of \<open>adv\<close> bytes the scatter list that is resubmitted is exactly the bytes
  not yet sent, in order, and every remaining entry still has its buffer.
\<close>

theorem AdvanceSendState_correct:
  assumes "length iovs = length bufs" "AdvanceSendState iovs bufs adv = (iovs', bufs')"
  shows "concat iovs' = drop adv (concat iovs) \<and> length iovs' = length bufs' \<and>
         bufs' = drop (length bufs - length bufs') bufs"
proof -
  have "bufs' = drop (length bufs - length bufs') bufs"
    using assms(2) consume_iovs_spec [of adv iovs] assms(1)
    by (auto simp: AdvanceSendState_def Let_def split: prod.splits if_splits)
  then show ?thesis
    using AdvanceSendState_bytes [OF assms(2)] AdvanceSendState_lengths [OF assms(2,1)] by simp
qed

theorem AdvanceSendState_correct_witness:
  "concat [[4, 5], [6 :: byte]] = drop 3 (concat [[1, 2], [3, 4, 5], [6]]) \<and>
   length [[4, 5], [6 :: byte]] = length [''b'', ''c''] \<and>
   [''b'', ''c''] = drop (length [''a'', ''b'', ''c''] - length [''b'', ''c'']) [''a'', ''b'', ''c'']"
  by (rule AdvanceSendState_correct) (simp_all add: AdvanceSendState_def)

section \<open>Socket results\<close>

definition ECONNRESET :: int where "ECONNRESET = 104"
definition EPIPE :: int where "EPIPE = 32"
definition ENOTCONN :: int where "ENOTCONN = 107"
definition ESHUTDOWN :: int where "ESHUTDOWN = 108"
definition ENOBUFS :: int where "ENOBUFS = 105"

definition IsExpectedDisconnectResult :: "int \<Rightarrow> bool" where
  "IsExpectedDisconnectResult res =
     (if res = 0 then True
      else if res > 0 then False
      else - res \<in> {ECONNRESET, EPIPE, ENOTCONN, ESHUTDOWN})"

definition DisconnectReasonForResult :: "int \<Rightarrow> string" where
  "DisconnectReasonForResult res =
     (if res = 0 then ''PEER_CLOSE''
      else if res > 0 then ''OK''
      else if - res = ECONNRESET then ''CONNECTION_RESET''
      else if - res = EPIPE then ''BROKEN_PIPE''
      else if - res = ENOTCONN then ''NOT_CONNECTED''
      else if - res = ESHUTDOWN then ''SOCKET_SHUTDOWN''
      else ''TRANSPORT_ERROR'')"

lemma expected_reason:
  "IsExpectedDisconnectResult res \<longleftrightarrow>
     DisconnectReasonForResult res \<notin> {''OK'', ''TRANSPORT_ERROR''}"
  by (simp add: IsExpectedDisconnectResult_def DisconnectReasonForResult_def)

end
