(* ===== verification/Session_Model.thy ===== *)
theory Session_Model
  imports Session_Detail
begin

text \<open>
  The connection state machine of \<^verbatim>\<open>src/runtime/io/Session.cpp\<close> and
  \<^verbatim>\<open>src/runtime/io/SessionSend.cpp\<close>. Everything here runs on the thread of the session's ring;
  calls from other threads are posted to it (\<open>RunOnOwner\<close>).

  What the session does not decide is a parameter. \<open>env\<close> answers, for the \<open>n\<close>-th question it is
  asked, whether \<open>new (std::nothrow)\<close> succeeded, whether the ring had a free submission entry,
  whether a cross-thread post was accepted, and what the clock says. \<open>app\<close> holds the virtual
  callbacks of the derived class as functions on the session, so that a callback may call back
  into the session; its own data is the field \<open>app_state\<close>.

  Ghost fields, which no operation reads: the operations the kernel holds (\<open>inflight\<close>), the bytes
  accepted for sending and those the kernel took (\<open>accepted\<close>, \<open>wire\<close>), the bytes received and
  those handed to the callback (\<open>received\<close>, \<open>delivered\<close>), the calls to \<open>OnDisconnected\<close>
  and to \<open>SessionManager::Release\<close>, and whether a null buffer was dereferenced (\<open>faulted\<close>).
\<close>

unbundle bit_operations_syntax

section \<open>State\<close>

datatype SessionState = kOpen | kClosing | kDraining | kClosed

datatype IoOp =
    RecvOp nat
  | SendOp nat "byte list list" "SendBufferRef list"
  | DisconnectOp nat
  | CancelOp nat nat

datatype owner_task = TSend SendBufferRef | TDisconnect | TDisconnectAfterFlush | TPauseRecv | TResumeRecv

record 'a Session =
  send_queue :: SendQueue
  session_state :: SessionState
  pending_io :: nat
  pending_app_io :: nat
  session_id :: SessionId
  remote_addr :: string
  last_activity :: int
  last_backpressure_high :: int
  next_timeout_check :: int
  inactivity_timeout :: int
  timeout_check_interval :: int
  send_queue_high_watermark :: u32
  send_queue_low_watermark :: u32
  send_queue_high_bytes :: nat
  send_queue_low_bytes :: nat
  backpressure_disconnect_delay :: int
  paused_recv_byte_limit :: nat
  paused_recv_bytes :: nat
  paused_recv_queue :: "byte list list"
  disconnect_after_flush :: bool
  recv_paused :: bool
  backpressure_active :: bool
  pause_recv_on_backpressure :: bool
  disconnect_on_high_watermark :: bool
  active_recv_ev :: "nat option"
  active_send_ev :: "nat option"
  app_state :: 'a
  posted :: "owner_task list"
  asked :: nat
  inflight :: "IoOp list"
  accepted :: "byte list"
  wire :: "byte list"
  received :: "byte list"
  delivered :: "byte list"
  disconnected_calls :: nat
  release_calls :: nat
  returned_bufs :: "u16 list"
  faulted :: bool

record env =
  alloc_ok :: "nat \<Rightarrow> bool"
  prep_ok :: "nat \<Rightarrow> bool"
  post_ok :: "nat \<Rightarrow> bool"
  clock :: "nat \<Rightarrow> int"

record 'a app =
  app_OnRecv :: "byte list \<Rightarrow> 'a Session \<Rightarrow> 'a Session"
  app_OnConnected :: "'a Session \<Rightarrow> 'a Session"
  app_OnDisconnected :: "'a Session \<Rightarrow> 'a Session"
  app_OnSocketDrained :: "'a Session \<Rightarrow> 'a Session"
  app_OnBackpressure :: "bool \<Rightarrow> 'a Session \<Rightarrow> 'a Session"
  app_OnTimeoutTick :: "int \<Rightarrow> 'a Session \<Rightarrow> bool \<times> 'a Session"
  app_HasPendingAppWork :: "'a Session \<Rightarrow> bool"

definition Session_new :: "u32 \<Rightarrow> 'a \<Rightarrow> 'a Session" where
  "Session_new send_queue_max_pending a =
     \<lparr>send_queue = SendQueue_new send_queue_max_pending, session_state = kOpen, pending_io = 0,
      pending_app_io = 0, session_id = 0, remote_addr = [], last_activity = 0,
      last_backpressure_high = 0, next_timeout_check = 0, inactivity_timeout = 0,
      timeout_check_interval = 0, send_queue_high_watermark = 0, send_queue_low_watermark = 0,
      send_queue_high_bytes = 0, send_queue_low_bytes = 0, backpressure_disconnect_delay = 0,
      paused_recv_byte_limit = 1048576, paused_recv_bytes = 0, paused_recv_queue = [],
      disconnect_after_flush = False, recv_paused = False, backpressure_active = False,
      pause_recv_on_backpressure = False, disconnect_on_high_watermark = False,
      active_recv_ev = None, active_send_ev = None, app_state = a, posted = [], asked = 0,
      inflight = [], accepted = [], wire = [], received = [], delivered = [],
      disconnected_calls = 0, release_calls = 0, returned_bufs = [], faulted = False\<rparr>"

section \<open>Lifecycle state\<close>

definition ClosingStarted :: "'a Session \<Rightarrow> bool" where
  "ClosingStarted s \<longleftrightarrow> session_state s \<noteq> kOpen"

definition CanUseOnOwner :: "'a Session \<Rightarrow> bool" where
  "CanUseOnOwner s \<longleftrightarrow> session_state s = kOpen"

definition TryBeginDisconnectOnOwner :: "'a Session \<Rightarrow> bool \<times> 'a Session" where
  "TryBeginDisconnectOnOwner s =
     (if session_state s = kOpen then (True, s\<lparr>session_state := kClosing\<rparr>) else (False, s))"

definition MarkDrainingOnOwner :: "'a Session \<Rightarrow> 'a Session" where
  "MarkDrainingOnOwner s =
     (if session_state s = kClosing then s\<lparr>session_state := kDraining\<rparr> else s)"

definition TryMarkClosedOnOwner :: "'a Session \<Rightarrow> bool \<times> 'a Session" where
  "TryMarkClosedOnOwner s =
     (if session_state s \<noteq> kOpen \<and> session_state s \<noteq> kClosed
      then (True, s\<lparr>session_state := kClosed\<rparr>) else (False, s))"

definition BeginPendingIo :: "'a Session \<Rightarrow> 'a Session" where
  "BeginPendingIo s = s\<lparr>pending_io := Suc (pending_io s)\<rparr>"

definition CompletePendingIo :: "'a Session \<Rightarrow> 'a Session" where
  "CompletePendingIo s = (if pending_io s > 0 then s\<lparr>pending_io := pending_io s - 1\<rparr> else s)"

section \<open>Questions to the environment\<close>

definition ask :: "'a Session \<Rightarrow> 'a Session" where
  "ask s = s\<lparr>asked := Suc (asked s)\<rparr>"

definition new_op :: "env \<Rightarrow> 'a Session \<Rightarrow> bool \<times> 'a Session" where
  "new_op e s = (alloc_ok e (asked s), ask s)"

text \<open>The \<open>Prep...\<close> calls of the ring: with a submission entry the kernel holds the operation.\<close>

definition prep :: "env \<Rightarrow> IoOp \<Rightarrow> 'a Session \<Rightarrow> bool \<times> 'a Session" where
  "prep e op s =
     (if prep_ok e (asked s) then (True, ask (s\<lparr>inflight := inflight s @ [op]\<rparr>))
      else (False, ask s))"

definition now :: "env \<Rightarrow> 'a Session \<Rightarrow> int \<times> 'a Session" where
  "now e s = (clock e (asked s), ask s)"

definition TouchActivity :: "env \<Rightarrow> 'a Session \<Rightarrow> 'a Session" where
  "TouchActivity e s = (let (t, s1) = now e s in s1\<lparr>last_activity := t\<rparr>)"

section \<open>Disconnecting and releasing\<close>

definition TryRelease :: "'a app \<Rightarrow> 'a Session \<Rightarrow> 'a Session" where
  "TryRelease a s =
     (if \<not> ClosingStarted s \<or> pending_io s \<noteq> 0 \<or> pending_app_io s \<noteq> 0 then s
      else let (ok, s1) = TryMarkClosedOnOwner s
           in if \<not> ok then s1
              else let s2 = app_OnDisconnected a (s1\<lparr>disconnected_calls := Suc (disconnected_calls s1)\<rparr>)
                   in s2\<lparr>release_calls := Suc (release_calls s2)\<rparr>)"

definition cancel_recv :: "env \<Rightarrow> 'a Session \<Rightarrow> 'a Session" where
  "cancel_recv e s =
     (case active_recv_ev s of
        None \<Rightarrow> s
      | Some r \<Rightarrow>
          (let cancel_ev = asked s; (ok, s1) = new_op e s
           in if \<not> ok then s1
              else let s2 = BeginPendingIo s1; (sqe, s3) = prep e (CancelOp cancel_ev r) s2
                   in if sqe then s3 else CompletePendingIo s3))"

definition DisconnectOnOwner :: "env \<Rightarrow> 'a app \<Rightarrow> 'a Session \<Rightarrow> 'a Session" where
  "DisconnectOnOwner e a s =
     (let (begun, s1) = TryBeginDisconnectOnOwner s
      in if \<not> begun then s1
         else let disconnect_ev = asked s1; (ok, s2) = new_op e s1
              in if \<not> ok then TryRelease a s2
                 else let s3 = BeginPendingIo s2; (sqe, s4) = prep e (DisconnectOp disconnect_ev) s3
                      in if \<not> sqe then TryRelease a (CompletePendingIo s4)
                         else TryRelease a (MarkDrainingOnOwner (cancel_recv e s4)))"

definition TryDisconnectAfterFlush :: "env \<Rightarrow> 'a app \<Rightarrow> 'a Session \<Rightarrow> 'a Session" where
  "TryDisconnectAfterFlush e a s =
     (if \<not> disconnect_after_flush s \<or> \<not> CanUseOnOwner s then s
      else if active_send_ev s \<noteq> None \<or> current_depth (Snapshot (send_queue s)) \<noteq> 0 \<or>
              app_HasPendingAppWork a s then s
      else DisconnectOnOwner e a s)"

definition DisconnectAfterFlushOnOwner :: "env \<Rightarrow> 'a app \<Rightarrow> 'a Session \<Rightarrow> 'a Session" where
  "DisconnectAfterFlushOnOwner e a s =
     (if \<not> CanUseOnOwner s then s
      else TryDisconnectAfterFlush e a (s\<lparr>disconnect_after_flush := True\<rparr>))"

section \<open>Receiving\<close>

definition RegisterRecv :: "env \<Rightarrow> 'a app \<Rightarrow> 'a Session \<Rightarrow> 'a Session" where
  "RegisterRecv e a s =
     (if \<not> CanUseOnOwner s \<or> recv_paused s then s
      else if active_recv_ev s \<noteq> None then s
      else let recv_ev = asked s; (ok, s1) = new_op e s
           in if \<not> ok then DisconnectOnOwner e a s1
              else let s2 = BeginPendingIo s1; (sqe, s3) = prep e (RecvOp recv_ev) s2
                   in if \<not> sqe then DisconnectOnOwner e a (CompletePendingIo s3)
                      else s3\<lparr>active_recv_ev := Some recv_ev\<rparr>)"

text \<open>The call of the derived class's \<open>OnRecv\<close>, recorded in \<open>delivered\<close>.\<close>

definition deliver :: "'a app \<Rightarrow> byte list \<Rightarrow> 'a Session \<Rightarrow> 'a Session" where
  "deliver a data s = app_OnRecv a data (s\<lparr>delivered := delivered s @ data\<rparr>)"

definition QueuePausedRecv :: "byte list \<Rightarrow> 'a Session \<Rightarrow> bool \<times> 'a Session" where
  "QueuePausedRecv data s =
     (if data = [] then (True, s)
      else let next_bytes = paused_recv_bytes s + length data
           in if paused_recv_byte_limit s \<noteq> 0 \<and> next_bytes > paused_recv_byte_limit s
              then (False, s)
              else (True, s\<lparr>paused_recv_bytes := next_bytes,
                            paused_recv_queue := paused_recv_queue s @ [data]\<rparr>))"

text \<open>
  The loop of \<open>DrainPausedRecv\<close>, with as many passes as there are chunks at its start: a pass
  takes one off, and nothing a callback may call adds one (\<open>DrainPausedRecv_done\<close>).
\<close>

fun drain_paused :: "nat \<Rightarrow> 'a app \<Rightarrow> 'a Session \<Rightarrow> 'a Session" where
  "drain_paused 0 a s = s"
| "drain_paused (Suc n) a s =
     (if CanUseOnOwner s \<and> \<not> recv_paused s
      then case paused_recv_queue s of
             [] \<Rightarrow> s
           | chunk # rest \<Rightarrow>
               drain_paused n a
                 (deliver a chunk (s\<lparr>paused_recv_queue := rest,
                                    paused_recv_bytes := paused_recv_bytes s - length chunk\<rparr>))
      else s)"

definition DrainPausedRecv :: "'a app \<Rightarrow> 'a Session \<Rightarrow> 'a Session" where
  "DrainPausedRecv a s = drain_paused (length (paused_recv_queue s)) a s"

definition PauseRecvOnOwner :: "'a Session \<Rightarrow> 'a Session" where
  "PauseRecvOnOwner s = (if \<not> CanUseOnOwner s then s else s\<lparr>recv_paused := True\<rparr>)"

definition ResumeRecvOnOwner :: "env \<Rightarrow> 'a app \<Rightarrow> 'a Session \<Rightarrow> 'a Session" where
  "ResumeRecvOnOwner e a s =
     (if \<not> CanUseOnOwner s then s
      else RegisterRecv e a (DrainPausedRecv a (s\<lparr>recv_paused := False\<rparr>)))"

section \<open>Back-pressure\<close>

definition HighWatermarkReached :: "Stats \<Rightarrow> 'a Session \<Rightarrow> bool" where
  "HighWatermarkReached st s \<longleftrightarrow>
     (send_queue_high_watermark s \<noteq> 0 \<and> current_depth st \<ge> unat (send_queue_high_watermark s)) \<or>
     (send_queue_high_bytes s \<noteq> 0 \<and> stat_bytes st \<ge> send_queue_high_bytes s)"

definition LowWatermarkReached :: "Stats \<Rightarrow> 'a Session \<Rightarrow> bool" where
  "LowWatermarkReached st s \<longleftrightarrow>
     (let depth_low = send_queue_high_watermark s = 0 \<or>
                      current_depth st \<le> unat (send_queue_low_watermark s);
          bytes_low = send_queue_high_bytes s = 0 \<or> stat_bytes st \<le> send_queue_low_bytes s
      in depth_low \<and> bytes_low)"

definition enter_backpressure :: "env \<Rightarrow> 'a app \<Rightarrow> 'a Session \<Rightarrow> 'a Session" where
  "enter_backpressure e a s =
     (let (t, s1) = now e (s\<lparr>backpressure_active := True\<rparr>);
          s2 = app_OnBackpressure a True (s1\<lparr>last_backpressure_high := t\<rparr>);
          s3 = (if pause_recv_on_backpressure s2 then s2\<lparr>recv_paused := True\<rparr> else s2)
      in if disconnect_on_high_watermark s3 \<and> backpressure_disconnect_delay s3 = 0
         then DisconnectOnOwner e a s3 else s3)"

definition leave_backpressure :: "env \<Rightarrow> 'a app \<Rightarrow> 'a Session \<Rightarrow> 'a Session" where
  "leave_backpressure e a s =
     (let s1 = app_OnBackpressure a False (s\<lparr>backpressure_active := False, last_backpressure_high := 0\<rparr>)
      in if pause_recv_on_backpressure s1
         then RegisterRecv e a (DrainPausedRecv a (s1\<lparr>recv_paused := False\<rparr>)) else s1)"

definition UpdateBackpressure :: "env \<Rightarrow> 'a app \<Rightarrow> Stats \<Rightarrow> 'a Session \<Rightarrow> 'a Session" where
  "UpdateBackpressure e a st s =
     (if \<not> backpressure_active s
      then if \<not> HighWatermarkReached st s then s else enter_backpressure e a s
      else if \<not> LowWatermarkReached st s then s else leave_backpressure e a s)"

section \<open>Sending\<close>

definition kMaxSendIovecs :: nat where
  "kMaxSendIovecs = 1024"

text \<open>\<open>SendInFlightBatch\<close> dereferences every buffer of the batch; a null one is a fault.\<close>

definition SendInFlightBatch ::
    "env \<Rightarrow> 'a app \<Rightarrow> nat \<Rightarrow> SendBufferRef list \<Rightarrow> 'a Session \<Rightarrow> 'a Session" where
  "SendInFlightBatch e a send_op bufs s =
     (if \<not> CanUseOnOwner s \<or> bufs = [] then s
      else let s1 = s\<lparr>faulted := faulted s \<or> None \<in> set bufs\<rparr>;
               s2 = BeginPendingIo s1;
               (sqe, s3) = prep e (SendOp send_op (map ref_bytes bufs) bufs) s2
           in if \<not> sqe then DisconnectOnOwner e a (CompletePendingIo s3)
              else s3\<lparr>active_send_ev := Some send_op\<rparr>)"

definition SendBatch :: "env \<Rightarrow> 'a app \<Rightarrow> SendBufferRef list \<Rightarrow> 'a Session \<Rightarrow> 'a Session" where
  "SendBatch e a bufs s =
     (if \<not> CanUseOnOwner s \<or> bufs = [] then s
      else if active_send_ev s \<noteq> None then s
      else let send_op = asked s; (ok, s1) = new_op e s
           in if \<not> ok then DisconnectOnOwner e a s1 else SendInFlightBatch e a send_op bufs s1)"

definition RegisterSend :: "env \<Rightarrow> 'a app \<Rightarrow> 'a Session \<Rightarrow> 'a Session" where
  "RegisterSend e a s =
     (if \<not> CanUseOnOwner s then s
      else if active_send_ev s \<noteq> None then s
      else let (bufs, q) = DrainInto kMaxSendIovecs (send_queue s)
           in if bufs = [] then s\<lparr>send_queue := q\<rparr>
              else SendBatch e a bufs (UpdateBackpressure e a (Snapshot q) (s\<lparr>send_queue := q\<rparr>)))"

definition SendOnOwner ::
    "env \<Rightarrow> 'a app \<Rightarrow> SendBufferRef \<Rightarrow> 'a Session \<Rightarrow> IoError option \<times> 'a Session" where
  "SendOnOwner e a buf s =
     (if \<not> CanUseOnOwner s then (Some kDisconnected, s)
      else let (result, q) = Push buf (send_queue s); s1 = s\<lparr>send_queue := q\<rparr>
           in if overflowed result then (Some kSendFailed, DisconnectOnOwner e a s1)
              else let s2 = UpdateBackpressure e a (Snapshot q) (s1\<lparr>accepted := accepted s1 @ ref_bytes buf\<rparr>)
                   in (None, if needs_register result then RegisterSend e a s2 else s2))"

text \<open>
  \<open>OnSend\<close> is given the operation whose completion it handles. On a short send the operation is
  resubmitted and stays with the kernel (\<open>kPending\<close>); otherwise it is deleted.
\<close>

definition resume_send ::
    "env \<Rightarrow> 'a app \<Rightarrow> nat \<Rightarrow> byte list list \<Rightarrow> SendBufferRef list \<Rightarrow> 'a Session \<Rightarrow> 'a Session" where
  "resume_send e a op iovs bufs s =
     (let (sqe, s1) = prep e (SendOp op iovs bufs) s
      in if \<not> sqe then DisconnectOnOwner e a (CompletePendingIo s1)
         else s1\<lparr>active_send_ev := Some op\<rparr>)"

definition after_full_send :: "env \<Rightarrow> 'a app \<Rightarrow> 'a Session \<Rightarrow> 'a Session" where
  "after_full_send e a s =
     (let s1 = CompletePendingIo (s\<lparr>send_queue := MarkSent (send_queue s)\<rparr>);
          s2 = UpdateBackpressure e a (Snapshot (send_queue s1)) s1;
          s3 = app_OnSocketDrained a s2;
          s4 = TryDisconnectAfterFlush e a s3
      in if active_send_ev s4 \<noteq> None then s4
         else let (next_bufs, q) = DrainInto kMaxSendIovecs (send_queue s4); s5 = s4\<lparr>send_queue := q\<rparr>
              in if next_bufs \<noteq> []
                 then SendBatch e a next_bufs (UpdateBackpressure e a (Snapshot q) s5)
                 else TryDisconnectAfterFlush e a s5)"

definition OnSend ::
    "env \<Rightarrow> 'a app \<Rightarrow> nat \<Rightarrow> byte list list \<Rightarrow> SendBufferRef list \<Rightarrow> int \<Rightarrow> 'a Session \<Rightarrow> 'a Session" where
  "OnSend e a op iovs bufs res s =
     (let s1 = (if active_send_ev s = Some op then s\<lparr>active_send_ev := None\<rparr> else s)
      in if \<not> CanUseOnOwner s1 then TryRelease a (CompletePendingIo s1)
         else if res < 0 then DisconnectOnOwner e a (CompletePendingIo s1)
         else let requested = sum_list (map length iovs);
                  sent = nat res;
                  s2 = s1\<lparr>wire := wire s1 @ take sent (concat iovs)\<rparr>
              in if sent < requested
                 then let (iovs', bufs') = AdvanceSendState iovs bufs sent
                      in resume_send e a op iovs' bufs' s2
                 else after_full_send e a s2)"

section \<open>Receive completions\<close>

definition IORING_CQE_F_BUFFER :: u32 where "IORING_CQE_F_BUFFER = 1"
definition IORING_CQE_F_MORE :: u32 where "IORING_CQE_F_MORE = 2"
definition IORING_CQE_BUFFER_SHIFT :: nat where "IORING_CQE_BUFFER_SHIFT = 16"

datatype DispatchResult = kPending | kComplete

text \<open>Both branches of \<open>OnRecv\<close> that have data treat it alike; \<open>view\<close> is the bytes they see.\<close>

definition recv_data :: "env \<Rightarrow> 'a app \<Rightarrow> byte list \<Rightarrow> 'a Session \<Rightarrow> 'a Session" where
  "recv_data e a view s =
     (let s1 = TouchActivity e (s\<lparr>received := received s @ view\<rparr>)
      in if recv_paused s1
         then let (ok, s2) = QueuePausedRecv view s1
              in if \<not> ok then DisconnectOnOwner e a s2 else s2
         else deliver a view s1)"

definition recv_outcome :: "env \<Rightarrow> 'a app \<Rightarrow> bool \<Rightarrow> int \<Rightarrow> 'a Session \<Rightarrow> 'a Session" where
  "recv_outcome e a f_more res s =
     (if \<not> CanUseOnOwner s then TryRelease a s
      else if res = 0 then DisconnectOnOwner e a s
      else if res = - ENOBUFS then (if \<not> recv_paused s then RegisterRecv e a s else s)
      else if res < 0 then DisconnectOnOwner e a s
      else if \<not> f_more then (if \<not> recv_paused s then RegisterRecv e a s else s)
      else s)"

definition Session_OnRecv ::
    "env \<Rightarrow> 'a app \<Rightarrow> int \<Rightarrow> u32 \<Rightarrow> byte list \<Rightarrow> 'a Session \<Rightarrow> DispatchResult \<times> 'a Session" where
  "Session_OnRecv e a res flags view s =
     (let f_more = (flags AND IORING_CQE_F_MORE \<noteq> 0);
          has_buffer = (flags AND IORING_CQE_F_BUFFER \<noteq> 0);
          buf_id = (ucast (drop_bit IORING_CQE_BUFFER_SHIFT flags) :: u16);
          s1 = (if \<not> f_more then s\<lparr>active_recv_ev := None\<rparr> else s);
          s2 = (if res > 0 \<and> CanUseOnOwner s1 then recv_data e a view s1 else s1);
          s3 = (if has_buffer then s2\<lparr>returned_bufs := returned_bufs s2 @ [buf_id]\<rparr> else s2);
          s4 = (if \<not> f_more then CompletePendingIo s3 else s3)
      in (if f_more then kPending else kComplete, recv_outcome e a f_more res s4))"

definition OnDisconnect :: "'a app \<Rightarrow> 'a Session \<Rightarrow> 'a Session" where
  "OnDisconnect a s = TryRelease a (CompletePendingIo s)"

definition OnCancel :: "'a app \<Rightarrow> 'a Session \<Rightarrow> 'a Session" where
  "OnCancel a s = TryRelease a (CompletePendingIo s)"

section \<open>Timers and application I/O\<close>

text \<open>Clock values are nanoseconds, 0 the default \<open>time_point\<close>; durations are milliseconds.\<close>

definition ms :: "int \<Rightarrow> int" where
  "ms n = 1000000 * n"

definition Tick :: "env \<Rightarrow> 'a app \<Rightarrow> int \<Rightarrow> 'a Session \<Rightarrow> 'a Session" where
  "Tick e a t s =
     (if \<not> CanUseOnOwner s then TryRelease a s
      else let check_timeout = timeout_check_interval s > 0 \<and>
                               (next_timeout_check s = 0 \<or> t \<ge> next_timeout_check s);
               (handled, s1) =
                 (if check_timeout
                  then app_OnTimeoutTick a t (s\<lparr>next_timeout_check := t + ms (timeout_check_interval s)\<rparr>)
                  else (False, s))
           in if handled then s1
              else if inactivity_timeout s1 > 0 \<and> last_activity s1 \<noteq> 0 \<and>
                      t - last_activity s1 \<ge> ms (inactivity_timeout s1) \<and> \<not> app_HasPendingAppWork a s1
              then DisconnectOnOwner e a s1
              else if backpressure_active s1 \<and> disconnect_on_high_watermark s1 \<and>
                      backpressure_disconnect_delay s1 > 0 \<and> last_backpressure_high s1 \<noteq> 0 \<and>
                      t - last_backpressure_high s1 \<ge> ms (backpressure_disconnect_delay s1)
              then DisconnectOnOwner e a s1
              else s1)"

definition SetTimeoutCheckInterval :: "env \<Rightarrow> int \<Rightarrow> 'a Session \<Rightarrow> 'a Session" where
  "SetTimeoutCheckInterval e interval s =
     (if interval \<le> 0 then s\<lparr>timeout_check_interval := 0, next_timeout_check := 0\<rparr>
      else let (t, s1) = now e s
           in s1\<lparr>timeout_check_interval := interval, next_timeout_check := t + ms interval\<rparr>)"

definition SetInactivityTimeout :: "env \<Rightarrow> int \<Rightarrow> 'a Session \<Rightarrow> 'a Session" where
  "SetInactivityTimeout e timeout s =
     (let s1 = s\<lparr>inactivity_timeout := timeout\<rparr>
      in if timeout > 0 \<and> (timeout_check_interval s1 = 0 \<or> timeout_check_interval s1 > timeout)
         then SetTimeoutCheckInterval e (min timeout 1000) s1 else s1)"

definition BeginAppIo :: "'a Session \<Rightarrow> 'a Session" where
  "BeginAppIo s = s\<lparr>pending_app_io := Suc (pending_app_io s)\<rparr>"

definition EndAppIo :: "env \<Rightarrow> 'a app \<Rightarrow> 'a Session \<Rightarrow> 'a Session" where
  "EndAppIo e a s =
     (let s1 = (if pending_app_io s > 0 then s\<lparr>pending_app_io := pending_app_io s - 1\<rparr> else s)
      in TryRelease a (TryDisconnectAfterFlush e a s1))"

section \<open>Starting, and calls from other threads\<close>

text \<open>\<open>peer\<close> is what \<open>getpeername\<close> and \<open>inet_ntop\<close> report: the host and the port.\<close>

definition CaptureRemoteAddr :: "(string \<times> u16) option \<Rightarrow> 'a Session \<Rightarrow> 'a Session" where
  "CaptureRemoteAddr peer s =
     (case peer of
        None \<Rightarrow> s\<lparr>remote_addr := []\<rparr>
      | Some (h, p) \<Rightarrow>
          if h = [] then s\<lparr>remote_addr := []\<rparr>
          else s\<lparr>remote_addr := h @ '':'' @ to_string_nat (unat p)\<rparr>)"

definition Start :: "env \<Rightarrow> 'a app \<Rightarrow> (string \<times> u16) option \<Rightarrow> 'a Session \<Rightarrow> 'a Session" where
  "Start e a peer s =
     RegisterRecv e a (app_OnConnected a (TouchActivity e (CaptureRemoteAddr peer s)))"

fun run_task :: "env \<Rightarrow> 'a app \<Rightarrow> owner_task \<Rightarrow> 'a Session \<Rightarrow> 'a Session" where
  "run_task e a (TSend buf) s = snd (SendOnOwner e a buf s)"
| "run_task e a TDisconnect s = DisconnectOnOwner e a s"
| "run_task e a TDisconnectAfterFlush s = DisconnectAfterFlushOnOwner e a s"
| "run_task e a TPauseRecv s = PauseRecvOnOwner s"
| "run_task e a TResumeRecv s = ResumeRecvOnOwner e a s"

definition RunOnOwner ::
    "env \<Rightarrow> 'a app \<Rightarrow> bool \<Rightarrow> owner_task \<Rightarrow> 'a Session \<Rightarrow> bool \<times> 'a Session" where
  "RunOnOwner e a on_ring task s =
     (if on_ring then (True, run_task e a task s)
      else if post_ok e (asked s) then (True, ask (s\<lparr>posted := posted s @ [task]\<rparr>))
      else (False, ask s))"

definition Send ::
    "env \<Rightarrow> 'a app \<Rightarrow> bool \<Rightarrow> SendBufferRef \<Rightarrow> 'a Session \<Rightarrow> IoError option \<times> 'a Session" where
  "Send e a on_ring buf s =
     (if on_ring then SendOnOwner e a buf s
      else let (ok, s1) = RunOnOwner e a on_ring (TSend buf) s
           in (if \<not> ok then Some kSendFailed else None, s1))"

definition Disconnect :: "env \<Rightarrow> 'a app \<Rightarrow> bool \<Rightarrow> 'a Session \<Rightarrow> 'a Session" where
  "Disconnect e a on_ring s = snd (RunOnOwner e a on_ring TDisconnect s)"

definition DisconnectAfterFlush :: "env \<Rightarrow> 'a app \<Rightarrow> bool \<Rightarrow> 'a Session \<Rightarrow> 'a Session" where
  "DisconnectAfterFlush e a on_ring s = snd (RunOnOwner e a on_ring TDisconnectAfterFlush s)"

definition PauseRecv :: "env \<Rightarrow> 'a app \<Rightarrow> bool \<Rightarrow> 'a Session \<Rightarrow> 'a Session" where
  "PauseRecv e a on_ring s = snd (RunOnOwner e a on_ring TPauseRecv s)"

definition ResumeRecv :: "env \<Rightarrow> 'a app \<Rightarrow> bool \<Rightarrow> 'a Session \<Rightarrow> 'a Session" where
  "ResumeRecv e a on_ring s = snd (RunOnOwner e a on_ring TResumeRecv s)"

section \<open>Configuration (\<open>SessionControl\<close>)\<close>

definition SetSessionId :: "SessionId \<Rightarrow> 'a Session \<Rightarrow> 'a Session" where
  "SetSessionId i s = s\<lparr>session_id := i\<rparr>"

definition SetBackpressureWatermarks :: "u32 \<Rightarrow> u32 \<Rightarrow> 'a Session \<Rightarrow> 'a Session" where
  "SetBackpressureWatermarks high low s =
     s\<lparr>send_queue_high_watermark := high, send_queue_low_watermark := low\<rparr>"

definition SetBackpressureByteWatermarks :: "nat \<Rightarrow> nat \<Rightarrow> 'a Session \<Rightarrow> 'a Session" where
  "SetBackpressureByteWatermarks high low s =
     s\<lparr>send_queue_high_bytes := high, send_queue_low_bytes := low\<rparr>"

definition SetPauseRecvOnBackpressure :: "bool \<Rightarrow> 'a Session \<Rightarrow> 'a Session" where
  "SetPauseRecvOnBackpressure enabled s = s\<lparr>pause_recv_on_backpressure := enabled\<rparr>"

definition SetPausedRecvByteLimit :: "nat \<Rightarrow> 'a Session \<Rightarrow> 'a Session" where
  "SetPausedRecvByteLimit limit s = s\<lparr>paused_recv_byte_limit := limit\<rparr>"

definition SetBackpressureDisconnectDelay :: "int \<Rightarrow> 'a Session \<Rightarrow> 'a Session" where
  "SetBackpressureDisconnectDelay delay s = s\<lparr>backpressure_disconnect_delay := delay\<rparr>"

definition SetDisconnectOnHighWatermark :: "bool \<Rightarrow> 'a Session \<Rightarrow> 'a Session" where
  "SetDisconnectOnHighWatermark enabled s = s\<lparr>disconnect_on_high_watermark := enabled\<rparr>"

end
