(* ===== verification/Session_Invariant.thy ===== *)
theory Session_Invariant
  imports Session_Model
begin

text \<open>
  The invariant of the session and that every operation keeps it. Callbacks run in the middle of
  operations, so the invariant has a context: what the operations on the stack still owe. \<open>held\<close>
  counts completions that are dispatched but not yet subtracted from \<open>pending_io\<close>; \<open>hand\<close> is a
  batch taken off the queue and not yet handed to the kernel; \<open>send_kick\<close> and \<open>recv_kick\<close> say
  that somebody will still start a send or a receive; \<open>draining\<close> that a drain of the paused chunks
  is under way; \<open>releasing\<close> that \<open>OnDisconnected\<close> runs and the release follows.
\<close>

record ctx =
  held :: nat
  hand :: "SendBufferRef list"
  send_kick :: bool
  recv_kick :: bool
  draining :: bool
  releasing :: bool

definition idle :: ctx where
  "idle = \<lparr>held = 0, hand = [], send_kick = False, recv_kick = False, draining = False,
           releasing = False\<rparr>"

fun is_recv :: "IoOp \<Rightarrow> bool" where
  "is_recv (RecvOp _) = True"
| "is_recv _ = False"

fun is_send :: "IoOp \<Rightarrow> bool" where
  "is_send (SendOp _ _ _) = True"
| "is_send _ = False"

fun send_bytes :: "IoOp list \<Rightarrow> byte list" where
  "send_bytes [] = []"
| "send_bytes (SendOp _ iovs _ # ops) = concat iovs @ send_bytes ops"
| "send_bytes (_ # ops) = send_bytes ops"

fun send_id :: "IoOp \<Rightarrow> nat option" where
  "send_id (SendOp i iovs bufs) = (if length iovs = length bufs then Some i else None)"
| "send_id _ = None"

text \<open>
  Accounting of operations and life cycle. The three parts of the invariant are predicates on the
  fields they concern, so that a step that leaves those fields alone keeps them by rewriting.
\<close>

definition ops_ok :: "nat \<Rightarrow> nat \<Rightarrow> IoOp list \<Rightarrow> nat option \<Rightarrow> nat option \<Rightarrow> bool" where
  "ops_ok hld n ops rv sn \<longleftrightarrow>
     n = length ops + hld \<and>
     filter is_recv ops = (case rv of None \<Rightarrow> [] | Some i \<Rightarrow> [RecvOp i]) \<and>
     map send_id (filter is_send ops) = (case sn of None \<Rightarrow> [] | Some i \<Rightarrow> [Some i])"

definition life_ok :: "bool \<Rightarrow> nat \<Rightarrow> SessionState \<Rightarrow> nat \<Rightarrow> nat \<Rightarrow> bool" where
  "life_ok relg n st disc rel \<longleftrightarrow>
     disc = (if st = kClosed then 1 else 0) \<and>
     rel + (if relg then 1 else 0) = (if st = kClosed then 1 else 0) \<and>
     (st = kClosed \<longrightarrow> n = 0)"

text \<open>A session that is closing and waits for nothing has been released.\<close>

definition settled :: "SessionState \<Rightarrow> nat \<Rightarrow> nat \<Rightarrow> bool" where
  "settled st n m \<longleftrightarrow> (st \<noteq> kOpen \<longrightarrow> n = 0 \<longrightarrow> m = 0 \<longrightarrow> st = kClosed)"

text \<open>The outgoing stream.\<close>

definition queue_ok :: "SendBufferRef list \<Rightarrow> SendQueue \<Rightarrow> bool \<Rightarrow> owner_task list \<Rightarrow> bool" where
  "queue_ok hnd q flt tasks \<longleftrightarrow>
     sq_inv q \<and> None \<notin> set (pending q) \<and> None \<notin> set hnd \<and> \<not> flt \<and> TSend None \<notin> set tasks"

definition stream_ok ::
    "SendBufferRef list \<Rightarrow> bool \<Rightarrow> SendQueue \<Rightarrow> IoOp list \<Rightarrow> nat option \<Rightarrow> byte list \<Rightarrow> byte list \<Rightarrow> bool" where
  "stream_ok hnd kick q ops sn acc wr \<longleftrightarrow>
     acc = wr @ send_bytes ops @ concat (map ref_bytes hnd) @ concat (map ref_bytes (pending q)) \<and>
     (sn \<noteq> None \<longrightarrow> registered q) \<and>
     (hnd \<noteq> [] \<longrightarrow> registered q \<and> sn = None \<and> kick) \<and>
     (registered q \<longrightarrow> sn \<noteq> None \<or> hnd \<noteq> [] \<or> pending q \<noteq> []) \<and>
     (\<not> kick \<longrightarrow> registered q \<longrightarrow> sn \<noteq> None)"

text \<open>The incoming stream.\<close>

definition paused_ok :: "nat \<Rightarrow> nat \<Rightarrow> byte list list \<Rightarrow> bool" where
  "paused_ok limit n chunks \<longleftrightarrow> n = sum_list (map length chunks) \<and> (limit \<noteq> 0 \<longrightarrow> n \<le> limit)"

definition inbound_ok ::
    "bool \<Rightarrow> bool \<Rightarrow> byte list \<Rightarrow> byte list \<Rightarrow> byte list list \<Rightarrow> bool \<Rightarrow> nat option \<Rightarrow> bool" where
  "inbound_ok drn kick rcv dlv chunks paused rv \<longleftrightarrow>
     rcv = dlv @ concat chunks \<and>
     (\<not> drn \<longrightarrow> chunks \<noteq> [] \<longrightarrow> paused) \<and>
     (\<not> kick \<longrightarrow> \<not> paused \<longrightarrow> rv \<noteq> None)"

definition core_inv :: "ctx \<Rightarrow> 'a Session \<Rightarrow> bool" where
  "core_inv c s \<longleftrightarrow>
     ops_ok (held c) (pending_io s) (inflight s) (active_recv_ev s) (active_send_ev s) \<and>
     life_ok (releasing c) (pending_io s) (session_state s) (disconnected_calls s) (release_calls s) \<and>
     queue_ok (hand c) (send_queue s) (faulted s) (posted s) \<and>
     paused_ok (paused_recv_byte_limit s) (paused_recv_bytes s) (paused_recv_queue s) \<and>
     (session_state s = kOpen \<longrightarrow>
        stream_ok (hand c) (send_kick c) (send_queue s) (inflight s) (active_send_ev s)
          (accepted s) (wire s) \<and>
        inbound_ok (draining c) (recv_kick c) (received s) (delivered s) (paused_recv_queue s)
          (recv_paused s) (active_recv_ev s))"

definition session_inv :: "ctx \<Rightarrow> 'a Session \<Rightarrow> bool" where
  "session_inv c s \<longleftrightarrow>
     core_inv c s \<and> settled (session_state s) (pending_io s) (pending_app_io s)"

lemma send_bytes_append [simp]: "send_bytes (xs @ ys) = send_bytes xs @ send_bytes ys"
  by (induction xs rule: send_bytes.induct) simp_all

section \<open>Small steps that keep the core of the invariant\<close>

lemma session_inv_core: "session_inv c s \<Longrightarrow> core_inv c s"
  by (simp add: session_inv_def)

lemma open_core_inv: "core_inv c s \<Longrightarrow> session_state s = kOpen \<Longrightarrow> session_inv c s"
  by (simp add: session_inv_def settled_def)

lemma core_inv_ask [simp]: "core_inv c (ask s) \<longleftrightarrow> core_inv c s"
  by (simp add: ask_def core_inv_def)

lemma ask_fields [simp]:
  "session_state (ask s) = session_state s" "active_recv_ev (ask s) = active_recv_ev s"
  "active_send_ev (ask s) = active_send_ev s" "inflight (ask s) = inflight s"
  "pending_io (ask s) = pending_io s" "send_queue (ask s) = send_queue s"
  "recv_paused (ask s) = recv_paused s" "paused_recv_queue (ask s) = paused_recv_queue s"
  "pending_app_io (ask s) = pending_app_io s"
  by (simp_all add: ask_def)

lemma session_inv_ask [simp]: "session_inv c (ask s) \<longleftrightarrow> session_inv c s"
  by (simp add: ask_def session_inv_def core_inv_def)

lemma core_inv_closing:
  "core_inv c s \<Longrightarrow> session_state s = kOpen \<Longrightarrow> core_inv c (s\<lparr>session_state := kClosing\<rparr>)"
  by (simp add: core_inv_def life_ok_def)

lemma core_inv_draining:
  "core_inv c s \<Longrightarrow> core_inv c (MarkDrainingOnOwner s)"
  by (auto simp: core_inv_def life_ok_def MarkDrainingOnOwner_def split: if_splits)

lemma prep_refused:
  "prep e op (BeginPendingIo s) = (False, s') \<Longrightarrow> CompletePendingIo s' = ask s"
  by (auto simp: prep_def BeginPendingIo_def CompletePendingIo_def ask_def split: if_splits)

lemma prep_accepted:
  "prep e op (BeginPendingIo s) = (True, s') \<Longrightarrow>
     s' = ask (s\<lparr>pending_io := Suc (pending_io s), inflight := inflight s @ [op]\<rparr>)"
  by (auto simp: prep_def BeginPendingIo_def ask_def split: if_splits)

lemma send_bytes_other [simp]: "\<not> is_send op \<Longrightarrow> send_bytes [op] = []"
  by (cases op) simp_all

lemma core_inv_add_op:
  assumes "core_inv c s" "session_state s \<noteq> kClosed" "\<not> is_recv op" "\<not> is_send op"
  shows "core_inv c (s\<lparr>pending_io := Suc (pending_io s), inflight := inflight s @ [op]\<rparr>)"
  using assms by (simp add: core_inv_def ops_ok_def life_ok_def stream_ok_def)

lemma cancel_recv_core:
  assumes "core_inv c s" "session_state s \<noteq> kClosed"
  shows "core_inv c (cancel_recv e s) \<and> session_state (cancel_recv e s) = session_state s"
proof (cases "active_recv_ev s")
  case None
  then show ?thesis using assms by (simp add: cancel_recv_def)
next
  case (Some r)
  obtain sqe s3 where p: "prep e (CancelOp (asked s) r) (BeginPendingIo (ask s)) = (sqe, s3)"
    by fastforce
  show ?thesis
  proof (cases sqe)
    case True
    with p have "s3 = ask ((ask s)\<lparr>pending_io := Suc (pending_io (ask s)),
        inflight := inflight (ask s) @ [CancelOp (asked s) r]\<rparr>)"
      by (intro prep_accepted) simp
    then have "core_inv c s3" "session_state s3 = session_state s"
      using core_inv_add_op [of c "ask s"] assms by simp_all
    then show ?thesis using Some p True assms by (simp add: cancel_recv_def new_op_def Let_def)
  next
    case False
    then show ?thesis using Some p prep_refused [of e _ "ask s" s3] assms
      by (simp add: cancel_recv_def new_op_def Let_def)
  qed
qed

lemma ops_ok_add_recv:
  "ops_ok h n ops None sn \<Longrightarrow> ops_ok h (Suc n) (ops @ [RecvOp i]) (Some i) sn"
  by (simp add: ops_ok_def)

lemma ops_ok_add_send:
  "ops_ok h n ops rv None \<Longrightarrow> length iovs = length bufs \<Longrightarrow>
     ops_ok h (Suc n) (ops @ [SendOp i iovs bufs]) rv (Some i)"
  by (simp add: ops_ok_def)

lemma life_ok_open: "life_ok r n kOpen d l \<longleftrightarrow> d = 0 \<and> l = 0 \<and> \<not> r"
  by (simp add: life_ok_def)

lemma open_invD:
  assumes "session_inv c s" "session_state s = kOpen"
  shows "ops_ok (held c) (pending_io s) (inflight s) (active_recv_ev s) (active_send_ev s)"
    "disconnected_calls s = 0" "release_calls s = 0" "\<not> releasing c"
    "queue_ok (hand c) (send_queue s) (faulted s) (posted s)"
    "paused_ok (paused_recv_byte_limit s) (paused_recv_bytes s) (paused_recv_queue s)"
    "stream_ok (hand c) (send_kick c) (send_queue s) (inflight s) (active_send_ev s) (accepted s) (wire s)"
    "inbound_ok (draining c) (recv_kick c) (received s) (delivered s) (paused_recv_queue s) (recv_paused s) (active_recv_ev s)"
  using assms by (simp_all add: session_inv_def core_inv_def life_ok_open)

lemma open_invI:
  assumes "session_state s = kOpen"
    "ops_ok (held c) (pending_io s) (inflight s) (active_recv_ev s) (active_send_ev s)"
    "disconnected_calls s = 0" "release_calls s = 0" "\<not> releasing c"
    "queue_ok (hand c) (send_queue s) (faulted s) (posted s)"
    "paused_ok (paused_recv_byte_limit s) (paused_recv_bytes s) (paused_recv_queue s)"
    "stream_ok (hand c) (send_kick c) (send_queue s) (inflight s) (active_send_ev s) (accepted s) (wire s)"
    "inbound_ok (draining c) (recv_kick c) (received s) (delivered s) (paused_recv_queue s) (recv_paused s) (active_recv_ev s)"
  shows "session_inv c s"
  using assms by (simp add: session_inv_def core_inv_def life_ok_open settled_def)

lemma session_inv_add_recv:
  assumes inv: "session_inv (c\<lparr>recv_kick := True\<rparr>) s" and op: "session_state s = kOpen"
    and none: "active_recv_ev s = None"
  shows "session_inv c (s\<lparr>pending_io := Suc (pending_io s), inflight := inflight s @ [RecvOp i],
           active_recv_ev := Some i\<rparr>)"
  using open_invD [OF inv op] op none
  by (intro open_invI) (simp_all add: ops_ok_add_recv, simp_all add: stream_ok_def inbound_ok_def)

lemma session_inv_add_send:
  assumes inv: "session_inv (c\<lparr>hand := bufs, send_kick := True\<rparr>) s" and op: "session_state s = kOpen"
    and bufs: "bufs \<noteq> []" and hand: "hand c = []"
  shows "session_inv c (s\<lparr>pending_io := Suc (pending_io s),
           inflight := inflight s @ [SendOp i (map ref_bytes bufs) bufs], active_send_ev := Some i\<rparr>)"
proof -
  note parts = open_invD [OF inv op]
  have none: "active_send_ev s = None" using parts(7) bufs by (simp add: stream_ok_def)
  show ?thesis using parts op none bufs hand
    by (intro open_invI)
      (simp_all add: ops_ok_add_send, simp_all add: stream_ok_def inbound_ok_def queue_ok_def)
qed

lemma session_inv_weaken:
  "session_inv c s \<Longrightarrow> session_inv (c\<lparr>recv_kick := True\<rparr>) s"
  "session_inv c s \<Longrightarrow> session_inv (c\<lparr>draining := True\<rparr>) s"
  "session_inv c s \<Longrightarrow> session_inv (c\<lparr>send_kick := True\<rparr>) s"
  by (simp_all add: session_inv_def core_inv_def inbound_ok_def stream_ok_def)

lemma session_inv_closed_ctx:
  assumes "session_state s \<noteq> kOpen" "held c' = held c" "releasing c' = releasing c" "set (hand c') \<subseteq> set (hand c)"
    "session_inv c s"
  shows "session_inv c' s"
  using assms by (auto simp: session_inv_def core_inv_def queue_ok_def)

text \<open>Taking a completed operation away from the kernel.\<close>

lemma send_bytes_none: "filter is_send ops = [] \<Longrightarrow> send_bytes ops = []"
  by (induction ops rule: send_bytes.induct) simp_all

lemma ops_ok_send_done:
  assumes "ops_ok h n (xs @ SendOp i iovs bufs # ys) rv sn"
  shows "ops_ok (Suc h) n (xs @ ys) rv None" "sn = Some i" "length iovs = length bufs"
    "send_bytes xs = []" "send_bytes ys = []"
  using assms send_bytes_none [of xs] send_bytes_none [of ys]
  by (auto simp: ops_ok_def append_eq_Cons_conv split: option.splits if_splits)

lemma ops_ok_recv_done:
  assumes "ops_ok h n (xs @ RecvOp i # ys) rv sn"
  shows "ops_ok (Suc h) n (xs @ ys) None sn" "rv = Some i"
  using assms by (auto simp: ops_ok_def append_eq_Cons_conv split: option.splits if_splits)

lemma ops_ok_other_done:
  assumes "ops_ok h n (xs @ op # ys) rv sn" "\<not> is_recv op" "\<not> is_send op"
  shows "ops_ok (Suc h) n (xs @ ys) rv sn"
  using assms by (auto simp: ops_ok_def)

lemma ops_ok_complete: "ops_ok (Suc h) n ops rv sn \<Longrightarrow> n > 0 \<and> ops_ok h (n - 1) ops rv sn"
  by (auto simp: ops_ok_def)

section \<open>The contract of the callbacks\<close>

text \<open>
  A callback touches the session only through its public operations, so it keeps the invariant
  in whatever context it runs, and it never adds to the paused chunks. \<open>Session_Apps\<close> shows the
  contract for every derived class whose callbacks are sequences of public calls.
\<close>

locale session_app =
  fixes e :: env and a :: "'a app"
  assumes OnRecv_inv: "session_inv c s \<Longrightarrow> session_inv c (app_OnRecv a d s)"
    and OnConnected_inv: "session_inv c s \<Longrightarrow> session_inv c (app_OnConnected a s)"
    and OnDisconnected_inv: "session_inv c s \<Longrightarrow> session_inv c (app_OnDisconnected a s)"
    and OnSocketDrained_inv: "session_inv c s \<Longrightarrow> session_inv c (app_OnSocketDrained a s)"
    and OnBackpressure_inv: "session_inv c s \<Longrightarrow> session_inv c (app_OnBackpressure a b s)"
    and OnTimeoutTick_inv: "session_inv c s \<Longrightarrow> session_inv c (snd (app_OnTimeoutTick a t s))"
    and OnRecv_paused: "length (paused_recv_queue (app_OnRecv a d s)) \<le> length (paused_recv_queue s)"
    and OnDisconnected_paused: "length (paused_recv_queue (app_OnDisconnected a s)) \<le> length (paused_recv_queue s)"
    and OnBackpressure_paused: "length (paused_recv_queue (app_OnBackpressure a b s)) \<le> length (paused_recv_queue s)"
begin

lemma TryRelease_inv:
  assumes "core_inv c s"
  shows "session_inv c (TryRelease a s)"
proof (cases "session_state s = kOpen \<or> session_state s = kClosed \<or> pending_io s \<noteq> 0 \<or> pending_app_io s \<noteq> 0")
  case True
  then have "TryRelease a s = s"
    by (auto simp: TryRelease_def ClosingStarted_def TryMarkClosedOnOwner_def)
  with True assms show ?thesis by (auto simp: session_inv_def settled_def)
next
  case False
  let ?s1 = "s\<lparr>session_state := kClosed, disconnected_calls := Suc (disconnected_calls s)\<rparr>"
  let ?s2 = "app_OnDisconnected a ?s1"
  have "session_inv (c\<lparr>releasing := True\<rparr>) ?s1" and rel: "\<not> releasing c"
    using assms False by (auto simp: session_inv_def core_inv_def settled_def life_ok_def split: if_splits)
  then have "session_inv (c\<lparr>releasing := True\<rparr>) ?s2"
    by (intro OnDisconnected_inv)
  then have "session_inv c (?s2\<lparr>release_calls := Suc (release_calls ?s2)\<rparr>)"
    using rel by (simp add: session_inv_def core_inv_def life_ok_def)
  moreover have "TryRelease a s = ?s2\<lparr>release_calls := Suc (release_calls ?s2)\<rparr>"
    using False by (simp add: TryRelease_def ClosingStarted_def TryMarkClosedOnOwner_def Let_def)
  ultimately show ?thesis by simp
qed

lemma TryRelease_not_open:
  assumes "core_inv c s" "session_state s \<noteq> kOpen"
  shows "session_state (TryRelease a s) \<noteq> kOpen"
proof (cases "session_state s = kClosed \<or> pending_io s \<noteq> 0 \<or> pending_app_io s \<noteq> 0")
  case True
  then have "TryRelease a s = s"
    by (auto simp: TryRelease_def ClosingStarted_def TryMarkClosedOnOwner_def)
  with assms show ?thesis by simp
next
  case False
  let ?s1 = "s\<lparr>session_state := kClosed, disconnected_calls := Suc (disconnected_calls s)\<rparr>"
  have "session_inv (c\<lparr>releasing := True\<rparr>) ?s1"
    using assms False by (auto simp: session_inv_def core_inv_def settled_def life_ok_def split: if_splits)
  then have "session_inv (c\<lparr>releasing := True\<rparr>) (app_OnDisconnected a ?s1)"
    by (intro OnDisconnected_inv)
  then have "session_state (app_OnDisconnected a ?s1) = kClosed"
    by (auto simp: session_inv_def core_inv_def life_ok_def split: if_splits)
  moreover have "session_state (TryRelease a s) = session_state (app_OnDisconnected a ?s1)"
    using False assms by (simp add: TryRelease_def ClosingStarted_def TryMarkClosedOnOwner_def Let_def)
  ultimately show ?thesis by simp
qed

lemma DisconnectOnOwner_core:
  assumes True: "session_state s = kOpen" and s1: "core_inv c (s\<lparr>session_state := kClosing\<rparr>)"
  shows "session_inv c (DisconnectOnOwner e a s) \<and> session_state (DisconnectOnOwner e a s) \<noteq> kOpen"
proof -
  let ?s1 = "s\<lparr>session_state := kClosing\<rparr>"
  obtain sqe s4 where p: "prep e (DisconnectOp (asked s)) (BeginPendingIo (ask ?s1)) = (sqe, s4)"
    by fastforce
  show ?thesis
  proof (cases "alloc_ok e (asked s)")
    case False
    then show ?thesis using True s1
      by (simp add: DisconnectOnOwner_def TryBeginDisconnectOnOwner_def new_op_def Let_def TryRelease_inv TryRelease_not_open [of c])
  next
    case ok: True
    show ?thesis
    proof (cases sqe)
      case False
      then show ?thesis using True s1 ok p prep_refused [of e _ "ask ?s1" s4]
        by (simp add: DisconnectOnOwner_def TryBeginDisconnectOnOwner_def new_op_def Let_def TryRelease_inv TryRelease_not_open [of c])
    next
      case sqe: True
      with p have s4: "s4 = ask ((ask ?s1)\<lparr>pending_io := Suc (pending_io (ask ?s1)),
          inflight := inflight (ask ?s1) @ [DisconnectOp (asked s)]\<rparr>)"
        by (intro prep_accepted) simp
      then have "core_inv c s4" "session_state s4 \<noteq> kClosed"
        using core_inv_add_op [of c "ask ?s1"] s1 by simp_all
      then have "core_inv c (MarkDrainingOnOwner (cancel_recv e s4))"
        by (intro core_inv_draining) (simp add: cancel_recv_core)
      moreover have "session_state (MarkDrainingOnOwner (cancel_recv e s4)) \<noteq> kOpen"
        using cancel_recv_core [OF \<open>core_inv c s4\<close> \<open>session_state s4 \<noteq> kClosed\<close>, of e] s4
        by (simp add: MarkDrainingOnOwner_def)
      ultimately show ?thesis using True ok p sqe
        by (simp add: DisconnectOnOwner_def TryBeginDisconnectOnOwner_def new_op_def Let_def TryRelease_inv TryRelease_not_open [of c])
    qed
  qed
qed

lemma DisconnectOnOwner_both:
  assumes inv: "session_inv c s"
  shows "session_inv c (DisconnectOnOwner e a s) \<and> session_state (DisconnectOnOwner e a s) \<noteq> kOpen"
proof (cases "session_state s = kOpen")
  case False
  then show ?thesis using inv
    by (simp add: DisconnectOnOwner_def TryBeginDisconnectOnOwner_def)
next
  case True
  then show ?thesis
    using DisconnectOnOwner_core [OF True core_inv_closing [OF session_inv_core [OF inv] True]] by simp
qed

lemmas DisconnectOnOwner_inv = DisconnectOnOwner_both [THEN conjunct1]

text \<open>After a disconnect nothing is owed to the streams any more.\<close>

lemma DisconnectOnOwner_any_ctx:
  assumes "session_inv c' s" "held c' = held c" "releasing c' = releasing c" "set (hand c) \<subseteq> set (hand c')"
  shows "session_inv c (DisconnectOnOwner e a s)"
  using DisconnectOnOwner_both [OF assms(1)] assms(2-) by (intro session_inv_closed_ctx [of _ c c']) simp_all

lemma TryDisconnectAfterFlush_inv:
  "session_inv c s \<Longrightarrow> session_inv c (TryDisconnectAfterFlush e a s)"
  by (simp add: TryDisconnectAfterFlush_def DisconnectOnOwner_inv)

lemma DisconnectAfterFlushOnOwner_inv:
  assumes "session_inv c s"
  shows "session_inv c (DisconnectAfterFlushOnOwner e a s)"
proof -
  have "session_inv c (s\<lparr>disconnect_after_flush := True\<rparr>)"
    using assms by (simp add: session_inv_def core_inv_def)
  with assms show ?thesis
    by (simp add: DisconnectAfterFlushOnOwner_def TryDisconnectAfterFlush_inv)
qed

lemma RegisterRecv_kick:
  assumes inv: "session_inv (c\<lparr>recv_kick := True\<rparr>) s"
  shows "session_inv c (RegisterRecv e a s)"
proof (cases "session_state s = kOpen \<and> \<not> recv_paused s \<and> active_recv_ev s = None")
  case False
  have "session_inv c s"
  proof (cases "session_state s = kOpen")
    case True
    with inv False show ?thesis by (simp add: session_inv_def core_inv_def inbound_ok_def) blast
  next
    case False
    from session_inv_closed_ctx [OF this _ _ _ inv] show ?thesis by simp
  qed
  moreover have "RegisterRecv e a s = s"
    using False by (auto simp: RegisterRecv_def CanUseOnOwner_def)
  ultimately show ?thesis by simp
next
  case True
  obtain sqe s3 where p: "prep e (RecvOp (asked s)) (BeginPendingIo (ask s)) = (sqe, s3)" by fastforce
  have d1: "session_inv c (DisconnectOnOwner e a (ask s))"
    by (rule DisconnectOnOwner_any_ctx [of "c\<lparr>recv_kick := True\<rparr>"]) (simp_all add: inv)
  have d2: "session_inv c (DisconnectOnOwner e a (ask (ask s)))"
    by (rule DisconnectOnOwner_any_ctx [of "c\<lparr>recv_kick := True\<rparr>"]) (simp_all add: inv)
  show ?thesis
  proof (cases "alloc_ok e (asked s)")
    case False
    then show ?thesis using True d1
      by (simp add: RegisterRecv_def CanUseOnOwner_def new_op_def Let_def)
  next
    case ok: True
    show ?thesis
    proof (cases sqe)
      case False
      then show ?thesis using True ok p d2 prep_refused [of e _ "ask s" s3]
        by (simp add: RegisterRecv_def CanUseOnOwner_def new_op_def Let_def)
    next
      case sqe: True
      with p have s3: "s3 = ask ((ask s)\<lparr>pending_io := Suc (pending_io (ask s)),
          inflight := inflight (ask s) @ [RecvOp (asked s)]\<rparr>)"
        by (intro prep_accepted) simp
      have "RegisterRecv e a s = s3\<lparr>active_recv_ev := Some (asked s)\<rparr>"
        using True ok p sqe by (simp add: RegisterRecv_def CanUseOnOwner_def new_op_def Let_def)
      moreover have "session_inv c (s\<lparr>pending_io := Suc (pending_io s),
          inflight := inflight s @ [RecvOp (asked s)], active_recv_ev := Some (asked s)\<rparr>)"
        using inv True by (intro session_inv_add_recv) simp_all
      ultimately show ?thesis by (simp add: s3 ask_def session_inv_def core_inv_def)
    qed
  qed
qed

lemma RegisterRecv_inv: "session_inv c s \<Longrightarrow> session_inv c (RegisterRecv e a s)"
  by (rule RegisterRecv_kick) (rule session_inv_weaken)

text \<open>Draining the paused chunks.\<close>

lemma drain_paused_inv:
  "session_inv (c\<lparr>draining := True\<rparr>) s \<Longrightarrow> session_inv (c\<lparr>draining := True\<rparr>) (drain_paused n a s)"
proof (induction n arbitrary: s)
  case 0
  then show ?case by simp
next
  case (Suc n)
  show ?case
  proof (cases "session_state s = kOpen \<and> \<not> recv_paused s \<and> paused_recv_queue s \<noteq> []")
    case False
    then have "drain_paused (Suc n) a s = s"
      by (auto simp: CanUseOnOwner_def split: list.splits)
    with Suc.prems show ?thesis by simp
  next
    case True
    then obtain chunk rest where q: "paused_recv_queue s = chunk # rest"
      by (auto simp: neq_Nil_conv)
    let ?s = "s\<lparr>paused_recv_queue := rest, paused_recv_bytes := paused_recv_bytes s - length chunk,
                delivered := delivered s @ chunk\<rparr>"
    have "session_inv (c\<lparr>draining := True\<rparr>) ?s"
      using open_invD [OF Suc.prems] True q
      by (intro open_invI) (simp_all, auto simp: paused_ok_def inbound_ok_def)
    then have "session_inv (c\<lparr>draining := True\<rparr>) (app_OnRecv a chunk ?s)"
      by (rule OnRecv_inv)
    from Suc.IH [OF this] True q show ?thesis
      by (simp add: CanUseOnOwner_def deliver_def)
  qed
qed

lemma drain_paused_done:
  "length (paused_recv_queue s) \<le> n \<Longrightarrow>
     \<not> (session_state (drain_paused n a s) = kOpen \<and> \<not> recv_paused (drain_paused n a s) \<and>
        paused_recv_queue (drain_paused n a s) \<noteq> [])"
proof (induction n arbitrary: s)
  case 0
  then show ?case by simp
next
  case (Suc n)
  show ?case
  proof (cases "session_state s = kOpen \<and> \<not> recv_paused s \<and> paused_recv_queue s \<noteq> []")
    case False
    then have "drain_paused (Suc n) a s = s"
      by (auto simp: CanUseOnOwner_def split: list.splits)
    with False show ?thesis by simp
  next
    case True
    then obtain chunk rest where q: "paused_recv_queue s = chunk # rest"
      by (auto simp: neq_Nil_conv)
    let ?s = "s\<lparr>paused_recv_queue := rest, paused_recv_bytes := paused_recv_bytes s - length chunk\<rparr>"
    have "length (paused_recv_queue (deliver a chunk ?s)) \<le> n"
      using OnRecv_paused [of chunk "?s\<lparr>delivered := delivered ?s @ chunk\<rparr>"] Suc.prems q
      by (simp add: deliver_def)
    from Suc.IH [OF this] True q show ?thesis by (simp add: CanUseOnOwner_def)
  qed
qed

text \<open>The drain loop of the code ends, and with it the debt it had.\<close>

lemma DrainPausedRecv_inv:
  assumes "session_inv (c\<lparr>draining := True\<rparr>) s"
  shows "session_inv c (DrainPausedRecv a s)"
proof -
  let ?t = "DrainPausedRecv a s"
  have inv: "session_inv (c\<lparr>draining := True\<rparr>) ?t"
    unfolding DrainPausedRecv_def by (rule drain_paused_inv [OF assms])
  have don: "\<not> (session_state ?t = kOpen \<and> \<not> recv_paused ?t \<and> paused_recv_queue ?t \<noteq> [])"
    unfolding DrainPausedRecv_def by (rule drain_paused_done) simp
  show ?thesis
  proof (cases "session_state ?t = kOpen")
    case True
    then show ?thesis using open_invD [OF inv True] don
      by (intro open_invI) (simp_all, auto simp: inbound_ok_def)
  next
    case False
    then show ?thesis using inv by (intro session_inv_closed_ctx [OF _ _ _ _ inv]) simp_all
  qed
qed

lemma resume_inv:
  assumes "session_inv c s"
  shows "session_inv c (RegisterRecv e a (DrainPausedRecv a (s\<lparr>recv_paused := False\<rparr>)))"
proof -
  let ?c = "c\<lparr>recv_kick := True\<rparr>"
  have "session_inv (?c\<lparr>draining := True\<rparr>) (s\<lparr>recv_paused := False\<rparr>)"
  proof (cases "session_state s = kOpen")
    case True
    then show ?thesis using open_invD [OF assms True]
      by (intro open_invI) (simp_all add: stream_ok_def inbound_ok_def)
  next
    case False
    then show ?thesis using assms by (simp add: session_inv_def core_inv_def)
  qed
  then have "session_inv ?c (DrainPausedRecv a (s\<lparr>recv_paused := False\<rparr>))"
    by (rule DrainPausedRecv_inv)
  then show ?thesis by (rule RegisterRecv_kick)
qed

lemma pause_inv: "session_inv c s \<Longrightarrow> session_inv c (s\<lparr>recv_paused := True\<rparr>)"
  by (simp add: session_inv_def core_inv_def inbound_ok_def)

lemma PauseRecvOnOwner_inv: "session_inv c s \<Longrightarrow> session_inv c (PauseRecvOnOwner s)"
  by (simp add: PauseRecvOnOwner_def pause_inv)

lemma ResumeRecvOnOwner_inv: "session_inv c s \<Longrightarrow> session_inv c (ResumeRecvOnOwner e a s)"
  by (simp add: ResumeRecvOnOwner_def resume_inv)

text \<open>Back-pressure.\<close>

lemma enter_backpressure_inv:
  assumes "session_inv c s"
  shows "session_inv c (enter_backpressure e a s)"
proof -
  let ?s1 = "(ask (s\<lparr>backpressure_active := True\<rparr>))\<lparr>last_backpressure_high := clock e (asked s)\<rparr>"
  have "session_inv c ?s1"
    using assms by (simp add: ask_def session_inv_def core_inv_def)
  then have "session_inv c (app_OnBackpressure a True ?s1)"
    by (rule OnBackpressure_inv)
  then show ?thesis
    by (simp add: enter_backpressure_def now_def Let_def pause_inv DisconnectOnOwner_inv)
qed

lemma leave_backpressure_inv:
  assumes "session_inv c s"
  shows "session_inv c (leave_backpressure e a s)"
proof -
  have "session_inv c (s\<lparr>backpressure_active := False, last_backpressure_high := 0\<rparr>)"
    using assms by (simp add: session_inv_def core_inv_def)
  then have "session_inv c (app_OnBackpressure a False (s\<lparr>backpressure_active := False, last_backpressure_high := 0\<rparr>))"
    by (rule OnBackpressure_inv)
  then show ?thesis by (simp add: leave_backpressure_def Let_def resume_inv)
qed

lemma UpdateBackpressure_inv: "session_inv c s \<Longrightarrow> session_inv c (UpdateBackpressure e a st s)"
  by (simp add: UpdateBackpressure_def enter_backpressure_inv leave_backpressure_inv)

text \<open>Sending.\<close>

lemma SendInFlightBatch_inv:
  assumes inv: "session_inv (c\<lparr>hand := bufs, send_kick := True\<rparr>) s" and op: "session_state s = kOpen"
    and bufs: "bufs \<noteq> []" and hand: "hand c = []"
  shows "session_inv c (SendInFlightBatch e a i bufs s)"
proof -
  let ?c = "c\<lparr>hand := bufs, send_kick := True\<rparr>"
  have "None \<notin> set bufs" "\<not> faulted s"
    using open_invD(5) [OF inv op] by (simp_all add: queue_ok_def)
  then have same: "s\<lparr>faulted := faulted s \<or> None \<in> set bufs\<rparr> = s" by simp
  obtain sqe s3 where p: "prep e (SendOp i (map ref_bytes bufs) bufs) (BeginPendingIo s) = (sqe, s3)"
    by fastforce
  show ?thesis
  proof (cases sqe)
    case False
    then have "SendInFlightBatch e a i bufs s = DisconnectOnOwner e a (ask s)"
      using p op bufs prep_refused [of e _ s s3] same
      by (simp add: SendInFlightBatch_def CanUseOnOwner_def Let_def)
    then show ?thesis using inv hand by (simp add: DisconnectOnOwner_any_ctx [of ?c])
  next
    case True
    then have "SendInFlightBatch e a i bufs s = s3\<lparr>active_send_ev := Some i\<rparr>"
      using p op bufs same by (simp add: SendInFlightBatch_def CanUseOnOwner_def Let_def)
    moreover have "s3 = ask (s\<lparr>pending_io := Suc (pending_io s),
        inflight := inflight s @ [SendOp i (map ref_bytes bufs) bufs]\<rparr>)"
      using p True by (intro prep_accepted) simp
    moreover note session_inv_add_send [OF inv op bufs hand, of i]
    ultimately show ?thesis by (simp add: ask_def session_inv_def core_inv_def)
  qed
qed

lemma SendBatch_inv:
  assumes inv: "session_inv (c\<lparr>hand := bufs, send_kick := True\<rparr>) s" and bufs: "bufs \<noteq> []" and hand: "hand c = []"
  shows "session_inv c (SendBatch e a bufs s)"
proof (cases "session_state s = kOpen")
  case False
  then have "SendBatch e a bufs s = s" by (simp add: SendBatch_def CanUseOnOwner_def)
  then show ?thesis using session_inv_closed_ctx [OF False _ _ _ inv, of c] hand by simp
next
  case True
  let ?c = "c\<lparr>hand := bufs, send_kick := True\<rparr>"
  have none: "active_send_ev s = None"
    using open_invD(7) [OF inv True] bufs by (simp add: stream_ok_def)
  show ?thesis
  proof (cases "alloc_ok e (asked s)")
    case False
    then have "SendBatch e a bufs s = DisconnectOnOwner e a (ask s)"
      using True none bufs by (simp add: SendBatch_def CanUseOnOwner_def new_op_def Let_def)
    then show ?thesis using inv hand by (simp add: DisconnectOnOwner_any_ctx [of ?c])
  next
    case ok: True
    then have "SendBatch e a bufs s = SendInFlightBatch e a (asked s) bufs (ask s)"
      using True none bufs by (simp add: SendBatch_def CanUseOnOwner_def new_op_def Let_def)
    then show ?thesis using SendInFlightBatch_inv [where c = c and s = "ask s" and bufs = bufs] inv True bufs hand by simp
  qed
qed

text \<open>Taking a batch off the queue, telling the application, and sending it.\<close>

lemma session_inv_drain:
  assumes inv: "session_inv (c\<lparr>send_kick := True\<rparr>) s" and op: "session_state s = kOpen"
    and none: "active_send_ev s = None" and hand: "hand c = []"
    and d: "DrainInto k (send_queue s) = (bufs, q)" "bufs \<noteq> []"
  shows "session_inv (c\<lparr>hand := bufs, send_kick := True\<rparr>) (s\<lparr>send_queue := q\<rparr>)"
proof -
  note parts = open_invD [OF inv op]
  have q: "pending (send_queue s) = bufs @ pending q" "registered q = registered (send_queue s)"
    using DrainInto_split [OF d(1)] DrainInto_fields [OF d(1)] by simp_all
  have "sq_inv q" using DrainInto_inv [of "send_queue s" k] parts(5) d(1) by (simp add: queue_ok_def)
  moreover have "registered (send_queue s)"
    using parts(5) q(1) d(2) by (simp add: queue_ok_def sq_inv_def)
  ultimately show ?thesis using parts op q d(2) hand none
    by (intro open_invI) (simp_all, auto simp: stream_ok_def queue_ok_def)
qed

lemma session_inv_drain_closed:
  assumes inv: "session_inv (c\<lparr>send_kick := True\<rparr>) s" and cl: "session_state s \<noteq> kOpen"
    and d: "DrainInto k (send_queue s) = (bufs, q)"
  shows "session_inv (c\<lparr>hand := bufs, send_kick := True\<rparr>) (s\<lparr>send_queue := q\<rparr>)"
proof -
  have "sq_inv (send_queue s) \<Longrightarrow> sq_inv q" using DrainInto_inv [of "send_queue s" k] d by simp
  then show ?thesis using inv cl DrainInto_split [OF d]
    by (simp add: session_inv_def core_inv_def queue_ok_def)
qed

lemma drain_and_send_inv:
  assumes "session_inv (c\<lparr>send_kick := True\<rparr>) s"
    "active_send_ev s = None" "hand c = []" "DrainInto k (send_queue s) = (bufs, q)" "bufs \<noteq> []"
  shows "session_inv c (SendBatch e a bufs (UpdateBackpressure e a st (s\<lparr>send_queue := q\<rparr>)))"
proof -
  have "session_inv (c\<lparr>hand := bufs, send_kick := True\<rparr>) (s\<lparr>send_queue := q\<rparr>)"
    using assms session_inv_drain session_inv_drain_closed by (cases "session_state s = kOpen") blast+
  then show ?thesis using assms(3,5) by (intro SendBatch_inv UpdateBackpressure_inv)
qed

lemma session_inv_no_kick:
  assumes inv: "session_inv (c\<lparr>send_kick := True\<rparr>) s" and hand: "hand c = []"
    and now: "session_state s = kOpen \<Longrightarrow> active_send_ev s \<noteq> None \<or> pending (send_queue s) = []"
  shows "session_inv c s"
proof (cases "session_state s = kOpen")
  case True
  then show ?thesis using open_invD [OF inv True] hand now
    by (intro open_invI) (simp_all, auto simp: stream_ok_def)
next
  case False
  then show ?thesis using session_inv_closed_ctx [OF False _ _ _ inv, of c] by simp
qed

lemma RegisterSend_inv:
  assumes inv: "session_inv (c\<lparr>send_kick := True\<rparr>) s" and hand: "hand c = []"
  shows "session_inv c (RegisterSend e a s)"
proof (cases "session_state s = kOpen \<and> active_send_ev s = None")
  case False
  then have "RegisterSend e a s = s" by (auto simp: RegisterSend_def CanUseOnOwner_def)
  then show ?thesis using session_inv_no_kick [OF inv hand] False by simp
next
  case True
  obtain bufs q where d: "DrainInto kMaxSendIovecs (send_queue s) = (bufs, q)" by fastforce
  show ?thesis
  proof (cases "bufs = []")
    case nil: True
    then have "pending (send_queue s) = []" using DrainInto_empty_iff [OF d] by simp
    then have "RegisterSend e a s = s"
      using True d nil by (auto simp: RegisterSend_def CanUseOnOwner_def DrainInto_def)
    then show ?thesis using session_inv_no_kick [OF inv hand] \<open>pending (send_queue s) = []\<close> by simp
  next
    case False
    then have "RegisterSend e a s = SendBatch e a bufs (UpdateBackpressure e a (Snapshot q) (s\<lparr>send_queue := q\<rparr>))"
      using True d by (simp add: RegisterSend_def CanUseOnOwner_def)
    then show ?thesis using drain_and_send_inv [OF inv _ hand d False] True by simp
  qed
qed

lemma Push_cases:
  assumes "Push buf q = (r, q')"
  obtains "overflowed r" "q' = q\<lparr>overflow_count := overflow_count q + 1\<rparr>"
  | "\<not> overflowed r" "pending q' = pending q @ [buf]" "registered q'" "needs_register r \<longleftrightarrow> \<not> registered q"
  using assms by (auto simp: Push_def Let_def split: if_splits)

lemma session_inv_push:
  assumes inv: "session_inv c s" and op: "session_state s = kOpen" and buf: "buf \<noteq> None"
    and p: "Push buf (send_queue s) = (r, q)" "\<not> overflowed r"
  shows "session_inv (if needs_register r then c\<lparr>send_kick := True\<rparr> else c)
           (s\<lparr>send_queue := q, accepted := accepted s @ ref_bytes buf\<rparr>)"
    "needs_register r \<Longrightarrow> hand c = []"
proof -
  note parts = open_invD [OF inv op]
  have q: "pending q = pending (send_queue s) @ [buf]" "registered q" "needs_register r \<longleftrightarrow> \<not> registered (send_queue s)"
    using Push_cases [OF p(1)] p(2) by blast+
  have "sq_inv q" using Push_inv [of "send_queue s" buf] parts(5) p(1) by (simp add: queue_ok_def)
  then show "session_inv (if needs_register r then c\<lparr>send_kick := True\<rparr> else c)
      (s\<lparr>send_queue := q, accepted := accepted s @ ref_bytes buf\<rparr>)"
    using parts op q buf by (intro open_invI) (simp_all, auto simp: stream_ok_def queue_ok_def)
  show "hand c = []" if "needs_register r"
    using that q(3) parts(7) by (auto simp: stream_ok_def)
qed

lemma SendOnOwner_inv:
  assumes inv: "session_inv c s" and buf: "buf \<noteq> None"
  shows "session_inv c (snd (SendOnOwner e a buf s))"
proof (cases "session_state s = kOpen")
  case False
  then show ?thesis using inv by (simp add: SendOnOwner_def CanUseOnOwner_def)
next
  case True
  obtain r q where p: "Push buf (send_queue s) = (r, q)" by fastforce
  let ?s1 = "s\<lparr>send_queue := q, accepted := accepted s @ ref_bytes buf\<rparr>"
  show ?thesis
  proof (cases "overflowed r")
    case ov: True
    then have "q = send_queue s\<lparr>overflow_count := overflow_count (send_queue s) + 1\<rparr>"
      using Push_cases [OF p] by blast
    then have "session_inv c (s\<lparr>send_queue := q\<rparr>)"
      using inv by (simp add: session_inv_def core_inv_def queue_ok_def sq_inv_def stream_ok_def)
    then show ?thesis using True p ov
      by (simp add: SendOnOwner_def CanUseOnOwner_def DisconnectOnOwner_inv)
  next
    case ok: False
    note push = session_inv_push [OF inv True buf p ok]
    have "SendOnOwner e a buf s = (None, if needs_register r
        then RegisterSend e a (UpdateBackpressure e a (Snapshot q) ?s1)
        else UpdateBackpressure e a (Snapshot q) ?s1)"
      using True p ok by (simp add: SendOnOwner_def CanUseOnOwner_def Let_def)
    then show ?thesis
      using push by (simp add: RegisterSend_inv UpdateBackpressure_inv split: if_splits)
  qed
qed

text \<open>Completions of shutdown and cancel, and of any operation once the session is closing.\<close>

lemma complete_core:
  assumes "ops_ok (Suc (held c)) (pending_io s) (inflight s) (active_recv_ev s) (active_send_ev s)"
    "life_ok (releasing c) (pending_io s) (session_state s) (disconnected_calls s) (release_calls s)"
    "queue_ok (hand c) (send_queue s) (faulted s) (posted s)"
    "paused_ok (paused_recv_byte_limit s) (paused_recv_bytes s) (paused_recv_queue s)"
    "session_state s = kOpen \<Longrightarrow>
       stream_ok (hand c) (send_kick c) (send_queue s) (inflight s) (active_send_ev s) (accepted s) (wire s)"
    "session_state s = kOpen \<Longrightarrow>
       inbound_ok (draining c) (recv_kick c) (received s) (delivered s) (paused_recv_queue s) (recv_paused s) (active_recv_ev s)"
  shows "core_inv c (CompletePendingIo s)"
  using assms ops_ok_complete [OF assms(1)]
  by (simp add: core_inv_def CompletePendingIo_def) (simp add: life_ok_def)

lemma life_ok_busy: "life_ok r n st d l \<Longrightarrow> n > 0 \<Longrightarrow> st \<noteq> kClosed"
  by (auto simp: life_ok_def)

lemma OnDisconnect_inv:
  assumes inv: "session_inv c s" and ops: "inflight s = xs @ op # ys" "\<not> is_recv op" "\<not> is_send op"
  shows "session_inv c (TryRelease a (CompletePendingIo (s\<lparr>inflight := xs @ ys\<rparr>)))"
proof (rule TryRelease_inv, rule complete_core)
  have core: "core_inv c s" using inv by (rule session_inv_core)
  then show "ops_ok (Suc (held c)) (pending_io (s\<lparr>inflight := xs @ ys\<rparr>)) (inflight (s\<lparr>inflight := xs @ ys\<rparr>))
      (active_recv_ev (s\<lparr>inflight := xs @ ys\<rparr>)) (active_send_ev (s\<lparr>inflight := xs @ ys\<rparr>))"
    using ops_ok_other_done [OF _ ops(2,3)] ops(1) by (simp add: core_inv_def)
  have sb: "send_bytes (op # ys) = send_bytes ys" using ops(3) by (cases op) simp_all
  show "stream_ok (hand c) (send_kick c) (send_queue (s\<lparr>inflight := xs @ ys\<rparr>)) (inflight (s\<lparr>inflight := xs @ ys\<rparr>))
      (active_send_ev (s\<lparr>inflight := xs @ ys\<rparr>)) (accepted (s\<lparr>inflight := xs @ ys\<rparr>)) (wire (s\<lparr>inflight := xs @ ys\<rparr>))"
    if "session_state (s\<lparr>inflight := xs @ ys\<rparr>) = kOpen"
    using core that by (simp add: core_inv_def stream_ok_def ops(1) sb)
qed (use session_inv_core [OF inv] in \<open>simp_all add: core_inv_def\<close>)

text \<open>Send completions.\<close>

lemma after_full_send_inv:
  assumes inv: "session_inv (c\<lparr>send_kick := True\<rparr>) (CompletePendingIo (s\<lparr>send_queue := MarkSent (send_queue s)\<rparr>))"
    and hand: "hand c = []"
  shows "session_inv c (after_full_send e a s)"
proof -
  define s1 where "s1 = CompletePendingIo (s\<lparr>send_queue := MarkSent (send_queue s)\<rparr>)"
  define s4 where "s4 = TryDisconnectAfterFlush e a (app_OnSocketDrained a (UpdateBackpressure e a (Snapshot (send_queue s1)) s1))"
  have inv4: "session_inv (c\<lparr>send_kick := True\<rparr>) s4"
    unfolding s4_def using inv by (intro TryDisconnectAfterFlush_inv OnSocketDrained_inv UpdateBackpressure_inv)
      (simp add: s1_def)
  obtain bufs q where d: "DrainInto kMaxSendIovecs (send_queue s4) = (bufs, q)" by fastforce
  have same: "bufs = [] \<Longrightarrow> s4\<lparr>send_queue := q\<rparr> = s4 \<and> pending (send_queue s4) = []"
    using d DrainInto_empty_iff [OF d] by (auto simp: DrainInto_def)
  have res: "after_full_send e a s = (if active_send_ev s4 \<noteq> None then s4
      else if bufs \<noteq> [] then SendBatch e a bufs (UpdateBackpressure e a (Snapshot q) (s4\<lparr>send_queue := q\<rparr>))
      else TryDisconnectAfterFlush e a (s4\<lparr>send_queue := q\<rparr>))"
    by (simp add: after_full_send_def s1_def [symmetric] s4_def [symmetric] d Let_def)
  consider "active_send_ev s4 \<noteq> None" | "active_send_ev s4 = None" "bufs = []"
    | "active_send_ev s4 = None" "bufs \<noteq> []" by blast
  then show ?thesis
  proof cases
    case 1
    then show ?thesis using res session_inv_no_kick [OF inv4 hand] by simp
  next
    case 2
    then have "session_inv c s4" using session_inv_no_kick [OF inv4 hand] same by simp
    then show ?thesis using res 2 same by (simp add: TryDisconnectAfterFlush_inv)
  next
    case 3
    then show ?thesis using res drain_and_send_inv [OF inv4 _ hand d] by simp
  qed
qed

lemma length_concat_iovs: "sum_list (map length iovs) = length (concat iovs)"
  by (simp add: length_concat)

lemma MarkSent_fields:
  "registered (MarkSent q) \<longleftrightarrow> registered q \<and> pending q \<noteq> []" "sq_inv q \<Longrightarrow> sq_inv (MarkSent q)"
  by (auto simp: MarkSent_def MarkSent_inv sq_inv_def)

lemma resume_send_inv:
  assumes inv: "session_inv idle t" and op: "session_state t = kOpen"
    and ops: "ops_ok 1 (pending_io t) (xs @ ys) (active_recv_ev t) None"
    and len: "length iovs = length bufs"
    and str: "stream_ok [] False (send_queue t) (xs @ ys @ [SendOp i iovs bufs]) (Some i) (accepted t) w"
    and cl: "core_inv idle ((CompletePendingIo (t\<lparr>inflight := xs @ ys, active_send_ev := None, wire := w\<rparr>))\<lparr>session_state := kClosing\<rparr>)"
  shows "session_inv idle (resume_send e a i iovs bufs (t\<lparr>inflight := xs @ ys, active_send_ev := None, wire := w\<rparr>))"
proof -
  let ?s2 = "t\<lparr>inflight := xs @ ys, active_send_ev := None, wire := w\<rparr>"
  show ?thesis
  proof (cases "prep_ok e (asked t)")
    case False
    then have "resume_send e a i iovs bufs ?s2 = DisconnectOnOwner e a (CompletePendingIo (ask ?s2))"
      by (simp add: resume_send_def prep_def)
    moreover have "core_inv idle ((CompletePendingIo (ask ?s2))\<lparr>session_state := kClosing\<rparr>)"
      using cl by (simp add: CompletePendingIo_def ask_def core_inv_def split: if_splits)
    ultimately show ?thesis
      using DisconnectOnOwner_core [of "CompletePendingIo (ask ?s2)" idle] op by (simp add: CompletePendingIo_def)
  next
    case True
    have "ops_ok 0 (pending_io t) (xs @ ys @ [SendOp i iovs bufs]) (active_recv_ev t) (Some i)"
      using ops len by (simp add: ops_ok_def)
    then show ?thesis
      using True open_invD [OF inv op] op str
      by (simp add: resume_send_def prep_def) (intro open_invI, simp_all add: ask_def idle_def)
  qed
qed

lemma full_send_state:
  assumes inv: "session_inv idle t" and op: "session_state t = kOpen"
    and ops: "inflight t = xs @ SendOp i iovs bufs # ys" and act: "active_send_ev t = Some i"
    and pend: "pending_io t > 0 \<and> ops_ok 0 (pending_io t - 1) (xs @ ys) (active_recv_ev t) None"
    and sb: "send_bytes xs = []" "send_bytes ys = []"
  shows "session_inv (idle\<lparr>send_kick := True\<rparr>) (CompletePendingIo (t\<lparr>inflight := xs @ ys, active_send_ev := None,
           wire := wire t @ concat iovs, send_queue := MarkSent (send_queue t)\<rparr>))"
proof -
  note parts = open_invD [OF inv op]
  have "stream_ok [] True (MarkSent (send_queue t)) (xs @ ys) None (accepted t) (wire t @ concat iovs)"
    using parts(7) sb by (simp add: stream_ok_def idle_def ops MarkSent_fields)
  moreover have "queue_ok [] (MarkSent (send_queue t)) (faulted t) (posted t)"
    using parts(5) by (simp add: queue_ok_def idle_def MarkSent_fields)
  ultimately show ?thesis using parts op pend
    by (intro open_invI) (simp_all add: CompletePendingIo_def idle_def)
qed

lemma OnSend_inv:
  assumes inv: "session_inv idle t" and ops: "inflight t = xs @ SendOp i iovs bufs # ys"
  shows "session_inv idle (OnSend e a i iovs bufs res (t\<lparr>inflight := xs @ ys\<rparr>))"
proof -
  have core: "core_inv idle t" using inv by (rule session_inv_core)
  have "ops_ok 0 (pending_io t) (xs @ SendOp i iovs bufs # ys) (active_recv_ev t) (active_send_ev t)"
    using core by (simp add: core_inv_def ops idle_def)
  note sd = ops_ok_send_done [OF this]
  let ?s1 = "t\<lparr>inflight := xs @ ys, active_send_ev := None\<rparr>"
  have ops1: "ops_ok 1 (pending_io t) (xs @ ys) (active_recv_ev t) None" using sd(1) by simp
  note pend = ops_ok_complete [OF ops1 [unfolded One_nat_def]]
  have cl: "core_inv idle ((CompletePendingIo (?s1\<lparr>wire := w\<rparr>))\<lparr>session_state := kClosing\<rparr>)"
    if "session_state t = kOpen" for w
    using core pend that by (simp add: core_inv_def CompletePendingIo_def idle_def life_ok_def)
  show ?thesis
  proof (cases "session_state t = kOpen")
    case False
    have "core_inv idle (CompletePendingIo ?s1)"
      using core pend False by (simp add: core_inv_def CompletePendingIo_def idle_def) (simp add: life_ok_def)
    then have "session_inv idle (TryRelease a (CompletePendingIo ?s1))" by (rule TryRelease_inv)
    then show ?thesis using False sd(2) by (simp add: OnSend_def CanUseOnOwner_def Let_def)
  next
    case True
    let ?w = "wire t @ take (nat res) (concat iovs)"
    let ?s2 = "?s1\<lparr>wire := ?w\<rparr>"
    consider "res < 0" | "res \<ge> 0" "nat res < length (concat iovs)"
      | "res \<ge> 0" "length (concat iovs) \<le> nat res" by linarith
    then show ?thesis
    proof cases
      case 1
      have "(CompletePendingIo (?s1\<lparr>wire := wire t\<rparr>)) = CompletePendingIo ?s1" by (simp add: CompletePendingIo_def)
      then have "session_inv idle (DisconnectOnOwner e a (CompletePendingIo ?s1))"
        using DisconnectOnOwner_core [of "CompletePendingIo ?s1" idle] cl [OF True, of "wire t"] True
        by (simp add: CompletePendingIo_def)
      then show ?thesis using 1 True sd(2) by (simp add: OnSend_def CanUseOnOwner_def Let_def)
    next
      case 2
      obtain iovs' bufs' where adv: "AdvanceSendState iovs bufs (nat res) = (iovs', bufs')" by fastforce
      have "stream_ok [] False (send_queue t) (xs @ ys @ [SendOp i iovs' bufs']) (Some i) (accepted t) ?w"
        using core True sd(2,4,5) AdvanceSendState_bytes [OF adv]
        by (simp add: core_inv_def idle_def ops stream_ok_def)
      then have "session_inv idle (resume_send e a i iovs' bufs' ?s2)"
        using resume_send_inv [OF inv True ops1 _ _ cl [OF True]] AdvanceSendState_lengths [OF adv sd(3)]
        by simp
      then show ?thesis using 2 True sd(2) adv
        by (simp add: OnSend_def CanUseOnOwner_def Let_def length_concat_iovs)
    next
      case 3
      have "session_inv (idle\<lparr>send_kick := True\<rparr>) (CompletePendingIo (?s2\<lparr>send_queue := MarkSent (send_queue t)\<rparr>))"
        using full_send_state [OF inv True ops sd(2)] pend sd(4,5) 3 by simp
      then have "session_inv idle (after_full_send e a ?s2)"
        by (intro after_full_send_inv) (simp_all add: idle_def)
      then show ?thesis using 3 True sd(2)
        by (simp add: OnSend_def CanUseOnOwner_def Let_def length_concat_iovs)
    qed
  qed
qed

text \<open>Receive completions.\<close>

lemma TouchActivity_inv: "session_inv c s \<Longrightarrow> session_inv c (TouchActivity e s)"
  by (simp add: TouchActivity_def now_def ask_def session_inv_def core_inv_def)

lemma TouchActivity_eq: "TouchActivity e s = s\<lparr>last_activity := clock e (asked s), asked := Suc (asked s)\<rparr>"
  by (simp add: TouchActivity_def now_def ask_def)

lemma QueuePausedRecv_cases:
  assumes "QueuePausedRecv d s = (ok, s')"
  shows "\<not> ok \<and> s' = s \<or> ok \<and> d = [] \<and> s' = s \<or>
    ok \<and> (paused_recv_byte_limit s \<noteq> 0 \<longrightarrow> paused_recv_bytes s + length d \<le> paused_recv_byte_limit s) \<and>
      s' = s\<lparr>paused_recv_bytes := paused_recv_bytes s + length d, paused_recv_queue := paused_recv_queue s @ [d]\<rparr>"
  using assms by (auto simp: QueuePausedRecv_def Let_def split: if_splits)

lemma recv_direct_inv:
  assumes inv: "session_inv c s" and op: "session_state s = kOpen" and dr: "\<not> draining c"
    and np: "\<not> recv_paused s"
  shows "session_inv c (s\<lparr>received := received s @ view, last_activity := t, asked := n, delivered := delivered s @ view\<rparr>)"
proof -
  note parts = open_invD [OF inv op]
  have "paused_recv_queue s = []" using parts(8) dr np by (auto simp: inbound_ok_def)
  then show ?thesis using parts op by (intro open_invI) (simp_all, simp add: inbound_ok_def)
qed

lemma recv_queued_inv:
  assumes inv: "session_inv c s" and op: "session_state s = kOpen" and p: "recv_paused s"
    and lim: "paused_recv_byte_limit s \<noteq> 0 \<longrightarrow> paused_recv_bytes s + length view \<le> paused_recv_byte_limit s"
  shows "session_inv c (s\<lparr>received := received s @ view, last_activity := t, asked := n,
     paused_recv_bytes := paused_recv_bytes s + length view, paused_recv_queue := paused_recv_queue s @ [view]\<rparr>)"
proof -
  note parts = open_invD [OF inv op]
  have "paused_ok (paused_recv_byte_limit s) (paused_recv_bytes s + length view) (paused_recv_queue s @ [view])"
    using parts(6) lim by (auto simp: paused_ok_def)
  moreover have "inbound_ok (draining c) (recv_kick c) (received s @ view) (delivered s)
      (paused_recv_queue s @ [view]) (recv_paused s) (active_recv_ev s)"
    using parts(8) p by (simp add: inbound_ok_def)
  ultimately show ?thesis using parts op by (intro open_invI) simp_all
qed

lemma recv_dropped_inv:
  assumes inv: "session_inv c s" and op: "session_state s = kOpen"
  shows "session_inv c (DisconnectOnOwner e a (s\<lparr>received := received s @ view, last_activity := t, asked := n\<rparr>))"
proof -
  have "core_inv c (s\<lparr>received := received s @ view, last_activity := t, asked := n, session_state := kClosing\<rparr>)"
    using open_invD [OF inv op] by (simp add: core_inv_def life_ok_def)
  then show ?thesis
    using DisconnectOnOwner_core [of "s\<lparr>received := received s @ view, last_activity := t, asked := n\<rparr>" c] op by simp
qed

lemma recv_data_inv:
  assumes inv: "session_inv c s" and op: "session_state s = kOpen" and dr: "\<not> draining c"
  shows "session_inv c (recv_data e a view s)"
proof -
  define t n where "t = clock e (asked s)" and "n = Suc (asked s)"
  have t: "TouchActivity e (s\<lparr>received := received s @ view\<rparr>) =
      s\<lparr>received := received s @ view, last_activity := t, asked := n\<rparr>"
    by (simp add: TouchActivity_eq t_def n_def)
  let ?s1 = "s\<lparr>received := received s @ view, last_activity := t, asked := n\<rparr>"
  show ?thesis
  proof (cases "recv_paused s")
    case False
    then show ?thesis using OnRecv_inv [OF recv_direct_inv [OF inv op dr False]]
      by (simp add: recv_data_def t deliver_def)
  next
    case True
    obtain ok s' where q: "QueuePausedRecv view ?s1 = (ok, s')" by fastforce
    have r: "recv_data e a view s = (if \<not> ok then DisconnectOnOwner e a s' else s')"
      using True q by (simp add: recv_data_def t)
    consider "\<not> ok" "s' = ?s1" | "ok" "view = []" "s' = ?s1"
      | "ok" "paused_recv_byte_limit s \<noteq> 0 \<longrightarrow> paused_recv_bytes s + length view \<le> paused_recv_byte_limit s"
        "s' = ?s1\<lparr>paused_recv_bytes := paused_recv_bytes s + length view, paused_recv_queue := paused_recv_queue s @ [view]\<rparr>"
      using QueuePausedRecv_cases [OF q, simplified] by blast
    then show ?thesis
    proof cases
      case 1
      then show ?thesis using r recv_dropped_inv [OF inv op] by simp
    next
      case 2
      have "session_inv c (s\<lparr>last_activity := t, asked := n\<rparr>)"
        using inv by (simp add: session_inv_def core_inv_def)
      then show ?thesis using r 2 by simp
    next
      case 3
      then show ?thesis using r recv_queued_inv [OF inv op True] by simp
    qed
  qed
qed

lemma recv_outcome_more_inv: "session_inv c s \<Longrightarrow> session_inv c (recv_outcome e a True res s)"
  using TryRelease_inv [OF session_inv_core]
  by (simp add: recv_outcome_def DisconnectOnOwner_inv RegisterRecv_inv)

lemma recv_outcome_last_inv:
  assumes core: "core_inv (c\<lparr>recv_kick := True\<rparr>) s"
  shows "session_inv c (recv_outcome e a False res s)"
proof (cases "session_state s = kOpen")
  case False
  then have "core_inv c s" using core by (simp add: core_inv_def)
  then show ?thesis using False TryRelease_inv by (simp add: recv_outcome_def CanUseOnOwner_def)
next
  case True
  let ?c = "c\<lparr>recv_kick := True\<rparr>"
  have inv: "session_inv ?c s" using core True by (rule open_core_inv)
  have "session_inv c s" if "recv_paused s"
    using open_invD [OF inv True] True that by (intro open_invI) (simp_all, simp add: inbound_ok_def)
  then show ?thesis
    using True DisconnectOnOwner_any_ctx [OF inv, of c] RegisterRecv_kick [OF inv]
    by (simp add: recv_outcome_def CanUseOnOwner_def)
qed

lemma returned_bufs_inv: "session_inv c (s\<lparr>returned_bufs := x\<rparr>) \<longleftrightarrow> session_inv c s"
  by (simp add: session_inv_def core_inv_def)

lemma Session_OnRecv_more_inv:
  assumes inv: "session_inv idle t" and m: "flags AND IORING_CQE_F_MORE \<noteq> 0"
  shows "session_inv idle (snd (Session_OnRecv e a res flags view t))"
proof -
  have "session_inv idle (if res > 0 \<and> CanUseOnOwner t then recv_data e a view t else t)"
    using inv recv_data_inv [OF inv] by (simp add: CanUseOnOwner_def idle_def)
  then show ?thesis using m
    by (auto simp: Session_OnRecv_def Let_def returned_bufs_inv intro!: recv_outcome_more_inv)
qed

lemma session_inv_held_complete:
  assumes "session_inv (c\<lparr>held := Suc (held c)\<rparr>) s"
  shows "core_inv c (CompletePendingIo s)"
  using assms by (intro complete_core) (simp_all add: session_inv_def core_inv_def)

lemma recv_op_taken:
  assumes inv: "session_inv idle t" and ops: "inflight t = xs @ RecvOp i # ys"
  shows "session_inv (idle\<lparr>held := 1, recv_kick := True\<rparr>) (t\<lparr>inflight := xs @ ys, active_recv_ev := None\<rparr>)"
proof -
  have core: "core_inv idle t" using inv by (rule session_inv_core)
  then have "ops_ok 0 (pending_io t) (xs @ RecvOp i # ys) (active_recv_ev t) (active_send_ev t)"
    by (simp add: core_inv_def ops idle_def)
  note rd = ops_ok_recv_done [OF this]
  have pos: "pending_io t > 0" using ops_ok_complete [OF rd(1)] by simp
  show ?thesis
  proof (cases "session_state t = kOpen")
    case True
    have "stream_ok [] False (send_queue t) (xs @ ys) (active_send_ev t) (accepted t) (wire t)"
      using open_invD(7) [OF inv True] by (simp add: stream_ok_def idle_def ops)
    moreover have "inbound_ok False True (received t) (delivered t) (paused_recv_queue t) (recv_paused t) None"
      using open_invD(8) [OF inv True] by (simp add: inbound_ok_def idle_def)
    ultimately show ?thesis using open_invD [OF inv True] True rd(1)
      by (intro open_invI) (simp_all add: idle_def)
  next
    case False
    then show ?thesis using core rd(1) pos by (simp add: session_inv_def core_inv_def idle_def settled_def)
  qed
qed

lemma Session_OnRecv_last_inv:
  assumes inv: "session_inv idle t" and ops: "inflight t = xs @ RecvOp i # ys"
    and m: "flags AND IORING_CQE_F_MORE = 0"
  shows "session_inv idle (snd (Session_OnRecv e a res flags view (t\<lparr>inflight := xs @ ys\<rparr>)))"
proof -
  let ?c = "idle\<lparr>held := 1, recv_kick := True\<rparr>"
  define s1 where "s1 = t\<lparr>inflight := xs @ ys, active_recv_ev := None\<rparr>"
  define s2 where "s2 = (if res > 0 \<and> CanUseOnOwner s1 then recv_data e a view s1 else s1)"
  define s3 where "s3 = (if flags AND IORING_CQE_F_BUFFER \<noteq> 0 then s2\<lparr>returned_bufs := returned_bufs s2 @
      [ucast (drop_bit IORING_CQE_BUFFER_SHIFT flags)]\<rparr> else s2)"
  have s1: "session_inv ?c s1" unfolding s1_def by (rule recv_op_taken [OF inv ops])
  then have "session_inv ?c s2"
    using recv_data_inv [OF s1] by (simp add: s2_def CanUseOnOwner_def idle_def)
  then have "session_inv ?c s3" by (simp add: s3_def returned_bufs_inv)
  then have "core_inv (idle\<lparr>recv_kick := True\<rparr>) (CompletePendingIo s3)"
    by (intro session_inv_held_complete) (simp add: idle_def)
  from recv_outcome_last_inv [OF this]
  have "session_inv idle (recv_outcome e a False res (CompletePendingIo s3))" .
  moreover have "snd (Session_OnRecv e a res flags view (t\<lparr>inflight := xs @ ys\<rparr>)) =
      recv_outcome e a False res (CompletePendingIo s3)"
    using m by (simp add: Session_OnRecv_def Let_def s3_def s2_def s1_def)
  ultimately show ?thesis by simp
qed

text \<open>Timers, application I/O, calls from other threads.\<close>

lemma next_check_inv: "session_inv c (s\<lparr>next_timeout_check := x\<rparr>) \<longleftrightarrow> session_inv c s"
  by (simp add: session_inv_def core_inv_def)

lemma Tick_inv:
  assumes inv: "session_inv c s"
  shows "session_inv c (Tick e a t s)"
proof (cases "session_state s = kOpen")
  case False
  then show ?thesis using TryRelease_inv [OF session_inv_core [OF inv]]
    by (simp add: Tick_def CanUseOnOwner_def)
next
  case True
  define ht where "ht = (if timeout_check_interval s > 0 \<and> (next_timeout_check s = 0 \<or> t \<ge> next_timeout_check s)
      then app_OnTimeoutTick a t (s\<lparr>next_timeout_check := t + ms (timeout_check_interval s)\<rparr>) else (False, s))"
  have inv1: "session_inv c (snd ht)"
    using inv OnTimeoutTick_inv by (simp add: ht_def next_check_inv)
  have "Tick e a t s \<in> {snd ht, DisconnectOnOwner e a (snd ht)}"
    using True by (simp add: Tick_def CanUseOnOwner_def Let_def ht_def [symmetric] split_beta)
  then show ?thesis using inv1 DisconnectOnOwner_inv by auto
qed

lemma BeginAppIo_inv: "session_inv c s \<Longrightarrow> session_inv c (BeginAppIo s)"
  by (auto simp: session_inv_def core_inv_def BeginAppIo_def settled_def)

lemma EndAppIo_inv:
  assumes inv: "session_inv c s"
  shows "session_inv c (EndAppIo e a s)"
proof -
  let ?s1 = "if pending_app_io s > 0 then s\<lparr>pending_app_io := pending_app_io s - 1\<rparr> else s"
  have core: "core_inv c ?s1" using inv by (simp add: session_inv_def core_inv_def)
  have "core_inv c (TryDisconnectAfterFlush e a ?s1)"
  proof (cases "session_state ?s1 = kOpen")
    case True
    then show ?thesis using TryDisconnectAfterFlush_inv [OF open_core_inv [OF core True]]
      by (rule_tac session_inv_core)
  next
    case False
    then have "TryDisconnectAfterFlush e a ?s1 = ?s1"
      by (simp add: TryDisconnectAfterFlush_def CanUseOnOwner_def)
    then show ?thesis using core by simp
  qed
  then show ?thesis by (simp add: EndAppIo_def Let_def TryRelease_inv)
qed

lemma run_task_inv: "session_inv c s \<Longrightarrow> task \<noteq> TSend None \<Longrightarrow> session_inv c (run_task e a task s)"
  by (cases task) (simp_all add: SendOnOwner_inv DisconnectOnOwner_inv DisconnectAfterFlushOnOwner_inv
      PauseRecvOnOwner_inv ResumeRecvOnOwner_inv)

lemma posted_inv:
  "session_inv c s \<Longrightarrow> TSend None \<notin> set tasks \<Longrightarrow> session_inv c (s\<lparr>posted := tasks\<rparr>)"
  by (simp add: session_inv_def core_inv_def queue_ok_def)

lemma RunOnOwner_inv:
  assumes "session_inv c s" "task \<noteq> TSend None"
  shows "session_inv c (snd (RunOnOwner e a on_ring task s))"
proof -
  have "TSend None \<notin> set (posted s)" using assms(1) by (simp add: session_inv_def core_inv_def queue_ok_def)
  then show ?thesis using assms
    by (simp add: RunOnOwner_def run_task_inv posted_inv)
qed

lemma Start_inv:
  assumes inv: "session_inv (idle\<lparr>recv_kick := True\<rparr>) s"
  shows "session_inv idle (Start e a peer s)"
proof -
  have "session_inv (idle\<lparr>recv_kick := True\<rparr>) (CaptureRemoteAddr peer s)"
    using inv by (simp add: CaptureRemoteAddr_def session_inv_def core_inv_def split: option.splits)
  then have "session_inv (idle\<lparr>recv_kick := True\<rparr>) (app_OnConnected a (TouchActivity e (CaptureRemoteAddr peer s)))"
    by (intro OnConnected_inv TouchActivity_inv)
  then show ?thesis unfolding Start_def by (rule RegisterRecv_kick)
qed

end

section \<open>The session as a transition system\<close>

text \<open>
  What happens to a session, one event at a time: a completion of an operation the kernel holds
  (a receive may announce more, keeping the operation), the ring's periodic tick, a call of a
  public operation on the ring's thread or on another one, the execution of a posted call, and the
  start and end of application I/O. The kernel chooses results, flags and data freely.
\<close>

inductive session_step :: "env \<Rightarrow> 'a app \<Rightarrow> 'a Session \<Rightarrow> 'a Session \<Rightarrow> bool" for e a where
  st_recv_more: "RecvOp i \<in> set (inflight s) \<Longrightarrow> flags AND IORING_CQE_F_MORE \<noteq> 0 \<Longrightarrow>
     session_step e a s (snd (Session_OnRecv e a res flags view s))"
| st_recv_last: "inflight s = xs @ RecvOp i # ys \<Longrightarrow> flags AND IORING_CQE_F_MORE = 0 \<Longrightarrow>
     session_step e a s (snd (Session_OnRecv e a res flags view (s\<lparr>inflight := xs @ ys\<rparr>)))"
| st_send: "inflight s = xs @ SendOp i iovs bufs # ys \<Longrightarrow>
     session_step e a s (OnSend e a i iovs bufs res (s\<lparr>inflight := xs @ ys\<rparr>))"
| st_disconnect: "inflight s = xs @ DisconnectOp i # ys \<Longrightarrow>
     session_step e a s (OnDisconnect a (s\<lparr>inflight := xs @ ys\<rparr>))"
| st_cancel: "inflight s = xs @ CancelOp i r # ys \<Longrightarrow>
     session_step e a s (OnCancel a (s\<lparr>inflight := xs @ ys\<rparr>))"
| st_tick: "session_step e a s (Tick e a t s)"
| st_call: "task \<noteq> TSend None \<Longrightarrow> session_step e a s (snd (RunOnOwner e a on_ring task s))"
| st_posted: "posted s = task # tasks \<Longrightarrow>
     session_step e a s (run_task e a task (s\<lparr>posted := tasks\<rparr>))"
| st_begin_io: "session_step e a s (BeginAppIo s)"
| st_end_io: "session_step e a s (EndAppIo e a s)"

text \<open>A session is configured before it is started; every configuration is a start.\<close>

definition configured :: "'a Session \<Rightarrow> bool" where
  "configured s \<longleftrightarrow> (\<exists>maxp st sid hw lw hb lb delay limit pause disc tmo.
     s = (Session_new maxp st)\<lparr>session_id := sid, send_queue_high_watermark := hw,
           send_queue_low_watermark := lw, send_queue_high_bytes := hb, send_queue_low_bytes := lb,
           backpressure_disconnect_delay := delay, paused_recv_byte_limit := limit,
           pause_recv_on_backpressure := pause, disconnect_on_high_watermark := disc,
           inactivity_timeout := tmo\<rparr>)"

definition session_start :: "env \<Rightarrow> 'a app \<Rightarrow> 'a Session \<Rightarrow> bool" where
  "session_start e a s \<longleftrightarrow> (\<exists>s0 peer. configured s0 \<and> s = Start e a peer s0)"

lemma configured_inv: "configured s \<Longrightarrow> session_inv (idle\<lparr>recv_kick := True\<rparr>) s"
  unfolding configured_def
  by (elim exE, hypsubst, intro open_invI)
    (simp_all add: Session_new_def idle_def ops_ok_def queue_ok_def paused_ok_def stream_ok_def
      inbound_ok_def SendQueue_new_def sq_inv_def)

context session_app
begin

lemma session_step_inv:
  assumes inv: "session_inv idle s" and st: "session_step e a s t"
  shows "session_inv idle t"
  using st
proof cases
  case (st_disconnect xs i ys)
  then show ?thesis using OnDisconnect_inv [OF inv] by (simp add: OnDisconnect_def)
next
  case (st_cancel xs i r ys)
  then show ?thesis using OnDisconnect_inv [OF inv] by (simp add: OnCancel_def)
next
  case (st_posted task tasks)
  have "TSend None \<notin> set (task # tasks)"
    using inv st_posted(2) by (simp add: session_inv_def core_inv_def queue_ok_def)
  then show ?thesis using st_posted posted_inv [OF inv] run_task_inv by auto
next
  case (st_recv_more i flags res view)
  then show ?thesis using Session_OnRecv_more_inv [OF inv] by simp
next
  case (st_recv_last xs i ys flags res view)
  then show ?thesis using Session_OnRecv_last_inv [OF inv] by simp
next
  case (st_send xs i iovs bufs ys res)
  then show ?thesis using OnSend_inv [OF inv] by simp
next
  case (st_tick t)
  then show ?thesis using Tick_inv [OF inv] by simp
next
  case (st_call task on_ring)
  then show ?thesis using RunOnOwner_inv [OF inv] by simp
next
  case st_begin_io
  then show ?thesis using BeginAppIo_inv [OF inv] by simp
next
  case st_end_io
  then show ?thesis using EndAppIo_inv [OF inv] by simp
qed

end

sublocale session_app \<subseteq> conn: inductive_invariant "session_step e a" "session_start e a" "session_inv idle"
  by unfold_locales
    (auto simp: session_start_def intro: Start_inv configured_inv session_step_inv)

end
