(* ===== verification/Session_Apps.thy ===== *)
theory Session_Apps
  imports Session_Invariant
begin

text \<open>
  Derived classes of the session. A program reacts to each callback by updating its own data and
  making a list of public calls, chosen freely from the callback and the session; the calls may
  cause further callbacks, nested to any depth \<open>n\<close>. Every such program satisfies the contract
  \<open>session_app\<close>, so the session's properties hold for it.
\<close>

section \<open>No public operation adds paused chunks\<close>

abbreviation pq :: "'a Session \<Rightarrow> nat" where
  "pq s \<equiv> length (paused_recv_queue s)"

lemma pq_simple [simp]:
  "pq (ask s) = pq s" "pq (BeginPendingIo s) = pq s" "pq (CompletePendingIo s) = pq s"
  "pq (MarkDrainingOnOwner s) = pq s" "pq (snd (new_op e s)) = pq s" "pq (snd (prep e op s)) = pq s"
  "pq (snd (TryMarkClosedOnOwner s)) = pq s" "pq (snd (TryBeginDisconnectOnOwner s)) = pq s"
  "pq (PauseRecvOnOwner s) = pq s" "pq (BeginAppIo s) = pq s"
  by (simp_all add: ask_def BeginPendingIo_def CompletePendingIo_def MarkDrainingOnOwner_def new_op_def
      prep_def TryMarkClosedOnOwner_def TryBeginDisconnectOnOwner_def PauseRecvOnOwner_def BeginAppIo_def)

lemma pq_cancel_recv [simp]: "pq (cancel_recv e s) = pq s"
  by (simp add: cancel_recv_def new_op_def prep_def BeginPendingIo_def CompletePendingIo_def ask_def
      Let_def split: option.splits)

context session_app
begin

lemma pq_TryRelease: "pq (TryRelease a s) \<le> pq s"
  using OnDisconnected_paused [of "s\<lparr>session_state := kClosed, disconnected_calls := Suc (disconnected_calls s)\<rparr>"]
  by (simp add: TryRelease_def TryMarkClosedOnOwner_def Let_def)

lemma pq_DisconnectOnOwner: "pq (DisconnectOnOwner e a s) \<le> pq s"
proof (cases "session_state s = kOpen")
  case False
  then show ?thesis by (simp add: DisconnectOnOwner_def TryBeginDisconnectOnOwner_def)
next
  case True
  let ?s2 = "ask (s\<lparr>session_state := kClosing\<rparr>)"
  let ?s4 = "snd (prep e (DisconnectOp (asked s)) (BeginPendingIo ?s2))"
  have "DisconnectOnOwner e a s \<in> {TryRelease a ?s2, TryRelease a (CompletePendingIo ?s4),
      TryRelease a (MarkDrainingOnOwner (cancel_recv e ?s4))}"
    using True by (simp add: DisconnectOnOwner_def TryBeginDisconnectOnOwner_def new_op_def Let_def split_beta)
  then show ?thesis
    using pq_TryRelease [of ?s2] pq_TryRelease [of "CompletePendingIo ?s4"]
      pq_TryRelease [of "MarkDrainingOnOwner (cancel_recv e ?s4)"] by auto
qed

lemma pq_TryDisconnectAfterFlush: "pq (TryDisconnectAfterFlush e a s) \<le> pq s"
  by (simp add: TryDisconnectAfterFlush_def pq_DisconnectOnOwner)

lemma pq_DisconnectAfterFlushOnOwner: "pq (DisconnectAfterFlushOnOwner e a s) \<le> pq s"
  using pq_TryDisconnectAfterFlush [of "s\<lparr>disconnect_after_flush := True\<rparr>"]
  by (simp add: DisconnectAfterFlushOnOwner_def)

lemma pq_RegisterRecv: "pq (RegisterRecv e a s) \<le> pq s"
proof -
  let ?p = "prep e (RecvOp (asked s)) (BeginPendingIo (ask s))"
  have "RegisterRecv e a s \<in> {s, DisconnectOnOwner e a (ask s), DisconnectOnOwner e a (CompletePendingIo (snd ?p)),
      (snd ?p)\<lparr>active_recv_ev := Some (asked s)\<rparr>}"
    by (simp add: RegisterRecv_def new_op_def Let_def split_beta)
  then show ?thesis
    using pq_DisconnectOnOwner [of "ask s"] pq_DisconnectOnOwner [of "CompletePendingIo (snd ?p)"] by auto
qed

lemma pq_drain_paused: "pq (drain_paused n a s) \<le> pq s"
proof (induction n arbitrary: s)
  case (Suc n)
  show ?case
  proof (cases "paused_recv_queue s")
    case Nil
    then show ?thesis by simp
  next
    case (Cons c cs)
    let ?s = "s\<lparr>paused_recv_queue := cs, paused_recv_bytes := paused_recv_bytes s - length c\<rparr>"
    have "pq (deliver a c ?s) \<le> pq ?s"
      using OnRecv_paused [of c "?s\<lparr>delivered := delivered ?s @ c\<rparr>"] by (simp add: deliver_def)
    then show ?thesis using Suc.IH [of "deliver a c ?s"] Cons by simp
  qed
qed simp

lemma pq_resume: "pq (RegisterRecv e a (DrainPausedRecv a (s\<lparr>recv_paused := False\<rparr>))) \<le> pq s"
  using pq_RegisterRecv [of "DrainPausedRecv a (s\<lparr>recv_paused := False\<rparr>)"]
    pq_drain_paused [of "pq s" "s\<lparr>recv_paused := False\<rparr>"]
  by (simp add: DrainPausedRecv_def)

lemma pq_ResumeRecvOnOwner: "pq (ResumeRecvOnOwner e a s) \<le> pq s"
  by (simp add: ResumeRecvOnOwner_def pq_resume)

lemma pq_UpdateBackpressure: "pq (UpdateBackpressure e a st s) \<le> pq s"
proof -
  let ?s1 = "(ask (s\<lparr>backpressure_active := True\<rparr>))\<lparr>last_backpressure_high := clock e (asked s)\<rparr>"
  let ?s2 = "app_OnBackpressure a True ?s1"
  have "pq ?s2 \<le> pq s" using OnBackpressure_paused [of True ?s1] by (simp add: ask_def)
  then have "pq (enter_backpressure e a s) \<le> pq s"
    using pq_DisconnectOnOwner [of ?s2] pq_DisconnectOnOwner [of "?s2\<lparr>recv_paused := True\<rparr>"]
    by (simp add: enter_backpressure_def now_def Let_def)
  moreover have "pq (leave_backpressure e a s) \<le> pq s"
    using OnBackpressure_paused [of False "s\<lparr>backpressure_active := False, last_backpressure_high := 0\<rparr>"]
      pq_resume [of "app_OnBackpressure a False (s\<lparr>backpressure_active := False, last_backpressure_high := 0\<rparr>)"]
    by (simp add: leave_backpressure_def Let_def)
  ultimately show ?thesis by (simp add: UpdateBackpressure_def)
qed

lemma pq_SendInFlightBatch: "pq (SendInFlightBatch e a i bufs s) \<le> pq s"
proof -
  let ?p = "prep e (SendOp i (map ref_bytes bufs) bufs) (BeginPendingIo (s\<lparr>faulted := faulted s \<or> None \<in> set bufs\<rparr>))"
  have "SendInFlightBatch e a i bufs s \<in> {s, DisconnectOnOwner e a (CompletePendingIo (snd ?p)),
      (snd ?p)\<lparr>active_send_ev := Some i\<rparr>}"
    by (simp add: SendInFlightBatch_def Let_def split_beta)
  then show ?thesis using pq_DisconnectOnOwner [of "CompletePendingIo (snd ?p)"] by auto
qed

lemma pq_SendBatch: "pq (SendBatch e a bufs s) \<le> pq s"
  using pq_DisconnectOnOwner [of "ask s"] pq_SendInFlightBatch [of "asked s" bufs "ask s"]
  by (simp add: SendBatch_def new_op_def Let_def)

lemma pq_RegisterSend: "pq (RegisterSend e a s) \<le> pq s"
proof -
  let ?q = "snd (DrainInto kMaxSendIovecs (send_queue s))"
  let ?s = "UpdateBackpressure e a (Snapshot ?q) (s\<lparr>send_queue := ?q\<rparr>)"
  have "pq ?s \<le> pq s" using pq_UpdateBackpressure [of "Snapshot ?q" "s\<lparr>send_queue := ?q\<rparr>"] by simp
  then show ?thesis
    using pq_SendBatch [of "fst (DrainInto kMaxSendIovecs (send_queue s))" ?s]
    by (simp add: RegisterSend_def split_beta)
qed

lemma pq_SendOnOwner: "pq (snd (SendOnOwner e a buf s)) \<le> pq s"
proof -
  let ?q = "snd (Push buf (send_queue s))"
  let ?s1 = "s\<lparr>send_queue := ?q, accepted := accepted s @ ref_bytes buf\<rparr>"
  let ?s2 = "UpdateBackpressure e a (Snapshot ?q) ?s1"
  have "pq ?s2 \<le> pq s" using pq_UpdateBackpressure [of "Snapshot ?q" ?s1] by simp
  then show ?thesis
    using pq_RegisterSend [of ?s2] pq_DisconnectOnOwner [of "s\<lparr>send_queue := ?q\<rparr>"]
    by (simp add: SendOnOwner_def split_beta Let_def)
qed

lemma pq_EndAppIo: "pq (EndAppIo e a s) \<le> pq s"
proof -
  let ?s1 = "if pending_app_io s > 0 then s\<lparr>pending_app_io := pending_app_io s - 1\<rparr> else s"
  show ?thesis
    using pq_TryRelease [of "TryDisconnectAfterFlush e a ?s1"] pq_TryDisconnectAfterFlush [of ?s1]
    by (simp add: EndAppIo_def Let_def split: if_splits)
qed

lemma pq_run_task: "pq (run_task e a task s) \<le> pq s"
  by (cases task) (simp_all add: pq_SendOnOwner pq_DisconnectOnOwner pq_DisconnectAfterFlushOnOwner
      pq_ResumeRecvOnOwner)

end

section \<open>Programs of public calls\<close>

datatype api =
    ApiSend "byte list" | ApiDisconnect | ApiDisconnectAfterFlush | ApiPauseRecv | ApiResumeRecv
  | ApiBeginAppIo | ApiEndAppIo

fun run_api :: "env \<Rightarrow> 'a app \<Rightarrow> api \<Rightarrow> 'a Session \<Rightarrow> 'a Session" where
  "run_api e a (ApiSend bs) s = snd (Send e a True (Some bs) s)"
| "run_api e a ApiDisconnect s = Disconnect e a True s"
| "run_api e a ApiDisconnectAfterFlush s = DisconnectAfterFlush e a True s"
| "run_api e a ApiPauseRecv s = PauseRecv e a True s"
| "run_api e a ApiResumeRecv s = ResumeRecv e a True s"
| "run_api e a ApiBeginAppIo s = BeginAppIo s"
| "run_api e a ApiEndAppIo s = EndAppIo e a s"

datatype callback =
    CbRecv "byte list" | CbConnected | CbDisconnected | CbSocketDrained | CbBackpressure bool
  | CbTimeoutTick int

record 'a program =
  react :: "callback \<Rightarrow> 'a Session \<Rightarrow> 'a \<times> api list"
  handles_tick :: "int \<Rightarrow> 'a Session \<Rightarrow> bool"
  has_work :: "'a Session \<Rightarrow> bool"

definition run_reaction :: "env \<Rightarrow> 'a app \<Rightarrow> 'a \<times> api list \<Rightarrow> 'a Session \<Rightarrow> 'a Session" where
  "run_reaction e a r s = fold (run_api e a) (snd r) (s\<lparr>app_state := fst r\<rparr>)"

definition program_app :: "env \<Rightarrow> 'a program \<Rightarrow> 'a app \<Rightarrow> 'a app" where
  "program_app e p inner =
     \<lparr>app_OnRecv = (\<lambda>d s. run_reaction e inner (react p (CbRecv d) s) s),
      app_OnConnected = (\<lambda>s. run_reaction e inner (react p CbConnected s) s),
      app_OnDisconnected = (\<lambda>s. run_reaction e inner (react p CbDisconnected s) s),
      app_OnSocketDrained = (\<lambda>s. run_reaction e inner (react p CbSocketDrained s) s),
      app_OnBackpressure = (\<lambda>b s. run_reaction e inner (react p (CbBackpressure b) s) s),
      app_OnTimeoutTick =
        (\<lambda>t s. (handles_tick p t s, run_reaction e inner (react p (CbTimeoutTick t) s) s)),
      app_HasPendingAppWork = has_work p\<rparr>"

definition quiet_app :: "'a program \<Rightarrow> 'a app" where
  "quiet_app p =
     \<lparr>app_OnRecv = (\<lambda>d s. s), app_OnConnected = (\<lambda>s. s), app_OnDisconnected = (\<lambda>s. s),
      app_OnSocketDrained = (\<lambda>s. s), app_OnBackpressure = (\<lambda>b s. s),
      app_OnTimeoutTick = (\<lambda>t s. (False, s)), app_HasPendingAppWork = has_work p\<rparr>"

primrec nested_app :: "nat \<Rightarrow> env \<Rightarrow> 'a program \<Rightarrow> 'a app" where
  "nested_app 0 e p = quiet_app p"
| "nested_app (Suc n) e p = program_app e p (nested_app n e p)"

context session_app
begin

lemma run_api_inv: "session_inv c s \<Longrightarrow> session_inv c (run_api e a call s)"
  by (cases call)
    (simp_all add: Send_def SendOnOwner_inv Disconnect_def DisconnectAfterFlush_def PauseRecv_def
      ResumeRecv_def RunOnOwner_inv BeginAppIo_inv EndAppIo_inv)

lemma pq_run_api: "pq (run_api e a call s) \<le> pq s"
  by (cases call)
    (simp_all add: Send_def pq_SendOnOwner Disconnect_def DisconnectAfterFlush_def PauseRecv_def
      ResumeRecv_def RunOnOwner_def pq_EndAppIo pq_DisconnectOnOwner pq_DisconnectAfterFlushOnOwner
      pq_ResumeRecvOnOwner)

lemma run_reaction_inv:
  assumes "session_inv c s"
  shows "session_inv c (run_reaction e a r s)"
proof -
  have "session_inv c t \<Longrightarrow> session_inv c (fold (run_api e a) calls t)" for calls t
    by (induction calls arbitrary: t) (simp_all add: run_api_inv)
  moreover have "session_inv c (s\<lparr>app_state := fst r\<rparr>)"
    using assms by (simp add: session_inv_def core_inv_def)
  ultimately show ?thesis by (simp add: run_reaction_def)
qed

lemma pq_run_reaction: "pq (run_reaction e a r s) \<le> pq s"
proof -
  have "pq (fold (run_api e a) calls t) \<le> pq t" for calls t
  proof (induction calls arbitrary: t)
    case (Cons call calls)
    from Cons.IH [of "run_api e a call t"] pq_run_api [of call t] show ?case by simp
  qed simp
  from this [of "snd r" "s\<lparr>app_state := fst r\<rparr>"] show ?thesis by (simp add: run_reaction_def)
qed

lemma program_app_contract: "session_app (program_app e p a)"
  by unfold_locales (simp_all add: program_app_def run_reaction_inv pq_run_reaction)

end

lemma nested_app_contract: "session_app (nested_app n e p)"
proof (induction n)
  case 0
  show ?case by unfold_locales (simp_all add: quiet_app_def)
next
  case (Suc n)
  then show ?case using session_app.program_app_contract [OF Suc] by simp
qed

interpretation prog: session_app e "nested_app n e p"
  for e :: env and n :: nat and p :: "'a program"
  by (rule nested_app_contract)

end
