(* ===== verification/Session_Props.thy ===== *)
theory Session_Props
  imports Session_Apps
begin

text \<open>
  The properties of a connection, for every program of public calls, every environment and every
  sequence of events. The runs used to show that the properties are not vacuous come first.
\<close>

section \<open>A concrete run\<close>

definition calm_env :: env where
  "calm_env = \<lparr>alloc_ok = (\<lambda>_. True), prep_ok = (\<lambda>_. True), post_ok = (\<lambda>_. True), clock = (\<lambda>_. 5)\<rparr>"

definition echo_program :: "unit program" where
  "echo_program =
     \<lparr>react = (\<lambda>cb s. ((), case cb of CbRecv d \<Rightarrow> [ApiSend d] | _ \<Rightarrow> [])),
      handles_tick = (\<lambda>_ _. False), has_work = (\<lambda>_. False)\<rparr>"

abbreviation echo_app :: "unit app" where
  "echo_app \<equiv> nested_app 1 calm_env echo_program"

definition echo0 :: "unit Session" where
  "echo0 = Start calm_env echo_app None (Session_new 16 ())"

text \<open>Three bytes arrive and are echoed; the kernel then takes two of them.\<close>

definition echo1 :: "unit Session" where
  "echo1 = snd (Session_OnRecv calm_env echo_app 3 3 [1, 2, 3] echo0)"

lemmas session_op_defs =
  Start_def CaptureRemoteAddr_def TouchActivity_def now_def ask_def RegisterRecv_def CanUseOnOwner_def
  new_op_def BeginPendingIo_def CompletePendingIo_def prep_def Session_OnRecv_def recv_data_def deliver_def
  recv_outcome_def QueuePausedRecv_def SendOnOwner_def UpdateBackpressure_def HighWatermarkReached_def
  LowWatermarkReached_def RegisterSend_def SendBatch_def SendInFlightBatch_def Send_def
  Push_def DrainInto_def Snapshot_def SendQueue_new_def Session_new_def ref_bytes_def ref_size_def
  kMaxSendIovecs_def IORING_CQE_F_MORE_def IORING_CQE_F_BUFFER_def IORING_CQE_BUFFER_SHIFT_def ENOBUFS_def

lemmas echo_defs = calm_env_def echo_program_def program_app_def quiet_app_def run_reaction_def

lemma echo0_eq:
  "echo0 = (Session_new 16 ())\<lparr>last_activity := 5, asked := 3, pending_io := 1,
             inflight := [RecvOp 1], active_recv_ev := Some 1\<rparr>"
  by (simp add: echo0_def session_op_defs echo_defs)

lemma echo1_eq:
  "echo1 = echo0\<lparr>received := [1, 2, 3], delivered := [1, 2, 3], accepted := [1, 2, 3],
             asked := 6, pending_io := 2, inflight := [RecvOp 1, SendOp 4 [[1, 2, 3]] [Some [1, 2, 3]]],
             active_send_ev := Some 4, returned_bufs := [0],
             send_queue := (SendQueue_new 16)\<lparr>registered := True, peak_depth := 1, peak_pending_bytes := 3\<rparr>\<rparr>"
  by (simp add: echo1_def echo0_eq session_op_defs echo_defs)

lemma echo0_reachable: "reachable_from (session_step calm_env echo_app) (session_start calm_env echo_app) echo0"
proof (rule reach_start)
  have "configured (Session_new 16 ())"
    unfolding configured_def
    by (rule exI [of _ 16], rule exI [of _ "()"], rule exI [of _ 0], rule exI [of _ 0], rule exI [of _ 0],
        rule exI [of _ 0], rule exI [of _ 0], rule exI [of _ 0], rule exI [of _ 1048576],
        rule exI [of _ False], rule exI [of _ False], rule exI [of _ 0]) (simp add: Session_new_def)
  then show "session_start calm_env echo_app echo0"
    by (auto simp: session_start_def echo0_def)
qed

lemma echo1_reachable: "reachable_from (session_step calm_env echo_app) (session_start calm_env echo_app) echo1"
proof (rule reach_step [OF echo0_reachable])
  show "session_step calm_env echo_app echo0 echo1"
    unfolding echo1_def by (rule st_recv_more [of 1]) (simp_all add: echo0_eq IORING_CQE_F_MORE_def)
qed

section \<open>Properties\<close>

text \<open>
  C8: The session counts its kernel operations exactly. In every reachable state \<open>pending_io\<close> is
  the number of operations the kernel holds, at most one of them is a receive and at most one a
  send, and the pointers to the active receive and send are set exactly when there is one.
\<close>

theorem session_io_accounting:
  assumes "reachable_from (session_step e (nested_app n e p)) (session_start e (nested_app n e p)) s"
  shows "pending_io s = length (inflight s) \<and>
         length (filter is_recv (inflight s)) = (if active_recv_ev s = None then 0 else 1) \<and>
         length (filter is_send (inflight s)) = (if active_send_ev s = None then 0 else 1)"
proof -
  have "session_inv idle s" using prog.conn.reachable_inv [OF assms] .
  then have ok: "ops_ok 0 (pending_io s) (inflight s) (active_recv_ev s) (active_send_ev s)"
    by (simp add: session_inv_def core_inv_def idle_def)
  then have "length (map send_id (filter is_send (inflight s))) = (if active_send_ev s = None then 0 else 1)"
    by (simp only: ops_ok_def) (simp split: option.splits)
  then show ?thesis using ok by (simp add: ops_ok_def split: option.splits)
qed

theorem session_io_accounting_witness:
  "pending_io echo1 = length (inflight echo1) \<and>
   length (filter is_recv (inflight echo1)) = (if active_recv_ev echo1 = None then 0 else 1) \<and>
   length (filter is_send (inflight echo1)) = (if active_send_ev echo1 = None then 0 else 1)"
  by (rule session_io_accounting [OF echo1_reachable])


text \<open>The echo session when the peer closes: the kernel still holds the shutdown and the cancel.\<close>

definition echo_closing :: "unit Session" where
  "echo_closing = DisconnectOnOwner calm_env echo_app echo0"

lemma echo_closing_reachable:
  "reachable_from (session_step calm_env echo_app) (session_start calm_env echo_app) echo_closing"
proof (rule reach_step [OF echo0_reachable])
  have "session_step calm_env echo_app echo0 (snd (RunOnOwner calm_env echo_app True TDisconnect echo0))"
    by (rule st_call) simp
  then show "session_step calm_env echo_app echo0 echo_closing"
    by (simp add: echo_closing_def RunOnOwner_def)
qed


text \<open>
  C1: While a session is open no accepted byte is lost, duplicated or reordered on the way out: the
  bytes accepted by \<open>Send\<close> are those the kernel took, then those of the send in flight, then those
  queued. Queued buffers never wait without a send in flight, and no null buffer is dereferenced.
\<close>

theorem session_send_stream:
  assumes "reachable_from (session_step e (nested_app n e p)) (session_start e (nested_app n e p)) s"
    and "session_state s = kOpen"
  shows "accepted s = wire s @ send_bytes (inflight s) @ concat (map ref_bytes (pending (send_queue s))) \<and>
         (pending (send_queue s) \<noteq> [] \<longrightarrow> active_send_ev s \<noteq> None) \<and> \<not> faulted s"
proof -
  have inv: "session_inv idle s" using prog.conn.reachable_inv [OF assms(1)] .
  from open_invD(5,7) [OF inv assms(2)] show ?thesis
    by (auto simp: stream_ok_def queue_ok_def idle_def sq_inv_def)
qed

theorem session_send_stream_witness:
  "accepted echo1 = wire echo1 @ send_bytes (inflight echo1) @ concat (map ref_bytes (pending (send_queue echo1))) \<and>
   accepted echo1 = [1, 2, 3] \<and> \<not> faulted echo1"
proof -
  have "session_state echo1 = kOpen" "accepted echo1 = [1, 2, 3]"
    by (simp_all add: echo1_eq echo0_eq Session_new_def)
  then show ?thesis using session_send_stream [OF echo1_reachable] by simp
qed

text \<open>
  C9: While a session is open no received byte is lost, duplicated or reordered on the way in: the
  received bytes are those handed to the application followed by the paused ones. Paused chunks
  exist only while receiving is paused and within the byte limit, and a session that is not paused
  has a receive in the kernel.
\<close>

theorem session_recv_stream:
  assumes "reachable_from (session_step e (nested_app n e p)) (session_start e (nested_app n e p)) s"
    and "session_state s = kOpen"
  shows "received s = delivered s @ concat (paused_recv_queue s) \<and>
         (paused_recv_queue s \<noteq> [] \<longrightarrow> recv_paused s) \<and> (\<not> recv_paused s \<longrightarrow> active_recv_ev s \<noteq> None) \<and>
         (paused_recv_byte_limit s \<noteq> 0 \<longrightarrow>
            sum_list (map length (paused_recv_queue s)) \<le> paused_recv_byte_limit s)"
proof -
  have inv: "session_inv idle s" using prog.conn.reachable_inv [OF assms(1)] .
  from open_invD(6,8) [OF inv assms(2)] show ?thesis
    by (auto simp: inbound_ok_def paused_ok_def idle_def)
qed

theorem session_recv_stream_witness:
  "received echo1 = delivered echo1 @ concat (paused_recv_queue echo1) \<and> received echo1 = [1, 2, 3]"
proof -
  have "session_state echo1 = kOpen" "received echo1 = [1, 2, 3]"
    by (simp_all add: echo1_eq echo0_eq Session_new_def)
  then show ?thesis using session_recv_stream [OF echo1_reachable] by simp
qed

text \<open>
  The loop of \<open>DrainPausedRecv\<close> ends: as many passes as there are paused chunks reach a state
  where its condition is false, whatever the callbacks do.
\<close>

theorem DrainPausedRecv_done:
  "let t = DrainPausedRecv (nested_app n e p) s
   in \<not> (session_state t = kOpen \<and> \<not> recv_paused t \<and> paused_recv_queue t \<noteq> [])"
  unfolding Let_def DrainPausedRecv_def by (rule prog.drain_paused_done) simp



text \<open>
  The exception: \<open>RegisterSend\<close> and \<open>OnSend\<close> report back-pressure while the batch they took off
  the queue is in neither the queue nor the kernel. A program that asks for
  \<open>DisconnectAfterFlush\<close> when back-pressure ends finds nothing left to flush.
\<close>

definition flush_program :: "unit program" where
  "flush_program =
     \<lparr>react = (\<lambda>cb s. ((), if cb = CbBackpressure False then [ApiDisconnectAfterFlush] else [])),
      handles_tick = (\<lambda>_ _. False), has_work = (\<lambda>_. False)\<rparr>"

abbreviation flush_app :: "unit app" where
  "flush_app \<equiv> nested_app 1 calm_env flush_program"

definition flush0 :: "unit Session" where
  "flush0 = Start calm_env flush_app None (SetBackpressureWatermarks 1 0 (Session_new 16 ()))"

definition flush1 :: "unit Session" where
  "flush1 = snd (SendOnOwner calm_env flush_app (Some [7]) flush0)"

lemma flush0_eq:
  "flush0 = (Session_new 16 ())\<lparr>send_queue_high_watermark := 1, last_activity := 5, asked := 3,
              pending_io := 1, inflight := [RecvOp 1], active_recv_ev := Some 1\<rparr>"
  by (simp add: flush0_def session_op_defs echo_defs flush_program_def SetBackpressureWatermarks_def)

lemma flush1_lost: "session_state flush1 = kDraining \<and> accepted flush1 = [7] \<and> wire flush1 = [] \<and>
    filter is_send (inflight flush1) = [] \<and> pending (send_queue flush1) = []"
  by (simp add: flush1_def flush0_eq SendOnOwner_def CanUseOnOwner_def Session_new_def Push_def SendQueue_new_def
      UpdateBackpressure_def HighWatermarkReached_def LowWatermarkReached_def Snapshot_def
      enter_backpressure_def leave_backpressure_def RegisterSend_def SendBatch_def DrainInto_def
      kMaxSendIovecs_def DisconnectAfterFlush_def RunOnOwner_def
      DisconnectAfterFlushOnOwner_def TryDisconnectAfterFlush_def DisconnectOnOwner_def
      TryBeginDisconnectOnOwner_def cancel_recv_def MarkDrainingOnOwner_def TryRelease_def ClosingStarted_def
      now_def ask_def new_op_def prep_def BeginPendingIo_def ref_bytes_def ref_size_def
      echo_defs flush_program_def)

text \<open>
  A flush requested in the back-pressure callback can lose data: there is a program that only
  ever asks for \<open>DisconnectAfterFlush\<close>, and a reachable state in which it has closed the session
  with an accepted byte that is neither on the wire, nor in the kernel, nor queued.
\<close>

theorem flush_in_callback_loses_data:
  "\<exists>s. reachable_from (session_step calm_env flush_app) (session_start calm_env flush_app) s \<and>
       session_state s = kDraining \<and> accepted s = [7] \<and> wire s = [] \<and>
       filter is_send (inflight s) = [] \<and> pending (send_queue s) = []"
proof (intro exI conjI)
  have "configured (SetBackpressureWatermarks 1 0 (Session_new 16 ()))"
    unfolding configured_def
    by (rule exI [of _ 16], rule exI [of _ "()"], rule exI [of _ 0], rule exI [of _ 1], rule exI [of _ 0],
        rule exI [of _ 0], rule exI [of _ 0], rule exI [of _ 0], rule exI [of _ 1048576],
        rule exI [of _ False], rule exI [of _ False], rule exI [of _ 0])
      (simp add: Session_new_def SetBackpressureWatermarks_def)
  then have "session_start calm_env flush_app flush0"
    unfolding session_start_def flush0_def by blast
  then have 0: "reachable_from (session_step calm_env flush_app) (session_start calm_env flush_app) flush0"
    by (rule reach_start)
  have "session_step calm_env flush_app flush0 (snd (RunOnOwner calm_env flush_app True (TSend (Some [7])) flush0))"
    by (rule st_call) simp
  then have "session_step calm_env flush_app flush0 flush1" by (simp add: RunOnOwner_def flush1_def)
  with 0 show "reachable_from (session_step calm_env flush_app) (session_start calm_env flush_app) flush1"
    by (rule reach_step)
qed (use flush1_lost in auto)

text \<open>
  When the ring has no free submission entry, \<open>Disconnect\<close> leaves a session with pending I/O
  in \<open>kClosing\<close> without having submitted the shutdown, and repeating the call does nothing: only
  the peer can then end the pending receive.
\<close>

theorem Disconnect_without_sqe:
  assumes "session_state s = kOpen" "pending_io s > 0" "\<forall>k. \<not> prep_ok e k"
  shows "session_state (Disconnect e a True s) = kClosing \<and>
         inflight (Disconnect e a True s) = inflight s \<and>
         Disconnect e a True (Disconnect e a True s) = Disconnect e a True s"
  using assms
  by (simp add: Disconnect_def RunOnOwner_def DisconnectOnOwner_def TryBeginDisconnectOnOwner_def new_op_def
      prep_def ask_def BeginPendingIo_def CompletePendingIo_def TryRelease_def Let_def)

theorem Disconnect_without_sqe_witness:
  "session_state (Disconnect (calm_env\<lparr>prep_ok := \<lambda>_. False\<rparr>) echo_app True echo0) = kClosing \<and>
   inflight (Disconnect (calm_env\<lparr>prep_ok := \<lambda>_. False\<rparr>) echo_app True echo0) = [RecvOp 1]"
proof -
  have "session_state echo0 = kOpen" "pending_io echo0 > 0" "inflight echo0 = [RecvOp 1]"
    by (simp_all add: echo0_eq Session_new_def)
  then show ?thesis
    using Disconnect_without_sqe [of echo0 "calm_env\<lparr>prep_ok := \<lambda>_. False\<rparr>" echo_app] by simp
qed

end
