(* ===== verification/Mpsc_Queue.thy ===== *)
theory Mpsc_Queue
  imports Runtime_Prelude
begin

text \<open>
  The lock-free queue of \<^verbatim>\<open>include/iouring_runtime/core/MpscQueue.h\<close>, one atomic access per step.
  Producers exchange \<open>produce_end\<close> and then store the link of the previous node; in between the list
  has a gap. The consumer is one thread; its position inside \<open>TryPop\<close> is \<open>pc\<close>. Nodes are numbers,
  0 is the stub. \<open>chain\<close> (the nodes in the order of the exchanges), \<open>pushed\<close> and \<open>popped\<close> are
  ghost state.
\<close>

section \<open>State and steps\<close>

datatype cpc =
    Idle
  | Have nat "nat option"
  | Recycle nat
  | Linking nat nat
  | Final nat

record 'v mpsc =
  nxt :: "nat \<Rightarrow> nat option"
  val :: "nat \<Rightarrow> 'v"
  consume_end :: nat
  produce_end :: nat
  links :: "(nat \<times> nat) set"
  pc :: cpc
  fresh :: nat
  chain :: "nat list"
  pushed :: "'v list"
  popped :: "'v list"

definition stub :: nat where
  "stub = 0"

definition mpsc_new :: "(nat \<Rightarrow> 'v) \<Rightarrow> 'v mpsc" where
  "mpsc_new dflt =
     \<lparr>nxt = (\<lambda>_. None), val = dflt, consume_end = stub, produce_end = stub, links = {}, pc = Idle,
      fresh = 1, chain = [stub], pushed = [], popped = []\<rparr>"

definition mpsc_start :: "'v mpsc \<Rightarrow> bool" where
  "mpsc_start q \<longleftrightarrow> (\<exists>dflt. q = mpsc_new dflt)"

text \<open>The first half of \<open>PushNode\<close>: the new node is \<open>n\<close>.\<close>

definition exchange :: "nat \<Rightarrow> 'v mpsc \<Rightarrow> 'v mpsc" where
  "exchange n q = q\<lparr>nxt := (nxt q)(n := None), produce_end := n, chain := chain q @ [n]\<rparr>"

text \<open>Take the value of \<open>n\<close>, delete it and move on to \<open>m\<close>.\<close>

definition pop_to :: "nat \<Rightarrow> nat \<Rightarrow> 'v mpsc \<Rightarrow> 'v mpsc" where
  "pop_to n m q = q\<lparr>consume_end := m, chain := tl (chain q), popped := popped q @ [val q n], pc := Idle\<rparr>"

inductive mpsc_step :: "'v mpsc \<Rightarrow> 'v mpsc \<Rightarrow> bool" where
  push_exchange: "n = fresh q \<Longrightarrow> mpsc_step q
     ((exchange n q)\<lparr>val := (val q)(n := v), fresh := Suc n, links := insert (produce_end q, n) (links q),
        pushed := pushed q @ [v]\<rparr>)"
| push_link: "(p, n) \<in> links q \<Longrightarrow>
     mpsc_step q (q\<lparr>nxt := (nxt q)(p := Some n), links := links q - {(p, n)}\<rparr>)"
| pop_load: "pc q = Idle \<Longrightarrow> mpsc_step q (q\<lparr>pc := Have (consume_end q) (nxt q (consume_end q))\<rparr>)"
| pop_stub_empty: "pc q = Have n None \<Longrightarrow> n = stub \<Longrightarrow> mpsc_step q (q\<lparr>pc := Idle\<rparr>)"
| pop_stub_skip: "pc q = Have n (Some m) \<Longrightarrow> n = stub \<Longrightarrow>
     mpsc_step q (q\<lparr>consume_end := m, chain := tl (chain q), pc := Have m (nxt q m)\<rparr>)"
| pop_fast: "pc q = Have n (Some m) \<Longrightarrow> n \<noteq> stub \<Longrightarrow> mpsc_step q (pop_to n m q)"
| pop_not_tail: "pc q = Have n None \<Longrightarrow> n \<noteq> stub \<Longrightarrow> n \<noteq> produce_end q \<Longrightarrow> mpsc_step q (q\<lparr>pc := Idle\<rparr>)"
| pop_tail: "pc q = Have n None \<Longrightarrow> n \<noteq> stub \<Longrightarrow> n = produce_end q \<Longrightarrow> mpsc_step q (q\<lparr>pc := Recycle n\<rparr>)"
| pop_recycle: "pc q = Recycle n \<Longrightarrow>
     mpsc_step q ((exchange stub q)\<lparr>pc := Linking n (produce_end q)\<rparr>)"
| pop_relink: "pc q = Linking n p \<Longrightarrow>
     mpsc_step q (q\<lparr>nxt := (nxt q)(p := Some stub), pc := Final n\<rparr>)"
| pop_final: "pc q = Final n \<Longrightarrow> nxt q n = Some m \<Longrightarrow> mpsc_step q (pop_to n m q)"
| pop_gap: "pc q = Final n \<Longrightarrow> nxt q n = None \<Longrightarrow> mpsc_step q (q\<lparr>pc := Idle\<rparr>)"

section \<open>The chain with its gaps\<close>

fun linked :: "(nat \<Rightarrow> nat option) \<Rightarrow> (nat \<times> nat) set \<Rightarrow> nat list \<Rightarrow> bool" where
  "linked nx L [] \<longleftrightarrow> False"
| "linked nx L [n] \<longleftrightarrow> nx n = None"
| "linked nx L (n # m # ns) \<longleftrightarrow> (nx n = Some m \<or> nx n = None \<and> (n, m) \<in> L) \<and> linked nx L (m # ns)"

definition wf_chain :: "(nat \<Rightarrow> nat option) \<Rightarrow> (nat \<times> nat) set \<Rightarrow> nat list \<Rightarrow> bool" where
  "wf_chain nx L c \<longleftrightarrow> distinct c \<and> linked nx L c \<and>
     (\<forall>(p, v) \<in> L. nx p = None \<and> (p, v) \<in> set (zip c (tl c)))"

lemma linked_cong:
  "(\<And>n. n \<in> set c \<Longrightarrow> nx n = nx' n) \<Longrightarrow> (\<And>n m. n \<in> set c \<Longrightarrow> (n, m) \<in> L \<Longrightarrow> (n, m) \<in> L') \<Longrightarrow>
     linked nx L c \<Longrightarrow> linked nx' L' c"
  by (induction nx L c rule: linked.induct) auto

lemma linked_snoc:
  "linked nx L c \<Longrightarrow> (last c, v) \<in> L \<Longrightarrow> nx v = None \<Longrightarrow> linked nx L (c @ [v])"
  by (induction nx L c rule: linked.induct) auto

lemma zip_tl_snoc: "c \<noteq> [] \<Longrightarrow> set (zip (c @ [v]) (tl c @ [v])) = insert (last c, v) (set (zip c (tl c)))"
  by (induction c rule: induct_list012) auto

lemma last_linked: "linked nx L c \<Longrightarrow> c \<noteq> [] \<and> nx (last c) = None"
  by (induction nx L c rule: linked.induct) auto

lemma wf_push:
  assumes "wf_chain nx L c" "v \<notin> set c"
  shows "wf_chain (nx(v := None)) (insert (last c, v) L) (c @ [v])"
proof -
  have ne: "c \<noteq> []" "nx (last c) = None" using last_linked assms(1) by (auto simp: wf_chain_def)
  then have lv: "last c \<noteq> v" using assms(2) last_in_set by blast
  have "linked (nx(v := None)) (insert (last c, v) L) c"
    using assms by (intro linked_cong [of c nx "nx(v := None)" L]) (auto simp: wf_chain_def)
  then have "linked (nx(v := None)) (insert (last c, v) L) (c @ [v])"
    by (rule linked_snoc) auto
  then show ?thesis using assms ne lv by (auto simp: wf_chain_def zip_tl_snoc)
qed

lemma zip_tl_unique: "distinct c \<Longrightarrow> (p, v) \<in> set (zip c (tl c)) \<Longrightarrow> (p, w) \<in> set (zip c (tl c)) \<Longrightarrow> v = w"
  by (induction c rule: induct_list012) (auto dest: set_zip_leftD)

lemma linked_link:
  assumes "distinct c" "linked nx L c" "(p, v) \<in> set (zip c (tl c))"
  shows "linked (nx(p := Some v)) (L - {(p, v)}) c"
  using assms
proof (induction nx L c rule: linked.induct)
  case (3 nx L n m ns)
  show ?case
  proof (cases "p = n")
    case True
    then have "v = m" using "3.prems" by (auto dest: set_zip_leftD)
    moreover have "linked (nx(p := Some v)) (L - {(p, v)}) (m # ns)"
      using "3.prems" True by (intro linked_cong [of "m # ns" nx "nx(p := Some v)" L]) auto
    ultimately show ?thesis using True by (auto simp: fun_upd_def)
  next
    case False
    then show ?thesis using 3 by auto
  qed
qed auto

lemma wf_link:
  assumes "wf_chain nx L c" "(p, v) \<in> L"
  shows "wf_chain (nx(p := Some v)) (L - {(p, v)}) c"
proof -
  have pv: "(p, v) \<in> set (zip c (tl c))" using assms by (auto simp: wf_chain_def)
  have "(p, w) \<notin> L - {(p, v)}" for w
    using zip_tl_unique [of c p v w] pv assms by (auto simp: wf_chain_def)
  moreover have "linked (nx(p := Some v)) (L - {(p, v)}) c"
    using assms by (intro linked_link [OF _ _ pv]) (simp_all add: wf_chain_def)
  ultimately show ?thesis using assms(1) by (auto simp: wf_chain_def split: if_splits)
qed

lemma wf_pop:
  assumes "wf_chain nx L (n # c)" "nx n = Some m"
  shows "wf_chain nx L c \<and> c \<noteq> [] \<and> hd c = m"
  using assms by (cases c) (auto simp: wf_chain_def)

section \<open>Invariant\<close>

text \<open>The links that are still to be stored, the consumer's own among them.\<close>

definition gaps :: "'v mpsc \<Rightarrow> (nat \<times> nat) set" where
  "gaps q = links q \<union> (case pc q of Linking n p \<Rightarrow> {(p, stub)} | _ \<Rightarrow> {})"

definition contents :: "'v mpsc \<Rightarrow> 'v list" where
  "contents q = map (val q) (filter (\<lambda>n. n \<noteq> stub) (chain q))"

fun pc_ok :: "cpc \<Rightarrow> nat \<Rightarrow> (nat \<Rightarrow> nat option) \<Rightarrow> nat list \<Rightarrow> bool" where
  "pc_ok Idle c nx ch \<longleftrightarrow> True"
| "pc_ok (Have n nn) c nx ch \<longleftrightarrow> n = c \<and> (\<forall>m. nn = Some m \<longrightarrow> nx n = Some m)"
| "pc_ok (Recycle n) c nx ch \<longleftrightarrow> n = c \<and> n \<noteq> stub \<and> stub \<notin> set ch"
| "pc_ok (Linking n p) c nx ch \<longleftrightarrow> n = c \<and> n \<noteq> stub"
| "pc_ok (Final n) c nx ch \<longleftrightarrow> n = c \<and> n \<noteq> stub"

definition mpsc_inv :: "'v mpsc \<Rightarrow> bool" where
  "mpsc_inv q \<longleftrightarrow>
     wf_chain (nxt q) (gaps q) (chain q) \<and>
     chain q \<noteq> [] \<and> hd (chain q) = consume_end q \<and> last (chain q) = produce_end q \<and>
     (\<forall>n \<in> set (chain q). n < fresh q) \<and> fresh q > 0 \<and>
     (\<forall>(p, n) \<in> links q. n \<noteq> stub) \<and>
     pc_ok (pc q) (consume_end q) (nxt q) (chain q) \<and>
     pushed q = popped q @ contents q"

lemma mpsc_inv_new: "mpsc_inv (mpsc_new dflt)"
  by (simp add: mpsc_inv_def mpsc_new_def gaps_def contents_def wf_chain_def stub_def)

lemma wf_head_gap: "wf_chain nx L c \<Longrightarrow> c \<noteq> [] \<Longrightarrow> nx (last c) = None"
  using last_linked by (auto simp: wf_chain_def)

lemma push_exchange_inv:
  assumes inv: "mpsc_inv q" and n: "n = fresh q"
  shows "mpsc_inv ((exchange n q)\<lparr>val := (val q)(n := v), fresh := Suc n,
           links := insert (produce_end q, n) (links q), pushed := pushed q @ [v]\<rparr>)"
proof -
  have nin: "n \<notin> set (chain q)" and ns: "n \<noteq> stub" using inv n by (auto simp: mpsc_inv_def stub_def)
  have "wf_chain ((nxt q)(n := None)) (insert (last (chain q), n) (gaps q)) (chain q @ [n])"
    using inv nin by (intro wf_push) (simp add: mpsc_inv_def)
  moreover have "map ((val q)(n := v)) (filter (\<lambda>k. k \<noteq> stub) (chain q)) = map (val q) (filter (\<lambda>k. k \<noteq> stub) (chain q))"
    using nin by auto
  moreover have "pc_ok (pc q) (consume_end q) ((nxt q)(n := None)) (chain q @ [n])"
  proof -
    have "consume_end q \<noteq> n" using inv nin by (metis hd_in_set mpsc_inv_def)
    then show ?thesis using inv ns by (cases "pc q") (auto simp: mpsc_inv_def)
  qed
  ultimately show ?thesis using inv n ns
    by (auto simp: mpsc_inv_def exchange_def gaps_def contents_def)
qed

lemma pop_chain:
  assumes inv: "mpsc_inv q" and nx: "nxt q (consume_end q) = Some m"
  obtains c where "chain q = consume_end q # c" "wf_chain (nxt q) (gaps q) c" "c \<noteq> []" "hd c = m"
    "last c = produce_end q"
proof -
  obtain c where ch: "chain q = consume_end q # c"
    using inv by (cases "chain q") (auto simp: mpsc_inv_def)
  moreover from this have "wf_chain (nxt q) (gaps q) c \<and> c \<noteq> [] \<and> hd c = m"
    using inv nx by (intro wf_pop [of _ _ "consume_end q"]) (simp_all add: mpsc_inv_def)
  moreover from calculation have "last c = produce_end q"
    using inv by (auto simp: mpsc_inv_def)
  ultimately show ?thesis using that by blast
qed

lemma pop_to_inv:
  assumes inv: "mpsc_inv q" and n: "consume_end q \<noteq> stub" "nxt q (consume_end q) = Some m"
    and pc: "\<And>x p. pc q \<noteq> Linking x p"
  shows "mpsc_inv (pop_to (consume_end q) m q)"
proof -
  obtain c where c: "chain q = consume_end q # c" "wf_chain (nxt q) (gaps q) c" "c \<noteq> []" "hd c = m"
      "last c = produce_end q" using pop_chain [OF inv n(2)] .
  have "gaps q = links q" using pc by (auto simp: gaps_def split: cpc.splits)
  then show ?thesis using inv c n(1)
    by (auto simp: mpsc_inv_def pop_to_def gaps_def contents_def)
qed

lemma pop_stub_skip_inv:
  assumes inv: "mpsc_inv q" and pc: "pc q = Have stub (Some m)"
  shows "mpsc_inv (q\<lparr>consume_end := m, chain := tl (chain q), pc := Have m (nxt q m)\<rparr>)"
proof -
  have st: "consume_end q = stub" "nxt q (consume_end q) = Some m"
    using inv pc by (auto simp: mpsc_inv_def)
  obtain c where c: "chain q = consume_end q # c" "wf_chain (nxt q) (gaps q) c" "c \<noteq> []" "hd c = m"
      "last c = produce_end q" using pop_chain [OF inv st(2)] .
  then show ?thesis using inv pc st(1)
    by (auto simp: mpsc_inv_def gaps_def contents_def)
qed

lemma pop_tail_inv:
  assumes inv: "mpsc_inv q" and pc: "pc q = Have n None" "n \<noteq> stub" "n = produce_end q"
  shows "mpsc_inv (q\<lparr>pc := Recycle n\<rparr>)"
proof -
  have d: "distinct (chain q)" "chain q \<noteq> []" "hd (chain q) = n" "last (chain q) = n"
    using inv pc by (auto simp: mpsc_inv_def wf_chain_def)
  then have "chain q = [n]"
    by (cases "chain q" rule: list.exhaust) (auto split: if_splits)
  then show ?thesis using inv pc by (auto simp: mpsc_inv_def gaps_def contents_def)
qed

lemma pop_recycle_inv:
  assumes inv: "mpsc_inv q" and pc: "pc q = Recycle n"
  shows "mpsc_inv ((exchange stub q)\<lparr>pc := Linking n (produce_end q)\<rparr>)"
proof -
  have n: "stub \<notin> set (chain q)" "n = consume_end q" "n \<noteq> stub" using inv pc by (auto simp: mpsc_inv_def)
  have g: "gaps q = links q" using pc by (simp add: gaps_def)
  have "wf_chain ((nxt q)(stub := None)) (insert (last (chain q), stub) (gaps q)) (chain q @ [stub])"
    using inv n(1) by (intro wf_push) (simp add: mpsc_inv_def)
  then show ?thesis using inv n g
    by (auto simp: mpsc_inv_def exchange_def gaps_def contents_def stub_def)
qed

lemma link_pc_ok:
  assumes "pc_ok x c nx ch" "nx p = None"
  shows "pc_ok x c (nx(p := Some v)) ch"
  using assms by (cases x) auto

lemma push_link_inv:
  assumes inv: "mpsc_inv q" and pn: "(p, n) \<in> links q"
  shows "mpsc_inv (q\<lparr>nxt := (nxt q)(p := Some n), links := links q - {(p, n)}\<rparr>)"
proof -
  have g: "(p, n) \<in> gaps q" "n \<noteq> stub" using inv pn by (auto simp: gaps_def mpsc_inv_def)
  have "wf_chain ((nxt q)(p := Some n)) (gaps q - {(p, n)}) (chain q)"
    using inv g(1) by (intro wf_link) (simp_all add: mpsc_inv_def)
  moreover have "nxt q p = None" using inv g(1) by (auto simp: mpsc_inv_def wf_chain_def)
  moreover have "gaps (q\<lparr>nxt := (nxt q)(p := Some n), links := links q - {(p, n)}\<rparr>) = gaps q - {(p, n)}"
    using g(2) by (auto simp: gaps_def split: cpc.splits)
  ultimately show ?thesis using inv link_pc_ok [of "pc q" _ "nxt q" _ p n]
    by (auto simp: mpsc_inv_def contents_def)
qed

lemma pop_relink_inv:
  assumes inv: "mpsc_inv q" and pc: "pc q = Linking n p"
  shows "mpsc_inv (q\<lparr>nxt := (nxt q)(p := Some stub), pc := Final n\<rparr>)"
proof -
  have g: "gaps q = insert (p, stub) (links q)" using pc by (simp add: gaps_def)
  have "wf_chain ((nxt q)(p := Some stub)) (gaps q - {(p, stub)}) (chain q)"
    using inv g by (intro wf_link) (simp_all add: mpsc_inv_def)
  moreover have "gaps q - {(p, stub)} = links q" using inv g by (auto simp: mpsc_inv_def)
  ultimately show ?thesis using inv pc by (auto simp: mpsc_inv_def gaps_def contents_def)
qed

lemma mpsc_step_inv:
  assumes inv: "mpsc_inv q" and st: "mpsc_step q r"
  shows "mpsc_inv r"
  using st
proof cases
  case (push_exchange n v)
  then show ?thesis using push_exchange_inv [OF inv] by simp
next
  case (push_link p n)
  then show ?thesis using push_link_inv [OF inv] by simp
next
  case pop_load
  then show ?thesis using inv by (simp add: mpsc_inv_def gaps_def contents_def)
next
  case (pop_stub_empty n)
  then show ?thesis using inv by (simp add: mpsc_inv_def gaps_def contents_def)
next
  case (pop_stub_skip n m)
  then show ?thesis using pop_stub_skip_inv [OF inv] by simp
next
  case (pop_fast n m)
  then have "n = consume_end q" "nxt q n = Some m" using inv by (auto simp: mpsc_inv_def)
  then show ?thesis using pop_to_inv [OF inv, of m] pop_fast by simp
next
  case (pop_not_tail n)
  then show ?thesis using inv by (simp add: mpsc_inv_def gaps_def contents_def)
next
  case (pop_tail n)
  then show ?thesis using pop_tail_inv [OF inv] by simp
next
  case (pop_recycle n)
  then show ?thesis using pop_recycle_inv [OF inv] by simp
next
  case (pop_relink n p)
  then show ?thesis using pop_relink_inv [OF inv] by simp
next
  case (pop_final n m)
  then have "n = consume_end q" "n \<noteq> stub" using inv by (auto simp: mpsc_inv_def)
  then show ?thesis using pop_to_inv [OF inv, of m] pop_final by simp
next
  case (pop_gap n)
  then show ?thesis using inv by (simp add: mpsc_inv_def gaps_def contents_def)
qed

interpretation vyukov: inductive_invariant mpsc_step mpsc_start mpsc_inv
  by unfold_locales (auto simp: mpsc_start_def mpsc_inv_new intro: mpsc_step_inv)

section \<open>The consumer without interference\<close>

text \<open>
  \<open>TryPop\<close> from start to end while no producer takes a step, the composition of the consumer's
  steps above. \<open>Drain\<close> repeats it; its fuel is one more than the number of values.
\<close>

definition TryPop_node :: "nat \<Rightarrow> 'v mpsc \<Rightarrow> bool \<times> 'v mpsc" where
  "TryPop_node node q =
     (case nxt q node of
        Some m \<Rightarrow> (True, pop_to node m q)
      | None \<Rightarrow>
          if node \<noteq> produce_end q then (False, q)
          else let prev = produce_end q; q1 = exchange stub q;
                   q2 = q1\<lparr>nxt := (nxt q1)(prev := Some stub)\<rparr>
               in case nxt q2 node of
                    Some m \<Rightarrow> (True, pop_to node m q2)
                  | None \<Rightarrow> (False, q2))"

definition TryPop :: "'v mpsc \<Rightarrow> bool \<times> 'v mpsc" where
  "TryPop q =
     (if consume_end q = stub
      then case nxt q stub of
             None \<Rightarrow> (False, q)
           | Some m \<Rightarrow> TryPop_node m (q\<lparr>consume_end := m, chain := tl (chain q)\<rparr>)
      else TryPop_node (consume_end q) q)"

fun Drain_mpsc :: "nat \<Rightarrow> 'v mpsc \<Rightarrow> 'v mpsc" where
  "Drain_mpsc 0 q = q"
| "Drain_mpsc (Suc fuel) q =
     (let (ok, q') = TryPop q in if ok then Drain_mpsc fuel q' else q')"

definition quiet :: "'v mpsc \<Rightarrow> bool" where
  "quiet q \<longleftrightarrow> mpsc_inv q \<and> pc q = Idle \<and> links q = {}"

lemma quiet_head:
  assumes "quiet q"
  shows "nxt q (consume_end q) = None \<longleftrightarrow> chain q = [consume_end q]"
proof -
  obtain c where ch: "chain q = consume_end q # c"
    using assms by (cases "chain q") (auto simp: quiet_def mpsc_inv_def)
  then show ?thesis using assms
    by (cases c) (auto simp: quiet_def mpsc_inv_def wf_chain_def gaps_def)
qed

lemma TryPop_node_ok:
  assumes q: "quiet q" and n: "consume_end q \<noteq> stub"
  shows "\<exists>q' x. TryPop_node (consume_end q) q = (True, q') \<and> quiet q' \<and> popped q' = popped q @ [x] \<and>
           contents q = x # contents q' \<and> pushed q' = pushed q"
proof (cases "nxt q (consume_end q)")
  case (Some m)
  have inv: "mpsc_inv q" using q by (simp add: quiet_def)
  have inv': "mpsc_inv (pop_to (consume_end q) m q)"
    using q by (intro pop_to_inv [OF inv n Some]) (auto simp: quiet_def)
  obtain c where "chain q = consume_end q # c" using pop_chain [OF inv Some] by blast
  then have "contents q = val q (consume_end q) # contents (pop_to (consume_end q) m q)"
    using n by (simp add: contents_def pop_to_def)
  then show ?thesis using inv' q Some
    by (simp add: TryPop_node_def quiet_def) (simp add: pop_to_def)
next
  case None
  then have ch: "chain q = [consume_end q]" using quiet_head [OF q] by simp
  then have pe: "produce_end q = consume_end q" using q by (simp add: quiet_def mpsc_inv_def)
  let ?n = "consume_end q"
  let ?q2 = "(exchange stub q)\<lparr>nxt := ((nxt q)(stub := None))(?n := Some stub)\<rparr>"
  have r1: "mpsc_inv (q\<lparr>pc := Recycle ?n\<rparr>)"
    using q ch n by (auto simp: quiet_def mpsc_inv_def gaps_def contents_def)
  from pop_relink_inv [OF pop_recycle_inv [OF r1, of ?n], of ?n ?n] pe
  have r2: "mpsc_inv (?q2\<lparr>pc := Final ?n\<rparr>)" by (simp add: exchange_def)
  have inv': "mpsc_inv (pop_to ?n stub ?q2)"
    using pop_to_inv [OF r2, of stub] n by (simp add: pop_to_def exchange_def)
  have res: "TryPop_node ?n q = (True, pop_to ?n stub ?q2)"
    using None pe by (simp add: TryPop_node_def Let_def exchange_def)
  have "contents q = [val q ?n]" "contents (pop_to ?n stub ?q2) = []"
    using ch n by (simp_all add: contents_def pop_to_def exchange_def)
  then show ?thesis using res inv' q by (simp add: quiet_def) (simp add: pop_to_def exchange_def)
qed

lemma TryPop_quiet:
  assumes q: "quiet q"
  shows "(contents q = [] \<and> TryPop q = (False, q)) \<or>
         (\<exists>q' x. TryPop q = (True, q') \<and> quiet q' \<and> popped q' = popped q @ [x] \<and>
           contents q = x # contents q' \<and> pushed q' = pushed q)"
proof (cases "consume_end q = stub")
  case False
  then show ?thesis using TryPop_node_ok [OF q False] by (auto simp: TryPop_def)
next
  case True
  show ?thesis
  proof (cases "nxt q stub")
    case None
    then have "chain q = [stub]" using quiet_head [OF q] True by simp
    then show ?thesis using None True by (simp add: TryPop_def contents_def)
  next
    case (Some m)
    let ?q = "q\<lparr>consume_end := m, chain := tl (chain q)\<rparr>"
    have inv: "mpsc_inv q" using q by (simp add: quiet_def)
    obtain c where c: "chain q = stub # c" "wf_chain (nxt q) (gaps q) c" "c \<noteq> []" "hd c = m"
        "last c = produce_end q"
      using pop_chain [OF inv, of m] Some True by auto
    have "distinct (chain q)" using inv by (simp add: mpsc_inv_def wf_chain_def)
    then have m: "m \<noteq> stub" using c hd_in_set [OF c(3)] by auto
    have "quiet ?q" using q c True by (auto simp: quiet_def mpsc_inv_def gaps_def contents_def)
    moreover have "contents ?q = contents q" using c(1) by (simp add: contents_def)
    ultimately show ?thesis
      using TryPop_node_ok [of ?q] m Some True by (auto simp: TryPop_def)
  qed
qed

lemma Drain_quiet:
  "quiet q \<Longrightarrow> length (contents q) < fuel \<Longrightarrow>
     popped (Drain_mpsc fuel q) = pushed q \<and> contents (Drain_mpsc fuel q) = []"
proof (induction fuel arbitrary: q)
  case (Suc fuel)
  from TryPop_quiet [OF Suc.prems(1)] show ?case
  proof
    assume "contents q = [] \<and> TryPop q = (False, q)"
    then show ?thesis using Suc.prems(1) by (simp add: quiet_def mpsc_inv_def)
  next
    assume "\<exists>q' x. TryPop q = (True, q') \<and> quiet q' \<and> popped q' = popped q @ [x] \<and>
           contents q = x # contents q' \<and> pushed q' = pushed q"
    then obtain q' x where "TryPop q = (True, q')" "quiet q'" "contents q = x # contents q'" "pushed q' = pushed q"
      by blast
    with Suc.IH [of q'] Suc.prems(2) show ?thesis by simp
  qed
qed simp

section \<open>Properties\<close>

text \<open>
  C21: The queue is a FIFO for every interleaving of producers and the consumer: the values pushed,
  in the order in which the producers exchanged \<open>produce_end\<close>, are the values popped followed by
  those still in the queue. A node that a producer is about to link from is still in the chain, so
  no producer ever writes to a deleted node.
\<close>

theorem mpsc_fifo:
  assumes "reachable_from mpsc_step mpsc_start q"
  shows "pushed q = popped q @ contents q \<and> (\<forall>(p, n) \<in> links q. p \<in> set (chain q) \<and> nxt q p = None)"
proof -
  have inv: "mpsc_inv q" using vyukov.reachable_inv [OF assms] .
  have "p \<in> set (chain q) \<and> nxt q p = None" if "(p, n) \<in> links q" for p n
  proof -
    have "(p, n) \<in> gaps q" using that by (simp add: gaps_def)
    then show ?thesis using inv by (auto simp: mpsc_inv_def wf_chain_def dest: set_zip_leftD)
  qed
  then show ?thesis using inv by (auto simp: mpsc_inv_def)
qed

text \<open>Two pushes exchange, and only the second one has linked: the queue has a gap.\<close>

definition gap_queue :: "nat mpsc" where
  "gap_queue =
     \<lparr>nxt = (\<lambda>_. None)(1 := Some 2), val = (\<lambda>_. 0)(1 := 10, 2 := 20), consume_end = 0, produce_end = 2,
      links = {(0, 1)}, pc = Idle, fresh = 3, chain = [0, 1, 2], pushed = [10, 20], popped = []\<rparr>"

lemma gap_queue_reachable: "reachable_from mpsc_step mpsc_start gap_queue"
proof -
  let ?q0 = "mpsc_new (\<lambda>_. 0 :: nat)"
  let ?q1 = "(exchange 1 ?q0)\<lparr>val := (val ?q0)(1 := 10), fresh := Suc 1,
      links := insert (produce_end ?q0, 1) (links ?q0), pushed := pushed ?q0 @ [10]\<rparr>"
  let ?q2 = "(exchange 2 ?q1)\<lparr>val := (val ?q1)(2 := 20), fresh := Suc 2,
      links := insert (produce_end ?q1, 2) (links ?q1), pushed := pushed ?q1 @ [20]\<rparr>"
  have "mpsc_start ?q0" by (auto simp: mpsc_start_def)
  then have "reachable_from mpsc_step mpsc_start ?q0" by (rule reach_start)
  moreover have "mpsc_step ?q0 ?q1" by (rule push_exchange) (simp add: mpsc_new_def)
  ultimately have "reachable_from mpsc_step mpsc_start ?q1" by (rule reach_step)
  moreover have "mpsc_step ?q1 ?q2" by (rule push_exchange) (simp add: mpsc_new_def exchange_def)
  ultimately have "reachable_from mpsc_step mpsc_start ?q2" by (rule reach_step)
  moreover have "mpsc_step ?q2 (?q2\<lparr>nxt := (nxt ?q2)(1 := Some 2), links := links ?q2 - {(1, 2)}\<rparr>)"
    by (rule push_link) (simp add: mpsc_new_def exchange_def)
  ultimately have "reachable_from mpsc_step mpsc_start
      (?q2\<lparr>nxt := (nxt ?q2)(1 := Some 2), links := links ?q2 - {(1, 2)}\<rparr>)" by (rule reach_step)
  moreover have "?q2\<lparr>nxt := (nxt ?q2)(1 := Some 2), links := links ?q2 - {(1, 2)}\<rparr> = gap_queue"
    by (simp add: gap_queue_def mpsc_new_def exchange_def stub_def fun_eq_iff)
  ultimately show ?thesis by simp
qed

theorem mpsc_fifo_witness:
  "pushed gap_queue = popped gap_queue @ contents gap_queue \<and> contents gap_queue = [10, 20] \<and>
   0 \<in> set (chain gap_queue) \<and> nxt gap_queue 0 = None"
  using mpsc_fifo [OF gap_queue_reachable] by (simp add: gap_queue_def contents_def stub_def)

text \<open>
  C22: When every producer has finished linking, \<open>Drain\<close> delivers everything: from any reachable
  state with no push in progress and the consumer outside \<open>TryPop\<close>, all pushed values have been
  popped afterwards, in order, and the queue is empty.
\<close>

theorem mpsc_drain_complete:
  assumes "reachable_from mpsc_step mpsc_start q" "links q = {}" "pc q = Idle" "length (contents q) < fuel"
  shows "popped (Drain_mpsc fuel q) = pushed q \<and> contents (Drain_mpsc fuel q) = []"
  using assms vyukov.reachable_inv [OF assms(1)] by (intro Drain_quiet) (simp_all add: quiet_def)

theorem mpsc_drain_complete_witness:
  "popped (Drain_mpsc 3 (gap_queue\<lparr>nxt := (nxt gap_queue)(0 := Some 1), links := links gap_queue - {(0, 1)}\<rparr>)) = [10, 20]"
proof -
  let ?q = "gap_queue\<lparr>nxt := (nxt gap_queue)(0 := Some 1), links := links gap_queue - {(0, 1)}\<rparr>"
  have "mpsc_step gap_queue ?q" by (rule push_link) (simp add: gap_queue_def)
  with gap_queue_reachable have "reachable_from mpsc_step mpsc_start ?q" by (rule reach_step)
  then have "popped (Drain_mpsc 3 ?q) = pushed ?q \<and> contents (Drain_mpsc 3 ?q) = []"
    by (rule mpsc_drain_complete) (simp_all add: gap_queue_def contents_def stub_def)
  then show ?thesis by (simp add: gap_queue_def)
qed

end
