(* ===== verification/Unordered_Map.thy ===== *)
theory Unordered_Map
  imports Runtime_Prelude "HOL-Library.AList"
begin

text \<open>
  The operations of \<open>std::unordered_map\<close> the sources use, on association lists with distinct keys.
  The order of the list stands for an iteration order the library leaves open.
\<close>

type_synonym ('k, 'v) umap = "('k \<times> 'v) list"

definition um_ok :: "('k, 'v) umap \<Rightarrow> bool" where
  "um_ok m \<longleftrightarrow> distinct (map fst m)"

definition um_contains :: "('k, 'v) umap \<Rightarrow> 'k \<Rightarrow> bool" where
  "um_contains m k \<longleftrightarrow> map_of m k \<noteq> None"

text \<open>\<open>emplace\<close> does nothing when the key is there; \<open>m[k] = v\<close> overwrites.\<close>

definition um_emplace :: "'k \<Rightarrow> 'v \<Rightarrow> ('k, 'v) umap \<Rightarrow> bool \<times> ('k, 'v) umap" where
  "um_emplace k v m = (if um_contains m k then (False, m) else (True, m @ [(k, v)]))"

definition um_assign :: "'k \<Rightarrow> 'v \<Rightarrow> ('k, 'v) umap \<Rightarrow> ('k, 'v) umap" where
  "um_assign k v m = AList.update k v m"

definition um_erase :: "'k \<Rightarrow> ('k, 'v) umap \<Rightarrow> ('k, 'v) umap" where
  "um_erase k m = AList.delete k m"

named_theorems um_simps \<open>lookup after an update, and that updates keep the keys distinct\<close>

lemma um_lookup [um_simps]:
  "map_of (snd (um_emplace k v m)) = (if um_contains m k then map_of m else (map_of m)(k \<mapsto> v))"
  "map_of (um_assign k v m) = (map_of m)(k \<mapsto> v)"
  "map_of (um_erase k m) = (map_of m)(k := None)"
  by (auto simp: um_emplace_def um_assign_def um_erase_def um_contains_def update_conv' delete_conv'
      map_add_def fun_eq_iff split: option.splits)

lemma um_ok_keep [um_simps]:
  "um_ok [] "
  "um_ok m \<Longrightarrow> um_ok (snd (um_emplace k v m))"
  "um_ok m \<Longrightarrow> um_ok (um_assign k v m)"
  "um_ok m \<Longrightarrow> um_ok (um_erase k m)"
  by (auto simp: um_ok_def um_emplace_def um_assign_def um_erase_def um_contains_def
      distinct_update distinct_delete map_of_eq_None_iff)

lemma um_contains_simps [simp]:
  "um_contains m k \<longleftrightarrow> k \<in> dom (map_of m)"
  by (auto simp: um_contains_def)

lemma fst_um_emplace [simp]: "fst (um_emplace k v m) \<longleftrightarrow> map_of m k = None"
  by (auto simp: um_emplace_def)

lemma um_ok_values: "um_ok m \<Longrightarrow> set (map snd m) = ran (map_of m)"
  by (simp add: um_ok_def ran_distinct)

lemma um_ok_length: "um_ok m \<Longrightarrow> length m = card (dom (map_of m))"
  by (simp add: um_ok_def dom_map_of_conv_image_fst distinct_card flip: set_map)

lemma um_erase_size: "um_ok m \<Longrightarrow> map_of m k \<noteq> None \<Longrightarrow> length (um_erase k m) < length m"
  by (auto simp: um_erase_def AList.delete_eq intro!: length_filter_less dest: map_of_SomeD)

end
