(* ===== verification/Player_Registry.thy ===== *)
theory Player_Registry
  imports Unordered_Map
begin

text \<open>
  \<^verbatim>\<open>src/modules/game/PlayerRegistry.cpp\<close>: which session plays which player, in which room. Every
  operation runs under the registry's mutex, so a history is a sequence of calls. A room pointer is
  an address, \<open>None\<close> the null pointer. The specification below it is a set of records; the registry
  with its two indexes implements it.
\<close>

section \<open>The registry\<close>

type_synonym PlayerId = u64
type_synonym RoomId = u32

record PlayerRecord =
  rec_session :: SessionId
  rec_player :: PlayerId
  rec_room_id :: RoomId
  rec_room :: "nat option"

record PlayerRegistry =
  by_session :: "(SessionId, PlayerRecord) umap"
  by_player :: "(PlayerId, SessionId) umap"

definition PlayerRegistry_new :: PlayerRegistry where
  "PlayerRegistry_new = \<lparr>by_session = [], by_player = []\<rparr>"

definition Register :: "SessionId \<Rightarrow> PlayerId \<Rightarrow> PlayerRegistry \<Rightarrow> bool \<times> PlayerRegistry" where
  "Register s p r =
     (if s = 0 \<or> p = 0 then (False, r)
      else if um_contains (by_session r) s \<or> um_contains (by_player r) p then (False, r)
      else (True, r\<lparr>by_session := snd (um_emplace s \<lparr>rec_session = s, rec_player = p, rec_room_id = 0, rec_room = None\<rparr>
                                        (by_session r)),
                    by_player := snd (um_emplace p s (by_player r))\<rparr>))"

definition UnregisterBySession :: "SessionId \<Rightarrow> PlayerRegistry \<Rightarrow> PlayerRecord option \<times> PlayerRegistry" where
  "UnregisterBySession s r =
     (case map_of (by_session r) s of
        None \<Rightarrow> (None, r)
      | Some record \<Rightarrow>
          (Some record, r\<lparr>by_player := um_erase (rec_player record) (by_player r),
                          by_session := um_erase s (by_session r)\<rparr>))"

definition UnregisterByPlayer :: "PlayerId \<Rightarrow> PlayerRegistry \<Rightarrow> PlayerRecord option \<times> PlayerRegistry" where
  "UnregisterByPlayer p r =
     (case map_of (by_player r) p of
        None \<Rightarrow> (None, r)
      | Some s \<Rightarrow>
          (case map_of (by_session r) s of
             None \<Rightarrow> (None, r\<lparr>by_player := um_erase p (by_player r)\<rparr>)
           | Some record \<Rightarrow>
               (Some record, r\<lparr>by_session := um_erase s (by_session r),
                               by_player := um_erase p (by_player r)\<rparr>)))"

definition BindRoomLocked :: "RoomId \<Rightarrow> nat option \<Rightarrow> PlayerRecord \<Rightarrow> bool \<times> PlayerRecord" where
  "BindRoomLocked rid room record =
     (if rid = 0 \<or> room = None then (False, record)
      else (True, record\<lparr>rec_room_id := rid, rec_room := room\<rparr>))"

definition ClearRoomLocked :: "PlayerRecord \<Rightarrow> bool \<times> PlayerRecord" where
  "ClearRoomLocked record = (True, record\<lparr>rec_room_id := 0, rec_room := None\<rparr>)"

text \<open>The helpers work on a reference to the record in the map.\<close>

definition with_record ::
  "(PlayerRecord \<Rightarrow> bool \<times> PlayerRecord) \<Rightarrow> SessionId \<Rightarrow> PlayerRegistry \<Rightarrow> bool \<times> PlayerRegistry" where
  "with_record f s r =
     (case map_of (by_session r) s of
        None \<Rightarrow> (False, r)
      | Some record \<Rightarrow>
          (let (ok, record') = f record in (ok, r\<lparr>by_session := um_assign s record' (by_session r)\<rparr>)))"

definition BindRoomBySession :: "SessionId \<Rightarrow> RoomId \<Rightarrow> nat option \<Rightarrow> PlayerRegistry \<Rightarrow> bool \<times> PlayerRegistry" where
  "BindRoomBySession s rid room r = with_record (BindRoomLocked rid room) s r"

definition BindRoomByPlayer :: "PlayerId \<Rightarrow> RoomId \<Rightarrow> nat option \<Rightarrow> PlayerRegistry \<Rightarrow> bool \<times> PlayerRegistry" where
  "BindRoomByPlayer p rid room r =
     (case map_of (by_player r) p of None \<Rightarrow> (False, r) | Some s \<Rightarrow> with_record (BindRoomLocked rid room) s r)"

definition ClearRoomBySession :: "SessionId \<Rightarrow> PlayerRegistry \<Rightarrow> bool \<times> PlayerRegistry" where
  "ClearRoomBySession s r = with_record ClearRoomLocked s r"

definition ClearRoomByPlayer :: "PlayerId \<Rightarrow> PlayerRegistry \<Rightarrow> bool \<times> PlayerRegistry" where
  "ClearRoomByPlayer p r =
     (case map_of (by_player r) p of None \<Rightarrow> (False, r) | Some s \<Rightarrow> with_record ClearRoomLocked s r)"

definition FindBySession :: "SessionId \<Rightarrow> PlayerRegistry \<Rightarrow> PlayerRecord option" where
  "FindBySession s r = map_of (by_session r) s"

definition FindByPlayer :: "PlayerId \<Rightarrow> PlayerRegistry \<Rightarrow> PlayerRecord option" where
  "FindByPlayer p r = (case map_of (by_player r) p of None \<Rightarrow> None | Some s \<Rightarrow> map_of (by_session r) s)"

definition Records :: "PlayerRegistry \<Rightarrow> PlayerRecord list" where
  "Records r = map snd (by_session r)"

definition PlayerCount :: "PlayerRegistry \<Rightarrow> u32" where
  "PlayerCount r = of_nat (length (by_session r))"

section \<open>Histories\<close>

datatype registry_call =
    CallRegister SessionId PlayerId
  | CallUnregisterBySession SessionId
  | CallUnregisterByPlayer PlayerId
  | CallBindRoomBySession SessionId RoomId "nat option"
  | CallBindRoomByPlayer PlayerId RoomId "nat option"
  | CallClearRoomBySession SessionId
  | CallClearRoomByPlayer PlayerId
  | CallFindBySession SessionId
  | CallFindByPlayer PlayerId

datatype registry_result = Done bool | Found "PlayerRecord option"

fun registry_exec :: "registry_call \<Rightarrow> PlayerRegistry \<Rightarrow> registry_result \<times> PlayerRegistry" where
  "registry_exec (CallRegister s p) r = map_prod Done id (Register s p r)"
| "registry_exec (CallUnregisterBySession s) r = map_prod Found id (UnregisterBySession s r)"
| "registry_exec (CallUnregisterByPlayer p) r = map_prod Found id (UnregisterByPlayer p r)"
| "registry_exec (CallBindRoomBySession s rid room) r = map_prod Done id (BindRoomBySession s rid room r)"
| "registry_exec (CallBindRoomByPlayer p rid room) r = map_prod Done id (BindRoomByPlayer p rid room r)"
| "registry_exec (CallClearRoomBySession s) r = map_prod Done id (ClearRoomBySession s r)"
| "registry_exec (CallClearRoomByPlayer p) r = map_prod Done id (ClearRoomByPlayer p r)"
| "registry_exec (CallFindBySession s) r = (Found (FindBySession s r), r)"
| "registry_exec (CallFindByPlayer p) r = (Found (FindByPlayer p r), r)"

fun registry_run :: "registry_call list \<Rightarrow> PlayerRegistry \<Rightarrow> registry_result list \<times> PlayerRegistry" where
  "registry_run [] r = ([], r)"
| "registry_run (c # cs) r =
     (let (x, r') = registry_exec c r; (xs, r'') = registry_run cs r' in (x # xs, r''))"

section \<open>Specification: a set of records\<close>

text \<open>\<open>P\<close> selects the record by its session or by its player; \<open>f\<close> is what happens to it.\<close>

definition spec_find :: "(PlayerRecord \<Rightarrow> bool) \<Rightarrow> PlayerRecord set \<Rightarrow> PlayerRecord option \<Rightarrow> bool" where
  "spec_find P R x \<longleftrightarrow> (case x of None \<Rightarrow> (\<forall>c \<in> R. \<not> P c) | Some c \<Rightarrow> c \<in> R \<and> P c)"

definition spec_update ::
  "(PlayerRecord \<Rightarrow> bool) \<Rightarrow> (PlayerRecord \<Rightarrow> bool \<times> PlayerRecord) \<Rightarrow> PlayerRecord set \<Rightarrow> registry_result \<Rightarrow> PlayerRecord set \<Rightarrow> bool" where
  "spec_update P f R x R' \<longleftrightarrow>
     (\<exists>c. spec_find P R c \<and>
        (case c of None \<Rightarrow> x = Done False \<and> R' = R
         | Some c \<Rightarrow> x = Done (fst (f c)) \<and> R' = insert (snd (f c)) (R - {c})))"

definition spec_remove :: "(PlayerRecord \<Rightarrow> bool) \<Rightarrow> PlayerRecord set \<Rightarrow> registry_result \<Rightarrow> PlayerRecord set \<Rightarrow> bool" where
  "spec_remove P R x R' \<longleftrightarrow> (\<exists>c. spec_find P R c \<and> x = Found c \<and> R' = R - set_option c)"

fun spec_exec :: "registry_call \<Rightarrow> PlayerRecord set \<Rightarrow> registry_result \<Rightarrow> PlayerRecord set \<Rightarrow> bool" where
  "spec_exec (CallRegister s p) R x R' \<longleftrightarrow>
     (if s = 0 \<or> p = 0 \<or> (\<exists>c \<in> R. rec_session c = s \<or> rec_player c = p) then x = Done False \<and> R' = R
      else x = Done True \<and> R' = insert \<lparr>rec_session = s, rec_player = p, rec_room_id = 0, rec_room = None\<rparr> R)"
| "spec_exec (CallUnregisterBySession s) R x R' \<longleftrightarrow> spec_remove (\<lambda>c. rec_session c = s) R x R'"
| "spec_exec (CallUnregisterByPlayer p) R x R' \<longleftrightarrow> spec_remove (\<lambda>c. rec_player c = p) R x R'"
| "spec_exec (CallBindRoomBySession s rid room) R x R' \<longleftrightarrow>
     spec_update (\<lambda>c. rec_session c = s) (BindRoomLocked rid room) R x R'"
| "spec_exec (CallBindRoomByPlayer p rid room) R x R' \<longleftrightarrow>
     spec_update (\<lambda>c. rec_player c = p) (BindRoomLocked rid room) R x R'"
| "spec_exec (CallClearRoomBySession s) R x R' \<longleftrightarrow> spec_update (\<lambda>c. rec_session c = s) ClearRoomLocked R x R'"
| "spec_exec (CallClearRoomByPlayer p) R x R' \<longleftrightarrow> spec_update (\<lambda>c. rec_player c = p) ClearRoomLocked R x R'"
| "spec_exec (CallFindBySession s) R x R' \<longleftrightarrow> (\<exists>c. spec_find (\<lambda>c. rec_session c = s) R c \<and> x = Found c \<and> R' = R)"
| "spec_exec (CallFindByPlayer p) R x R' \<longleftrightarrow> (\<exists>c. spec_find (\<lambda>c. rec_player c = p) R c \<and> x = Found c \<and> R' = R)"

fun spec_run :: "registry_call list \<Rightarrow> PlayerRecord set \<Rightarrow> registry_result list \<Rightarrow> PlayerRecord set \<Rightarrow> bool" where
  "spec_run [] R xs R' \<longleftrightarrow> xs = [] \<and> R' = R"
| "spec_run (c # cs) R xs R' \<longleftrightarrow>
     (case xs of [] \<Rightarrow> False | x # xs' \<Rightarrow> \<exists>R1. spec_exec c R x R1 \<and> spec_run cs R1 xs' R')"

section \<open>Refinement\<close>

definition index_ok :: "(SessionId \<rightharpoonup> PlayerRecord) \<Rightarrow> (PlayerId \<rightharpoonup> SessionId) \<Rightarrow> bool" where
  "index_ok bs bp \<longleftrightarrow>
     (\<forall>s c. bs s = Some c \<longrightarrow> rec_session c = s \<and> bp (rec_player c) = Some s) \<and>
     (\<forall>p s. bp p = Some s \<longrightarrow> (\<exists>c. bs s = Some c \<and> rec_player c = p))"

definition registry_inv :: "PlayerRegistry \<Rightarrow> bool" where
  "registry_inv r \<longleftrightarrow> um_ok (by_session r) \<and> um_ok (by_player r) \<and>
     index_ok (map_of (by_session r)) (map_of (by_player r))"

definition registry_abs :: "PlayerRegistry \<Rightarrow> PlayerRecord set" where
  "registry_abs r = ran (map_of (by_session r))"

lemma index_find:
  assumes "index_ok bs bp"
  shows "spec_find (\<lambda>c. rec_session c = s) (ran bs) (bs s)"
    "spec_find (\<lambda>c. rec_player c = p) (ran bs) (case bp p of None \<Rightarrow> None | Some s \<Rightarrow> bs s)"
  using assms by (auto simp: spec_find_def index_ok_def ran_def split: option.splits) fastforce+

lemma index_okD:
  "index_ok bs bp \<Longrightarrow> bs s = Some c \<Longrightarrow> rec_session c = s \<and> bp (rec_player c) = Some s"
  "index_ok bs bp \<Longrightarrow> bp p = Some s \<Longrightarrow> \<exists>c. bs s = Some c \<and> rec_player c = p"
  by (auto simp: index_ok_def)

lemma index_okI:
  "(\<And>s c. bs s = Some c \<Longrightarrow> rec_session c = s \<and> bp (rec_player c) = Some s) \<Longrightarrow>
   (\<And>p s. bp p = Some s \<Longrightarrow> \<exists>c. bs s = Some c \<and> rec_player c = p) \<Longrightarrow> index_ok bs bp"
  by (auto simp: index_ok_def)

lemma index_ran:
  assumes "index_ok bs bp" "bs s = Some c"
  shows "ran (bs(s := None)) = ran bs - {c}"
proof -
  have "bs a = Some b \<and> a \<noteq> s \<longleftrightarrow> bs a = Some b \<and> b \<noteq> c" for a b
    using index_okD(1) [OF assms(1), of a b] index_okD(1) [OF assms] assms(2) by auto
  then show ?thesis by (simp add: ran_def set_eq_iff) metis
qed

lemma index_remove:
  assumes "index_ok bs bp" "bs s = Some c"
  shows "index_ok (bs(s := None)) (bp(rec_player c := None))"
proof (rule index_okI)
  fix s' c' assume a: "(bs(s := None)) s' = Some c'"
  then have "bs s' = Some c'" "s' \<noteq> s" by (auto split: if_splits)
  moreover have "rec_player c' \<noteq> rec_player c" 
    using index_okD(1) [OF assms(1) calculation(1)] index_okD(1) [OF assms] calculation(2) by auto
  ultimately show "rec_session c' = s' \<and> (bp(rec_player c := None)) (rec_player c') = Some s'"
    using index_okD(1) [OF assms(1)] by simp
next
  fix p s' assume "(bp(rec_player c := None)) p = Some s'"
  then have "bp p = Some s'" "p \<noteq> rec_player c" by (auto split: if_splits)
  moreover from index_okD(2) [OF assms(1) calculation(1)] obtain c' where "bs s' = Some c'" "rec_player c' = p" by blast
  moreover have "s' \<noteq> s" using calculation assms(2) by auto
  ultimately show "\<exists>c'. (bs(s := None)) s' = Some c' \<and> rec_player c' = p" by simp
qed

lemma index_update:
  assumes "index_ok bs bp" "bs s = Some c" "rec_session c' = rec_session c" "rec_player c' = rec_player c"
  shows "index_ok (bs(s \<mapsto> c')) bp"
proof (rule index_okI)
  note c = index_okD(1) [OF assms(1,2)]
  fix a b assume "(bs(s \<mapsto> c')) a = Some b"
  then show "rec_session b = a \<and> bp (rec_player b) = Some a"
    using c assms(3,4) index_okD(1) [OF assms(1)] by (auto split: if_splits)
next
  fix p a assume "bp p = Some a"
  from index_okD(2) [OF assms(1) this] show "\<exists>b. (bs(s \<mapsto> c')) a = Some b \<and> rec_player b = p"
    using assms(2,4) by auto
qed

lemma index_insert:
  assumes "index_ok bs bp" "bs s = None" "bp p = None" "rec_session c = s" "rec_player c = p"
  shows "index_ok (bs(s \<mapsto> c)) (bp(p \<mapsto> s))"
  using assms by (intro index_okI) (auto split: if_splits dest: index_okD)

lemma ran_update: "bs s = Some c \<Longrightarrow> ran (bs(s \<mapsto> c')) = insert c' (ran (bs(s := None)))"
  by (auto simp: ran_def)

lemma index_fresh:
  assumes "index_ok bs bp"
  shows "(\<exists>c \<in> ran bs. rec_session c = s \<or> rec_player c = p) \<longleftrightarrow> bs s \<noteq> None \<or> bp p \<noteq> None"
  using assms by (fastforce simp: index_ok_def ran_def)

lemma index_player: "index_ok bs bp \<Longrightarrow> bp p = Some s \<Longrightarrow> \<exists>c. bs s = Some c \<and> rec_player c = p"
  by (auto simp: index_ok_def)

lemma Locked_keys [simp]:
  "rec_session (snd (BindRoomLocked rid room c)) = rec_session c"
  "rec_player (snd (BindRoomLocked rid room c)) = rec_player c"
  "rec_session (snd (ClearRoomLocked c)) = rec_session c"
  "rec_player (snd (ClearRoomLocked c)) = rec_player c"
  by (simp_all add: BindRoomLocked_def ClearRoomLocked_def)

lemma Register_refines:
  assumes "registry_inv r"
  shows "registry_inv (snd (Register s p r))"
    "spec_exec (CallRegister s p) (registry_abs r) (Done (fst (Register s p r))) (registry_abs (snd (Register s p r)))"
proof -
  let ?c = "\<lparr>rec_session = s, rec_player = p, rec_room_id = 0, rec_room = None\<rparr>"
  have i: "index_ok (map_of (by_session r)) (map_of (by_player r))" using assms by (simp add: registry_inv_def)
  note f = index_fresh [OF i, of s p] and n = index_insert [OF i, of s p ?c] ran_map_upd [of "map_of (by_session r)" s ?c]
  show "registry_inv (snd (Register s p r))"
    using assms n(1) by (auto simp: Register_def registry_inv_def um_simps domIff)
  show "spec_exec (CallRegister s p) (registry_abs r) (Done (fst (Register s p r))) (registry_abs (snd (Register s p r)))"
    using f n(2) by (auto simp: Register_def registry_abs_def um_simps domIff)
qed

lemma with_record_refines:
  assumes "registry_inv r" "\<And>c. rec_session (snd (f c)) = rec_session c \<and> rec_player (snd (f c)) = rec_player c"
    and P: "\<And>c. map_of (by_session r) s = Some c \<Longrightarrow> P c" "map_of (by_session r) s = None \<Longrightarrow> \<forall>c \<in> registry_abs r. \<not> P c"
  shows "registry_inv (snd (with_record f s r))"
    "spec_update P f (registry_abs r) (Done (fst (with_record f s r))) (registry_abs (snd (with_record f s r)))"
proof -
  have i: "index_ok (map_of (by_session r)) (map_of (by_player r))" using assms by (simp add: registry_inv_def)
  show "registry_inv (snd (with_record f s r))"
    using assms(1) index_update [OF i] assms(2)
    by (auto simp: with_record_def registry_inv_def um_simps split: option.splits prod.splits)
       (metis snd_conv)
  show "spec_update P f (registry_abs r) (Done (fst (with_record f s r))) (registry_abs (snd (with_record f s r)))"
  proof (cases "map_of (by_session r) s")
    case None
    then show ?thesis using P(2) by (auto simp: with_record_def spec_update_def spec_find_def intro!: exI [of _ None])
  next
    case (Some c)
    have "c \<in> registry_abs r" using Some by (auto simp: registry_abs_def ran_def)
    then show ?thesis using Some P(1) ran_update [where bs = "map_of (by_session r)", OF Some] index_ran [OF i Some] assms(2) [of c]
      by (auto simp: with_record_def spec_update_def spec_find_def registry_abs_def um_simps
          split: prod.splits intro!: exI [of _ "Some c"])
  qed
qed

lemma UnregisterBySession_refines:
  assumes "registry_inv r"
  shows "registry_inv (snd (UnregisterBySession s r))"
    "spec_remove (\<lambda>c. rec_session c = s) (registry_abs r) (Found (fst (UnregisterBySession s r)))
       (registry_abs (snd (UnregisterBySession s r)))"
proof -
  have i: "index_ok (map_of (by_session r)) (map_of (by_player r))" using assms by (simp add: registry_inv_def)
  note f = index_find(1) [OF i, of s] and d = index_remove [OF i] index_ran [OF i]
  show "registry_inv (snd (UnregisterBySession s r))"
    using assms d by (auto simp: UnregisterBySession_def registry_inv_def um_simps split: option.splits)
  show "spec_remove (\<lambda>c. rec_session c = s) (registry_abs r) (Found (fst (UnregisterBySession s r)))
       (registry_abs (snd (UnregisterBySession s r)))"
    using f d(2) by (auto simp: UnregisterBySession_def spec_remove_def registry_abs_def um_simps split: option.splits)
qed

lemma UnregisterByPlayer_eq:
  assumes "registry_inv r"
  shows "UnregisterByPlayer p r =
    (case map_of (by_player r) p of None \<Rightarrow> (None, r) | Some s \<Rightarrow> UnregisterBySession s r)"
proof (cases "map_of (by_player r) p")
  case (Some s)
  have "index_ok (map_of (by_session r)) (map_of (by_player r))" using assms by (simp add: registry_inv_def)
  from index_okD(2) [OF this Some] Some show ?thesis
    by (auto simp: UnregisterByPlayer_def UnregisterBySession_def)
qed (simp add: UnregisterByPlayer_def)

lemma by_player_key:
  assumes "registry_inv r" "map_of (by_player r) p = Some s"
  shows "\<exists>c. map_of (by_session r) s = Some c \<and> rec_player c = p"
proof -
  have "index_ok (map_of (by_session r)) (map_of (by_player r))" using assms(1) by (simp add: registry_inv_def)
  from index_okD(2) [OF this assms(2)] show ?thesis .
qed

lemma by_player_none:
  assumes "registry_inv r" "map_of (by_player r) p = None" "c \<in> registry_abs r"
  shows "rec_player c \<noteq> p"
  using assms index_okD(1) [of "map_of (by_session r)" "map_of (by_player r)" _ c]
  by (auto simp: registry_inv_def registry_abs_def ran_def)

lemma abs_session_unique:
  assumes "registry_inv r" "c \<in> registry_abs r"
  shows "map_of (by_session r) (rec_session c) = Some c"
  using assms index_okD(1) [of "map_of (by_session r)" "map_of (by_player r)" _ c]
  by (auto simp: registry_inv_def registry_abs_def ran_def)

lemma UnregisterByPlayer_refines:
  assumes "registry_inv r"
  shows "registry_inv (snd (UnregisterByPlayer p r))"
    "spec_remove (\<lambda>c. rec_player c = p) (registry_abs r) (Found (fst (UnregisterByPlayer p r)))
       (registry_abs (snd (UnregisterByPlayer p r)))"
proof -
  show "registry_inv (snd (UnregisterByPlayer p r))"
    using assms UnregisterBySession_refines(1) by (simp add: UnregisterByPlayer_eq split: option.splits)
  show "spec_remove (\<lambda>c. rec_player c = p) (registry_abs r) (Found (fst (UnregisterByPlayer p r)))
       (registry_abs (snd (UnregisterByPlayer p r)))"
  proof (cases "map_of (by_player r) p")
    case None
    then show ?thesis using by_player_none [OF assms None]
      by (auto simp: UnregisterByPlayer_def spec_remove_def spec_find_def)
  next
    case (Some s)
    then obtain c where c: "map_of (by_session r) s = Some c" "rec_player c = p" using by_player_key [OF assms] by blast
    then show ?thesis using UnregisterBySession_refines(2) [OF assms, of s] Some
      by (auto simp: UnregisterByPlayer_eq [OF assms] UnregisterBySession_def spec_remove_def spec_find_def)
  qed
qed

lemma by_session_update_refines:
  assumes "registry_inv r" "\<And>c. rec_session (snd (f c)) = rec_session c \<and> rec_player (snd (f c)) = rec_player c"
  shows "registry_inv (snd (with_record f s r))"
    "spec_update (\<lambda>c. rec_session c = s) f (registry_abs r) (Done (fst (with_record f s r))) (registry_abs (snd (with_record f s r)))"
proof -
  have i: "index_ok (map_of (by_session r)) (map_of (by_player r))" using assms(1) by (simp add: registry_inv_def)
  have a: "rec_session c = s" if "map_of (by_session r) s = Some c" for c using index_okD(1) [OF i that] by simp
  have b: "\<forall>c \<in> registry_abs r. rec_session c \<noteq> s" if "map_of (by_session r) s = None"
    using abs_session_unique [OF assms(1)] that by force
  show "registry_inv (snd (with_record f s r))" by (rule with_record_refines(1) [OF assms a b])
  show "spec_update (\<lambda>c. rec_session c = s) f (registry_abs r) (Done (fst (with_record f s r))) (registry_abs (snd (with_record f s r)))"
    by (rule with_record_refines(2) [OF assms a b])
qed

lemma by_player_update_refines:
  assumes "registry_inv r" "\<And>c. rec_session (snd (f c)) = rec_session c \<and> rec_player (snd (f c)) = rec_player c"
    and x: "x = (case map_of (by_player r) p of None \<Rightarrow> (False, r) | Some s \<Rightarrow> with_record f s r)"
  shows "registry_inv (snd x)" "spec_update (\<lambda>c. rec_player c = p) f (registry_abs r) (Done (fst x)) (registry_abs (snd x))"
proof -
  show "registry_inv (snd x)"
    using x assms(1) by_session_update_refines(1) [OF assms(1,2)] by (simp split: option.splits)
  show "spec_update (\<lambda>c. rec_player c = p) f (registry_abs r) (Done (fst x)) (registry_abs (snd x))"
  proof (cases "map_of (by_player r) p")
    case None
    then show ?thesis using x by_player_none [OF assms(1) None]
      by (auto simp: spec_update_def spec_find_def intro!: exI [of _ None])
  next
    case (Some s)
    then show ?thesis using x with_record_refines(2) [OF assms(1,2), of s "\<lambda>c. rec_player c = p"]
        by_player_key [OF assms(1) Some] by auto
  qed
qed

lemma registry_exec_refines:
  assumes "registry_inv r" "registry_exec c r = (x, r')"
  shows "registry_inv r' \<and> spec_exec c (registry_abs r) x (registry_abs r')"
proof -
  have i: "index_ok (map_of (by_session r)) (map_of (by_player r))" using assms(1) by (simp add: registry_inv_def)
  show ?thesis
  proof (cases c)
    case (CallRegister s p)
    then show ?thesis using assms Register_refines [OF assms(1), of s p] by (cases "Register s p r") (simp del: spec_exec.simps)
  next
    case (CallUnregisterBySession s)
    then show ?thesis using assms UnregisterBySession_refines [OF assms(1), of s]
      by (cases "UnregisterBySession s r") simp
  next
    case (CallUnregisterByPlayer p)
    then show ?thesis using assms UnregisterByPlayer_refines [OF assms(1), of p]
      by (cases "UnregisterByPlayer p r") simp
  next
    case (CallBindRoomBySession s rid room)
    then show ?thesis using assms by_session_update_refines [OF assms(1), of "BindRoomLocked rid room" s]
      by (cases "BindRoomBySession s rid room r") (simp add: BindRoomBySession_def)
  next
    case (CallBindRoomByPlayer p rid room)
    then show ?thesis
      using assms by_player_update_refines [OF assms(1) _ BindRoomByPlayer_def [of p rid room r]]
      by (cases "BindRoomByPlayer p rid room r") simp
  next
    case (CallClearRoomBySession s)
    then show ?thesis using assms by_session_update_refines [OF assms(1), of ClearRoomLocked s]
      by (cases "ClearRoomBySession s r") (simp add: ClearRoomBySession_def)
  next
    case (CallClearRoomByPlayer p)
    then show ?thesis using assms by_player_update_refines [OF assms(1) _ ClearRoomByPlayer_def [of p r]]
      by (cases "ClearRoomByPlayer p r") simp
  next
    case (CallFindBySession s)
    then show ?thesis using assms index_find(1) [OF i] by (auto simp: FindBySession_def registry_abs_def)
  next
    case (CallFindByPlayer p)
    then show ?thesis using assms index_find(2) [OF i] by (auto simp: FindByPlayer_def registry_abs_def)
  qed
qed

lemma registry_run_refines:
  "registry_inv r \<Longrightarrow> registry_run cs r = (xs, r') \<Longrightarrow> registry_inv r' \<and> spec_run cs (registry_abs r) xs (registry_abs r')"
proof (induction cs arbitrary: r xs)
  case (Cons c cs)
  obtain x r1 where e: "registry_exec c r = (x, r1)" by fastforce
  then obtain ys where ys: "registry_run cs r1 = (ys, r')" "xs = x # ys"
    using Cons.prems(2) by (auto split: prod.splits)
  from registry_exec_refines [OF Cons.prems(1) e] have "registry_inv r1" "spec_exec c (registry_abs r) x (registry_abs r1)" by auto
  with Cons.IH [OF _ ys(1)] ys(2) show ?case by auto
qed simp

section \<open>Properties\<close>



end
