(* ===== verification/Job_Queue.thy ===== *)
theory Job_Queue
  imports Runtime_Prelude "HOL-Library.Multiset"
begin

text \<open>
  The serialized job queues of \<^verbatim>\<open>src/runtime/job\<close>: \<open>JobQueue\<close> (\<open>Push\<close> and \<open>Execute\<close>, one
  atomic access or critical section per step), the \<open>GlobalQueue\<close> that holds the queues waiting for a
  thread, and the \<open>JobTimer\<close>. Any number of threads push to and execute any number of queues. The
  position of every thread inside \<open>Push\<close> or \<open>Execute\<close> is an element of \<open>pushers\<close> or \<open>execs\<close> of the
  queue it works on. \<open>appended\<close> and \<open>executed\<close> are ghost state: the jobs in the order of their
  \<open>push_back\<close>, and in the order in which they ran.
\<close>

section \<open>JobQueue and GlobalQueue\<close>

text \<open>Inside \<open>Push\<close>: before the \<open>push_back\<close>, with the outcome of \<open>prev == 0\<close>; before \<open>gq_.Push(this)\<close>.\<close>

datatype 'j pushing = Appending 'j bool | Registering

text \<open>
  Inside \<open>Execute\<close>: before taking the batch; with the rest of the batch and \<open>executed_count\<close>; the
  deadline has passed and the rest goes back; before the \<open>fetch_sub\<close>; and with jobs remaining,
  before the second look at the clock.
\<close>

datatype 'j executing = Taking | Running "'j list" nat | Returning "'j list" nat | Subtracting nat | Deciding

record 'j JobQueue =
  job_count :: int
  jobs :: "'j list"
  pushers :: "'j pushing multiset"
  execs :: "'j executing multiset"
  appended :: "'j list"
  executed :: "'j list"

record 'j job_world =
  gqueue :: "nat list"
  queues :: "nat \<Rightarrow> 'j JobQueue"

definition JobQueue_new :: "'j JobQueue" where
  "JobQueue_new = \<lparr>job_count = 0, jobs = [], pushers = {#}, execs = {#}, appended = [], executed = []\<rparr>"

definition GlobalQueue_Push :: "nat \<Rightarrow> nat list \<Rightarrow> nat list" where
  "GlobalQueue_Push i gq = gq @ [i]"

definition GlobalQueue_TryPop :: "nat list \<Rightarrow> (nat \<times> nat list) option" where
  "GlobalQueue_TryPop gq = (case gq of [] \<Rightarrow> None | i # rest \<Rightarrow> Some (i, rest))"

text \<open>The four parts of \<open>Push\<close> and \<open>Execute\<close> that change the queue itself.\<close>

definition push_fetch_add :: "'j \<Rightarrow> 'j JobQueue \<Rightarrow> 'j JobQueue" where
  "push_fetch_add j q =
     q\<lparr>job_count := job_count q + 1, pushers := add_mset (Appending j (job_count q = 0)) (pushers q)\<rparr>"

definition push_append :: "'j \<Rightarrow> bool \<Rightarrow> 'j JobQueue \<Rightarrow> 'j JobQueue" where
  "push_append j first q =
     q\<lparr>jobs := jobs q @ [j], appended := appended q @ [j],
       pushers := (if first then {#Registering#} else {#}) + (pushers q - {#Appending j first#})\<rparr>"

definition exec_to :: "'j executing \<Rightarrow> 'j executing multiset \<Rightarrow> 'j JobQueue \<Rightarrow> 'j JobQueue" where
  "exec_to e new q = q\<lparr>execs := new + (execs q - {#e#})\<rparr>"

definition exec_fetch_sub :: "nat \<Rightarrow> 'j JobQueue \<Rightarrow> 'j JobQueue" where
  "exec_fetch_sub done_count q =
     (let remaining = job_count q - int done_count
      in exec_to (Subtracting done_count) (if remaining \<le> 0 then {#} else {#Deciding#})
           (q\<lparr>job_count := remaining\<rparr>))"

inductive queue_step :: "'j JobQueue \<Rightarrow> 'j JobQueue \<Rightarrow> bool" where
  push_count: "queue_step q (push_fetch_add j q)"
| push_back: "Appending j first \<in># pushers q \<Longrightarrow> queue_step q (push_append j first q)"
| exec_take: "Taking \<in># execs q \<Longrightarrow>
     queue_step q (exec_to Taking {#Running (jobs q) 0#} (q\<lparr>jobs := []\<rparr>))"
| exec_job: "Running (j # js) d \<in># execs q \<Longrightarrow> e \<in> {Running js (Suc d), Returning js (Suc d)} \<Longrightarrow>
     queue_step q (exec_to (Running (j # js) d) {#e#} (q\<lparr>executed := executed q @ [j]\<rparr>))"
| exec_batch_done: "Running [] d \<in># execs q \<Longrightarrow>
     queue_step q (exec_to (Running [] d) {#Subtracting d#} q)"
| exec_return: "Returning js d \<in># execs q \<Longrightarrow>
     queue_step q (exec_to (Returning js d) {#Subtracting d#} (q\<lparr>jobs := js @ jobs q\<rparr>))"
| exec_sub: "Subtracting d \<in># execs q \<Longrightarrow> queue_step q (exec_fetch_sub d q)"
| exec_again: "Deciding \<in># execs q \<Longrightarrow> queue_step q (exec_to Deciding {#Taking#} q)"

text \<open>The steps of the whole system: inside a queue, or between a queue and the \<open>GlobalQueue\<close>.\<close>

inductive job_step :: "'j job_world \<Rightarrow> 'j job_world \<Rightarrow> bool" where
  inside: "queue_step (queues w i) q' \<Longrightarrow> job_step w (w\<lparr>queues := (queues w)(i := q')\<rparr>)"
| register: "Registering \<in># pushers (queues w i) \<Longrightarrow>
     job_step w (w\<lparr>gqueue := GlobalQueue_Push i (gqueue w),
       queues := (queues w)(i := (queues w i)\<lparr>pushers := pushers (queues w i) - {#Registering#}\<rparr>)\<rparr>)"
| requeue: "Deciding \<in># execs (queues w i) \<Longrightarrow>
     job_step w (w\<lparr>gqueue := GlobalQueue_Push i (gqueue w),
       queues := (queues w)(i := exec_to Deciding {#} (queues w i))\<rparr>)"
| dispatch: "GlobalQueue_TryPop (gqueue w) = Some (i, rest) \<Longrightarrow>
     job_step w (w\<lparr>gqueue := rest,
       queues := (queues w)(i := (queues w i)\<lparr>execs := add_mset Taking (execs (queues w i))\<rparr>)\<rparr>)"

definition job_start :: "'j job_world \<Rightarrow> bool" where
  "job_start w \<longleftrightarrow> gqueue w = [] \<and> (\<forall>i. queues w i = JobQueue_new)"

section \<open>The invariant\<close>

text \<open>What a thread inside \<open>Execute\<close> still has to run, and what it has yet to subtract.\<close>

fun batch_rest :: "'j executing \<Rightarrow> 'j list" where
  "batch_rest (Running js d) = js"
| "batch_rest (Returning js d) = js"
| "batch_rest e = []"

fun exec_debt :: "'j executing \<Rightarrow> nat" where
  "exec_debt (Running js d) = length js + d"
| "exec_debt (Returning js d) = length js + d"
| "exec_debt (Subtracting d) = d"
| "exec_debt e = 0"

fun push_debt :: "'j pushing \<Rightarrow> nat" where
  "push_debt (Appending j first) = 1"
| "push_debt Registering = 0"

fun push_token :: "'j pushing \<Rightarrow> nat" where
  "push_token (Appending j first) = (if first then 1 else 0)"
| "push_token Registering = 1"

definition total :: "('a \<Rightarrow> nat) \<Rightarrow> 'a multiset \<Rightarrow> nat" where
  "total f M = sum_mset (image_mset f M)"

lemma total_simps [simp]:
  "total f {#} = 0" "total f (add_mset x M) = f x + total f M" "total f (M + N) = total f M + total f N"
  by (simp_all add: total_def)

text \<open>The right to execute a queue is a token; \<open>g\<close> of them are in the \<open>GlobalQueue\<close>.\<close>

definition tokens :: "nat \<Rightarrow> 'j JobQueue \<Rightarrow> nat" where
  "tokens g q = g + total push_token (pushers q) + size (execs q)"

definition in_order :: "'j executing multiset \<Rightarrow> 'j list \<Rightarrow> 'j list \<Rightarrow> 'j list \<Rightarrow> bool" where
  "in_order es dn js app \<longleftrightarrow>
     (es = {#} \<longrightarrow> dn @ js = app) \<and> (\<forall>e \<in># es. dn @ batch_rest e @ js = app)"

lemma in_order_simps [simp]:
  "in_order {#} dn js app \<longleftrightarrow> dn @ js = app"
  "in_order {#e#} dn js app \<longleftrightarrow> dn @ batch_rest e @ js = app"
  by (auto simp: in_order_def)

lemma in_order_append: "in_order es dn js app \<Longrightarrow> in_order es dn (js @ [j]) (app @ [j])"
  unfolding in_order_def by (metis append.assoc)

definition queue_inv :: "nat \<Rightarrow> 'j JobQueue \<Rightarrow> bool" where
  "queue_inv g q \<longleftrightarrow>
     tokens g q = (if job_count q = 0 then 0 else 1) \<and>
     job_count q = int (total push_debt (pushers q) + length (jobs q)
                        + total exec_debt (execs q)) \<and>
     in_order (execs q) (executed q) (jobs q) (appended q)"

definition job_inv :: "'j job_world \<Rightarrow> bool" where
  "job_inv w \<longleftrightarrow> (\<forall>i. queue_inv (count_list (gqueue w) i) (queues w i))"

lemma exec_alone:
  assumes "queue_inv g q" "e \<in># execs q"
  shows "execs q = {#e#}" "g = 0" "total push_token (pushers q) = 0" "0 < job_count q"
proof -
  obtain M where M: "execs q = add_mset e M" using assms(2) by (metis multi_member_split)
  with assms(1) have "tokens g q = 1" "job_count q \<noteq> 0"
    by (auto simp: queue_inv_def tokens_def split: if_splits)
  with M assms(1) show "execs q = {#e#}" "g = 0" "total push_token (pushers q) = 0"
      "0 < job_count q"
    by (auto simp: tokens_def queue_inv_def)
qed

lemma push_tokens_0: "total push_debt M = 0 \<Longrightarrow> total push_token M = 0 \<Longrightarrow> M = {#}"
proof (induction M)
  case (add p M)
  then show ?case by (cases p) auto
qed simp

lemma push_token_first:
  assumes "queue_inv g q" "job_count q = 0"
  shows "g = 0" "pushers q = {#}" "execs q = {#}" "jobs q = []"
  using assms push_tokens_0 [of "pushers q"] by (auto simp: queue_inv_def tokens_def)

lemma push_fetch_add_inv:
  assumes "queue_inv g q"
  shows "queue_inv g (push_fetch_add j q)"
proof (cases "job_count q = 0")
  case True
  then show ?thesis using assms push_token_first [OF assms True]
    by (simp add: queue_inv_def push_fetch_add_def tokens_def)
next
  case False
  then have "tokens g q = 1" "0 < job_count q" using assms by (auto simp: queue_inv_def)
  then show ?thesis using assms by (simp add: queue_inv_def push_fetch_add_def tokens_def)
qed

lemma push_append_inv:
  assumes "queue_inv g q" "Appending j first \<in># pushers q"
  shows "queue_inv g (push_append j first q)"
proof -
  obtain M where M: "pushers q = add_mset (Appending j first) M"
    using assms(2) by (metis multi_member_split)
  show ?thesis
    using assms(1) M by (cases first) (simp_all add: queue_inv_def push_append_def tokens_def in_order_append)
qed

lemmas exec_simps = queue_inv_def exec_to_def exec_fetch_sub_def tokens_def Let_def

lemma queue_step_inv:
  assumes "queue_step q q'" "queue_inv g q"
  shows "queue_inv g q'"
  using assms
proof (cases rule: queue_step.cases)
  case (push_count j)
  then show ?thesis using assms(2) push_fetch_add_inv by simp
next
  case (push_back j first)
  then show ?thesis using assms(2) push_append_inv by simp
next
  case exec_take
  then show ?thesis using assms(2) exec_alone [OF assms(2) exec_take(2)] by (auto simp: exec_simps)
next
  case (exec_job j js d e)
  then show ?thesis using assms(2) exec_alone [OF assms(2) exec_job(2)] by (auto simp: exec_simps)
next
  case (exec_batch_done d)
  then show ?thesis using assms(2) exec_alone [OF assms(2) exec_batch_done(2)] by (auto simp: exec_simps)
next
  case (exec_return js d)
  then show ?thesis using assms(2) exec_alone [OF assms(2) exec_return(2)] by (auto simp: exec_simps)
next
  case (exec_sub d)
  then show ?thesis using assms(2) exec_alone [OF assms(2) exec_sub(2)] by (auto simp: exec_simps)
next
  case exec_again
  then show ?thesis using assms(2) exec_alone [OF assms(2) exec_again(2)] by (auto simp: exec_simps)
qed

lemma register_inv:
  assumes "queue_inv g q" "Registering \<in># pushers q"
  shows "queue_inv (Suc g) (q\<lparr>pushers := pushers q - {#Registering#}\<rparr>)"
proof -
  obtain M where "pushers q = add_mset Registering M" using assms(2) by (metis multi_member_split)
  then show ?thesis using assms(1) by (auto simp: queue_inv_def tokens_def)
qed

lemma requeue_inv:
  assumes "queue_inv g q" "Deciding \<in># execs q"
  shows "queue_inv (Suc g) (exec_to Deciding {#} q)"
  using assms exec_alone [OF assms] by (auto simp: exec_simps)

lemma dispatch_inv:
  assumes "queue_inv (Suc g) q"
  shows "queue_inv g (q\<lparr>execs := add_mset Taking (execs q)\<rparr>)"
proof -
  have "execs q = {#}" using assms by (auto simp: queue_inv_def tokens_def split: if_splits)
  then show ?thesis using assms by (simp add: queue_inv_def tokens_def split: if_splits)
qed

lemma job_step_inv:
  assumes "job_inv w" "job_step w w'"
  shows "job_inv w'"
  using assms(2)
proof (cases rule: job_step.cases)
  case (inside i q')
  then show ?thesis using assms(1) queue_step_inv by (auto simp: job_inv_def)
next
  case (register i)
  then show ?thesis using assms(1) register_inv [of _ "queues w i"] by (auto simp: job_inv_def GlobalQueue_Push_def)
next
  case (requeue i)
  then show ?thesis using assms(1) requeue_inv [of _ "queues w i"] by (auto simp: job_inv_def GlobalQueue_Push_def)
next
  case (dispatch i rest)
  then have "gqueue w = i # rest" by (auto simp: GlobalQueue_TryPop_def split: list.splits)
  then show ?thesis using assms(1) dispatch dispatch_inv [of "count_list rest i" "queues w i"]
    by (auto simp: job_inv_def split: if_splits)
qed

interpretation jobs_sys: inductive_invariant job_step job_start job_inv
proof unfold_locales
  show "job_inv w" if "job_start w" for w :: "'a job_world"
    using that by (auto simp: job_start_def job_inv_def queue_inv_def JobQueue_new_def tokens_def)
qed (rule job_step_inv)

section \<open>Execute in one thread\<close>

text \<open>
  The same two operations run to the end by one thread. \<open>JobQueue_Push\<close> also says whether it
  registered the queue. \<open>late k\<close> is the outcome of the \<open>k\<close>-th comparison of the clock with the
  deadline, \<open>spawn j\<close> the jobs that \<open>j\<close> pushes to its own queue while it runs. The result says
  whether the queue was registered again.
\<close>

definition JobQueue_Push :: "'j \<Rightarrow> 'j JobQueue \<Rightarrow> bool \<times> 'j JobQueue" where
  "JobQueue_Push j q =
     (job_count q = 0, q\<lparr>job_count := job_count q + 1, jobs := jobs q @ [j], appended := appended q @ [j]\<rparr>)"

definition run_job :: "('j \<Rightarrow> 'j list) \<Rightarrow> 'j \<Rightarrow> 'j JobQueue \<Rightarrow> 'j JobQueue" where
  "run_job spawn j q = foldl (\<lambda>q x. snd (JobQueue_Push x q)) (q\<lparr>executed := executed q @ [j]\<rparr>) (spawn j)"

fun Execute_batch ::
  "(nat \<Rightarrow> bool) \<Rightarrow> ('j \<Rightarrow> 'j list) \<Rightarrow> nat \<Rightarrow> nat \<Rightarrow> 'j list \<Rightarrow> 'j JobQueue \<Rightarrow> nat \<times> 'j list \<times> nat \<times> 'j JobQueue" where
  "Execute_batch late spawn k d [] q = (d, [], k, q)"
| "Execute_batch late spawn k d (j # js) q =
     (let q' = run_job spawn j q
      in if late k then (Suc d, js, Suc k, q') else Execute_batch late spawn (Suc k) (Suc d) js q')"

fun Execute :: "(nat \<Rightarrow> bool) \<Rightarrow> ('j \<Rightarrow> 'j list) \<Rightarrow> nat \<Rightarrow> nat \<Rightarrow> 'j JobQueue \<Rightarrow> (bool \<times> 'j JobQueue) option" where
  "Execute late spawn 0 k q = None"
| "Execute late spawn (Suc fuel) k q =
     (let (d, rest, k1, q1) = Execute_batch late spawn k 0 (jobs q) (q\<lparr>jobs := []\<rparr>);
          q2 = q1\<lparr>jobs := rest @ jobs q1\<rparr>;
          remaining = job_count q2 - int d;
          q3 = q2\<lparr>job_count := remaining\<rparr>
      in if remaining \<le> 0 then Some (False, q3)
         else if late k1 then Some (True, q3)
         else Execute late spawn fuel (Suc k1) q3)"

text \<open>Jobs are accounted for: \<open>owed\<close> are counted but no longer in \<open>jobs\<close>, \<open>rest\<close> is yet to run.\<close>

definition accounted :: "nat \<Rightarrow> 'j list \<Rightarrow> 'j JobQueue \<Rightarrow> bool" where
  "accounted owed rest q \<longleftrightarrow>
     job_count q = int (owed + length rest + length (jobs q)) \<and> appended q = executed q @ rest @ jobs q"

lemma push_all_accounted:
  "accounted owed rest q \<Longrightarrow> accounted owed rest (foldl (\<lambda>q x. snd (JobQueue_Push x q)) q js) \<and>
     executed (foldl (\<lambda>q x. snd (JobQueue_Push x q)) q js) = executed q"
proof (induction js arbitrary: q)
  case (Cons j js)
  have "accounted owed rest (snd (JobQueue_Push j q))"
    using Cons.prems by (simp add: accounted_def JobQueue_Push_def)
  then show ?case using Cons.IH by (simp add: JobQueue_Push_def)
qed simp

lemma run_job_accounted:
  assumes "accounted owed (j # js) q"
  shows "accounted (Suc owed) js (run_job spawn j q) \<and> executed (run_job spawn j q) = executed q @ [j]"
proof -
  have "accounted (Suc owed) js (q\<lparr>executed := executed q @ [j]\<rparr>)"
    using assms by (simp add: accounted_def)
  from push_all_accounted [OF this] show ?thesis by (simp add: run_job_def)
qed

lemma Execute_batch_accounted:
  "accounted d batch q \<Longrightarrow> Execute_batch late spawn k d batch q = (d', rest, k', q') \<Longrightarrow>
     accounted d' rest q' \<and> k \<le> k' \<and> (batch \<noteq> [] \<longrightarrow> k < k' \<and> length (executed q) < length (executed q'))"
proof (induction batch arbitrary: k d q)
  case (Cons j js)
  note r = run_job_accounted [OF Cons.prems(1), of spawn]
  show ?case
  proof (cases "late k")
    case True
    then show ?thesis using r Cons.prems(2) by (auto simp: Let_def)
  next
    case False
    then show ?thesis using Cons.IH [of "Suc d" "run_job spawn j q" "Suc k"] r Cons.prems(2)
      by (auto simp: Let_def)
  qed
qed simp

lemma Execute_accounted:
  assumes K: "\<And>k. K \<le> k \<Longrightarrow> late k"
  shows "accounted 0 [] q \<Longrightarrow> jobs q \<noteq> [] \<Longrightarrow> K \<le> k + fuel \<Longrightarrow> 0 < fuel \<Longrightarrow>
     \<exists>again q'. Execute late spawn fuel k q = Some (again, q') \<and> accounted 0 [] q' \<and>
       (again \<longleftrightarrow> jobs q' \<noteq> []) \<and> length (executed q) < length (executed q')"
proof (induction fuel arbitrary: k q)
  case (Suc fuel)
  obtain d rest k1 q1 where b: "Execute_batch late spawn k 0 (jobs q) (q\<lparr>jobs := []\<rparr>) = (d, rest, k1, q1)"
    using prod_cases4 by blast
  let ?q3 = "q1\<lparr>jobs := rest @ jobs q1, job_count := job_count q1 - int d\<rparr>"
  have "accounted 0 (jobs q) (q\<lparr>jobs := []\<rparr>)" using Suc.prems(1) by (simp add: accounted_def)
  from Execute_batch_accounted [OF this b] Suc.prems(2)
  have a: "accounted d rest q1" "k < k1" "length (executed q) < length (executed q1)" by auto
  then have a3: "accounted 0 [] ?q3" by (simp add: accounted_def)
  then have left: "job_count ?q3 \<le> 0 \<longleftrightarrow> jobs ?q3 = []" unfolding accounted_def by (metis add_0 length_0_conv list.size(3) of_nat_le_0_iff)
  consider "jobs ?q3 = []" | "jobs ?q3 \<noteq> []" "late k1" | "jobs ?q3 \<noteq> []" "\<not> late k1" by blast
  then show ?case
  proof cases
    case 3
    then have "k1 < K" using K not_le by blast
    then have "K \<le> Suc k1 + fuel" "0 < fuel" using Suc.prems(3) a(2) by auto
    from Suc.IH [OF a3 3(1) this] obtain again q' where
      "Execute late spawn fuel (Suc k1) ?q3 = Some (again, q')" "accounted 0 [] q'" "again \<longleftrightarrow> jobs q' \<noteq> []"
      "length (executed ?q3) < length (executed q')" by blast
    then show ?thesis using b 3 left a(3) by (auto simp: Let_def)
  qed (use b left a a3 in \<open>auto simp: Let_def\<close>)
qed simp

section \<open>JobTimer\<close>

text \<open>
  The priority queue is the list of reservations in the order in which \<open>pop\<close> returns them. The
  library leaves the order of equal times open; no theorem below depends on it. \<open>alive\<close> says which
  targets \<open>weak_ptr::lock\<close> still finds.
\<close>

record 'j ReservedJob =
  execute_at :: int
  target :: nat
  rjob :: 'j

definition Reserve :: "int \<Rightarrow> int \<Rightarrow> nat \<Rightarrow> 'j \<Rightarrow> 'j ReservedJob list \<Rightarrow> 'j ReservedJob list" where
  "Reserve now delay tgt j q = insort_key execute_at \<lparr>execute_at = now + delay, target = tgt, rjob = j\<rparr> q"

text \<open>The result: the pushes in their order, and what stays reserved.\<close>

fun DistributeExpired ::
  "(nat \<Rightarrow> bool) \<Rightarrow> int \<Rightarrow> 'j ReservedJob list \<Rightarrow> (nat \<times> 'j) list \<times> 'j ReservedJob list" where
  "DistributeExpired alive now [] = ([], [])"
| "DistributeExpired alive now (rj # q) =
     (if execute_at rj \<le> now
      then let (pushes, rest) = DistributeExpired alive now q
           in (if alive (target rj) then (target rj, rjob rj) # pushes else pushes, rest)
      else ([], rj # q))"

lemma Reserve_sorted: "sorted (map execute_at q) \<Longrightarrow> sorted (map execute_at (Reserve now d t j q))"
  by (simp add: Reserve_def sorted_insort_key)

lemma DistributeExpired_eq:
  "sorted (map execute_at q) \<Longrightarrow>
     DistributeExpired alive now q =
       (map (\<lambda>rj. (target rj, rjob rj)) (filter (\<lambda>rj. execute_at rj \<le> now \<and> alive (target rj)) q),
        filter (\<lambda>rj. now < execute_at rj) q)"
proof (induction q)
  case (Cons rj q)
  show ?case
  proof (cases "execute_at rj \<le> now")
    case False
    then have "\<forall>x \<in> set (rj # q). now < execute_at x" using Cons.prems by force
    then have "filter (\<lambda>x. execute_at x \<le> now \<and> alive (target x)) (rj # q) = []"
        "filter (\<lambda>x. now < execute_at x) (rj # q) = rj # q"
      by (force simp: filter_empty_conv, simp)
    then show ?thesis using False by simp
  qed (use Cons in auto)
qed simp

text \<open>A history of calls: reservations made at some time, and distributions at some time.\<close>

datatype 'j timer_call = CallReserve int int nat 'j | CallDistribute int

fun timer_run :: "(nat \<Rightarrow> bool) \<Rightarrow> 'j timer_call list \<Rightarrow> 'j ReservedJob list \<Rightarrow> (nat \<times> 'j) list list \<times> 'j ReservedJob list" where
  "timer_run alive [] q = ([], q)"
| "timer_run alive (CallReserve now d t j # cs) q = timer_run alive cs (Reserve now d t j q)"
| "timer_run alive (CallDistribute now # cs) q =
     (let (ps, q') = DistributeExpired alive now q; (pss, q'') = timer_run alive cs q' in (ps # pss, q''))"

fun reserved :: "'j timer_call list \<Rightarrow> 'j ReservedJob multiset" where
  "reserved [] = {#}"
| "reserved (CallReserve now d t j # cs) = add_mset \<lparr>execute_at = now + d, target = t, rjob = j\<rparr> (reserved cs)"
| "reserved (CallDistribute now # cs) = reserved cs"

definition due :: "(nat \<Rightarrow> bool) \<Rightarrow> 'j ReservedJob multiset \<Rightarrow> (nat \<times> 'j) multiset" where
  "due alive M = image_mset (\<lambda>rj. (target rj, rjob rj)) (filter_mset (\<lambda>rj. alive (target rj)) M)"

lemma due_plus: "due alive (M + N) = due alive M + due alive N"
  by (simp add: due_def)

lemma due_split: "due alive {#x \<in># M. P x#} + due alive {#x \<in># M. \<not> P x#} = due alive M"
  by (simp flip: due_plus multiset_partition)

lemma DistributeExpired_due:
  assumes "sorted (map execute_at q)" "DistributeExpired alive now q = (ps, q')"
  shows "sorted (map execute_at q')" "mset ps + due alive (mset q') = due alive (mset q)"
proof -
  have e: "mset ps = due alive {#x \<in># mset q. execute_at x \<le> now#}" "q' = filter (\<lambda>x. now < execute_at x) q"
    using assms DistributeExpired_eq [OF assms(1), of alive now]
    by (auto simp: due_def filter_filter_mset conj_commute)
  then show "sorted (map execute_at q')" using assms(1) by (simp add: sorted_filter)
  show "mset ps + due alive (mset q') = due alive (mset q)"
    using e due_split [of alive "\<lambda>x. execute_at x \<le> now" "mset q"] by (simp add: not_le)
qed

lemma timer_run_sorted:
  "sorted (map execute_at q) \<Longrightarrow> timer_run alive cs q = (pss, q') \<Longrightarrow> sorted (map execute_at q')"
proof (induction alive cs q arbitrary: pss rule: timer_run.induct)
  case (3 alive now cs q)
  then show ?case by (auto simp: DistributeExpired_due(1) split: prod.splits)
qed (auto simp: Reserve_sorted)

lemma timer_run_due:
  "sorted (map execute_at q) \<Longrightarrow> timer_run alive cs q = (pss, q') \<Longrightarrow>
     mset (concat pss) + due alive (mset q') = due alive (mset q + reserved cs)"
proof (induction cs arbitrary: q pss)
  case (Cons c cs)
  show ?case
  proof (cases c)
    case (CallReserve now d t j)
    then show ?thesis
      using Cons.IH [of "Reserve now d t j q" pss] Cons.prems by (simp add: Reserve_sorted) (simp add: Reserve_def)
  next
    case (CallDistribute now)
    obtain ps q1 where d: "DistributeExpired alive now q = (ps, q1)" by fastforce
    obtain pss' where r: "timer_run alive cs q1 = (pss', q')" "pss = ps # pss'"
      using Cons.prems(2) CallDistribute d by (auto split: prod.splits)
    have "mset (concat pss') + due alive (mset q') = due alive (mset q1 + reserved cs)"
      using Cons.IH [OF DistributeExpired_due(1) [OF Cons.prems(1) d] r(1)] .
    then have "mset ps + (mset (concat pss') + due alive (mset q')) = due alive (mset q) + due alive (reserved cs)"
      using DistributeExpired_due(2) [OF Cons.prems(1) d] by (simp add: due_plus flip: add.assoc)
    then show ?thesis using CallDistribute r(2) by (simp add: due_plus add.assoc)
  qed
qed (simp add: due_def)

section \<open>Properties\<close>

text \<open>
  C4: Serialization. Whatever the interleaving of pushing and executing threads, at most one thread
  is inside \<open>Execute\<close> of a queue, the jobs run in the order of their \<open>push_back\<close>, each once, and the
  counter is the number of jobs that are counted and not yet subtracted.
\<close>

theorem jobs_serialized:
  assumes "reachable_from job_step job_start w"
  shows "size (execs (queues w i)) \<le> 1 \<and>
     executed (queues w i) = take (length (executed (queues w i))) (appended (queues w i)) \<and>
     job_count (queues w i) = int (total push_debt (pushers (queues w i)) + length (jobs (queues w i))
                                   + total exec_debt (execs (queues w i)))"
proof -
  let ?q = "queues w i"
  have inv: "queue_inv (count_list (gqueue w) i) ?q"
    using jobs_sys.reachable_inv [OF assms] by (simp add: job_inv_def)
  then have "size (execs ?q) \<le> 1" by (auto simp: queue_inv_def tokens_def split: if_splits)
  moreover obtain rest where "appended ?q = executed ?q @ rest"
    using inv by (cases "execs ?q") (auto simp: queue_inv_def in_order_def dest: sym)
  then have "executed ?q = take (length (executed ?q)) (appended ?q)" by simp
  ultimately show ?thesis using inv by (simp add: queue_inv_def)
qed

text \<open>A thread has taken a batch of two jobs while a third is being pushed.\<close>

definition busy_queue :: "nat JobQueue" where
  "busy_queue =
     \<lparr>job_count = 3, jobs = [], pushers = {#Appending 12 False#}, execs = {#Running [11] 1#},
      appended = [10, 11], executed = [10]\<rparr>"

definition busy_world :: "nat job_world" where
  "busy_world = \<lparr>gqueue = [], queues = (\<lambda>_. JobQueue_new)(0 := busy_queue)\<rparr>"

lemma queue_steps_reach:
  assumes "queue_step\<^sup>*\<^sup>* q q'" "reachable_from job_step job_start \<lparr>gqueue = g, queues = Q(i := q)\<rparr>"
  shows "reachable_from job_step job_start \<lparr>gqueue = g, queues = Q(i := q')\<rparr>"
  using assms
proof (induction rule: rtranclp_induct)
  case (step y z)
  then have "job_step \<lparr>gqueue = g, queues = Q(i := y)\<rparr> \<lparr>gqueue = g, queues = Q(i := z)\<rparr>"
    using inside [of "\<lparr>gqueue = g, queues = Q(i := y)\<rparr>" i z] by simp
  with step show ?case by (blast intro: reach_step)
qed

lemma busy_world_reachable: "reachable_from job_step job_start busy_world"
proof -
  let ?Q = "\<lambda>_ :: nat. JobQueue_new :: nat JobQueue"
  let ?a = "push_fetch_add (10 :: nat) JobQueue_new"
  let ?b = "push_append 10 True ?a"
  let ?q1 = "push_append 11 False (push_fetch_add 11 ?b)"
  note d = push_append_def push_fetch_add_def JobQueue_new_def exec_to_def
  have st: "queue_step\<^sup>*\<^sup>* x z" if "queue_step\<^sup>*\<^sup>* x y" "queue_step y z" for x y z :: "nat JobQueue"
    using that by (rule rtranclp.rtrancl_into_rtrancl)
  have s: "queue_step JobQueue_new ?a" "queue_step ?b (push_fetch_add 11 ?b)" by (rule push_count)+
  have t: "queue_step ?a ?b" "queue_step (push_fetch_add 11 ?b) ?q1" by (rule push_back, simp add: d)+
  have "queue_step\<^sup>*\<^sup>* JobQueue_new ?q1"
    by (rule st [OF st [OF st [OF st [OF rtranclp.rtrancl_refl s(1)] t(1)] s(2)] t(2)])
  moreover have "reachable_from job_step job_start \<lparr>gqueue = [], queues = ?Q(0 := JobQueue_new)\<rparr>"
    by (rule reach_start) (simp add: job_start_def)
  ultimately have "reachable_from job_step job_start \<lparr>gqueue = [], queues = ?Q(0 := ?q1)\<rparr>"
    by (rule queue_steps_reach)
  then have "reachable_from job_step job_start \<lparr>gqueue = [0], queues = ?Q(0 := ?q1\<lparr>pushers := {#}\<rparr>)\<rparr>"
    by (rule reach_step) (use register [of "\<lparr>gqueue = [], queues = ?Q(0 := ?q1)\<rparr>" 0] in \<open>simp add: d GlobalQueue_Push_def\<close>)
  then have "reachable_from job_step job_start \<lparr>gqueue = [], queues = ?Q(0 := ?q1\<lparr>pushers := {#}, execs := {#Taking#}\<rparr>)\<rparr>"
    by (rule reach_step) (use dispatch [of "\<lparr>gqueue = [0], queues = ?Q(0 := ?q1\<lparr>pushers := {#}\<rparr>)\<rparr>" 0 "[]"] in
        \<open>simp add: d GlobalQueue_TryPop_def\<close>)
  moreover have "queue_step\<^sup>*\<^sup>* (?q1\<lparr>pushers := {#}, execs := {#Taking#}\<rparr>) busy_queue"
  proof -
    let ?q2 = "?q1\<lparr>pushers := {#}, execs := {#Taking#}\<rparr>"
    let ?q3 = "exec_to Taking {#Running (jobs ?q2) 0#} (?q2\<lparr>jobs := []\<rparr>)"
    let ?q4 = "exec_to (Running [10, 11] 0) {#Running [11] (Suc 0)#} (?q3\<lparr>executed := executed ?q3 @ [10]\<rparr>)"
    have u: "queue_step ?q2 ?q3" "queue_step ?q3 ?q4" by (rule exec_take, simp add: d, rule exec_job, simp_all add: d)
    have "push_fetch_add 12 ?q4 = busy_queue" by (simp add: d busy_queue_def)
    then have "queue_step ?q4 busy_queue" using push_count [of ?q4 12] by simp
    then show ?thesis by (rule st [OF st [OF st [OF rtranclp.rtrancl_refl u(1)] u(2)]])
  qed
  ultimately show ?thesis unfolding busy_world_def by (rule queue_steps_reach [rotated])
qed

theorem jobs_serialized_witness:
  "size (execs (queues busy_world 0)) \<le> 1 \<and> job_count (queues busy_world 0) = 3 \<and>
   executed (queues busy_world 0) = take 1 (appended (queues busy_world 0))"
  using jobs_serialized [OF busy_world_reachable, of 0] by (simp add: busy_world_def busy_queue_def)

text \<open>
  C23: No lost wakeup. A queue is never twice in the \<open>GlobalQueue\<close>, and as long as one of its jobs
  has not run, the queue is in the \<open>GlobalQueue\<close>, or a thread is inside its \<open>Execute\<close>, or a
  \<open>Push\<close> that is going to register it is still in progress.
\<close>

theorem no_lost_wakeup:
  assumes "reachable_from job_step job_start w"
  shows "distinct (gqueue w) \<and>
     (executed (queues w i) \<noteq> appended (queues w i) \<longrightarrow>
        i \<in> set (gqueue w) \<or> execs (queues w i) \<noteq> {#} \<or> 0 < total push_token (pushers (queues w i)))"
proof -
  have inv: "queue_inv (count_list (gqueue w) k) (queues w k)" for k
    using jobs_sys.reachable_inv [OF assms] by (simp add: job_inv_def)
  have "count_list (gqueue w) k \<le> 1" for k
    using inv [of k] by (auto simp: queue_inv_def tokens_def split: if_splits)
  then have "count_list (gqueue w) k = 1" if "k \<in> set (gqueue w)" for k
    using that count_list_0_iff [of "gqueue w" k] by (metis One_nat_def le_Suc_eq le_zero_eq)
  then have "distinct (gqueue w)" by (simp add: distinct_count_atmost_1 count_mset)
  moreover have "i \<in> set (gqueue w) \<or> 0 < total push_token (pushers (queues w i))"
    if "executed (queues w i) \<noteq> appended (queues w i)" "execs (queues w i) = {#}"
  proof -
    have "jobs (queues w i) \<noteq> []" using inv [of i] that by (auto simp: queue_inv_def)
    then have "tokens (count_list (gqueue w) i) (queues w i) = 1"
      using inv [of i] push_token_first(4) [OF inv [of i]] by (auto simp: queue_inv_def)
    then show ?thesis using that(2) by (cases "i \<in> set (gqueue w)") (auto simp: tokens_def)
  qed
  ultimately show ?thesis by auto
qed

theorem no_lost_wakeup_witness:
  "distinct (gqueue busy_world) \<and>
   (0 \<in> set (gqueue busy_world) \<or> execs (queues busy_world 0) \<noteq> {#} \<or>
    0 < total push_token (pushers (queues busy_world 0)))"
  using no_lost_wakeup [OF busy_world_reachable, of 0] by (simp add: busy_world_def busy_queue_def)

text \<open>
  C24: \<open>Execute\<close> returns once the deadline has passed (every look at the clock from the \<open>K\<close>-th on
  is late), even when the jobs keep pushing new jobs. It has then run at least one job; no job was
  lost or run out of order, the counter is the number of jobs left, and the queue was registered
  again exactly when jobs are left.
\<close>

theorem Execute_deadline:
  assumes "\<And>k. K \<le> k \<Longrightarrow> late k" "jobs q \<noteq> []" "job_count q = int (length (jobs q))"
    "appended q = executed q @ jobs q"
  shows "\<exists>again q'. Execute late spawn (Suc K) 0 q = Some (again, q') \<and>
     appended q' = executed q' @ jobs q' \<and> job_count q' = int (length (jobs q')) \<and>
     (again \<longleftrightarrow> jobs q' \<noteq> []) \<and> length (executed q) < length (executed q')"
proof -
  have "accounted 0 [] q" using assms by (simp add: accounted_def)
  from Execute_accounted [of K late q 0 "Suc K" spawn, OF assms(1) this assms(2)]
  show ?thesis by (auto simp: accounted_def)
qed

theorem Execute_deadline_witness:
  "\<exists>again q'. Execute (\<lambda>k. 5 \<le> k) (\<lambda>j. [j, j]) 6 0
       \<lparr>job_count = 1, jobs = [7 :: nat], pushers = {#}, execs = {#}, appended = [7], executed = []\<rparr> = Some (again, q') \<and>
     appended q' = executed q' @ jobs q' \<and> job_count q' = int (length (jobs q')) \<and>
     (again \<longleftrightarrow> jobs q' \<noteq> []) \<and> 0 < length (executed q')"
  using Execute_deadline [of 5 "\<lambda>k. 5 \<le> k" "\<lparr>job_count = 1, jobs = [7 :: nat], pushers = {#}, execs = {#},
      appended = [7], executed = []\<rparr>" "\<lambda>j. [j, j]"] by simp

text \<open>
  C38: The timer neither loses nor repeats a job and never fires early: over any sequence of
  reservations and distributions, the jobs pushed together with those still reserved are the jobs
  reserved, up to those whose target no longer exists; and each distribution leaves exactly the
  reservations that are not yet due.
\<close>

theorem timer_exact:
  "mset (concat (fst (timer_run alive cs []))) + due alive (mset (snd (timer_run alive cs []))) = due alive (reserved cs) \<and>
   snd (DistributeExpired alive now (snd (timer_run alive cs []))) =
     filter (\<lambda>rj. now < execute_at rj) (snd (timer_run alive cs []))"
proof -
  obtain pss q where r: "timer_run alive cs [] = (pss, q)" by fastforce
  have "sorted (map execute_at q)" using timer_run_sorted [OF _ r] by simp
  then show ?thesis using timer_run_due [OF _ r] r by (simp add: DistributeExpired_eq)
qed

end
