(* ===== verification/Room_Manager.thy ===== *)
theory Room_Manager
  imports Player_Registry Job_Queue
begin

text \<open>
  \<^verbatim>\<open>src/modules/game/Room.cpp\<close> and \<^verbatim>\<open>RoomManager.cpp\<close>. A \<open>Room\<close> is a \<open>JobQueue\<close>: packets are
  queued as jobs and dispatched by the thread that executes the queue. Rooms are shared objects, so
  the state has a heap: \<open>heap a\<close> is the room at address \<open>a\<close> while it lives, \<open>refs\<close> the addresses some
  \<open>shared_ptr\<close> outside the manager still holds. The \<open>GlobalQueue\<close> holds plain addresses.
\<close>

section \<open>Rooms\<close>

type_synonym PacketId = u16

text \<open>The closure \<open>HandlePacket\<close> pushes: player, packet id and a copy of the payload.\<close>

datatype room_job = DispatchJob PlayerId PacketId "byte list"

text \<open>\<open>PlayerState\<close> has the player's id as its only field. \<open>on_packet_calls\<close> are the calls of the
  virtual \<open>OnPacket\<close>.\<close>

record Room =
  room_id :: RoomId
  room_name :: string
  players :: "(PlayerId, PlayerId) umap"
  room_queue :: "room_job JobQueue"
  on_packet_calls :: "(PlayerId \<times> PacketId \<times> byte list) list"

definition kMaxPlayers :: nat where
  "kMaxPlayers = 500"

definition Room_new :: "RoomId \<Rightarrow> string \<Rightarrow> Room" where
  "Room_new i name = \<lparr>room_id = i, room_name = name, players = [], room_queue = JobQueue_new, on_packet_calls = []\<rparr>"

definition HasPlayer :: "PlayerId \<Rightarrow> Room \<Rightarrow> bool" where
  "HasPlayer p r = um_contains (players r) p"

definition AddPlayer :: "PlayerId \<Rightarrow> Room \<Rightarrow> Room" where
  "AddPlayer p r = r\<lparr>players := um_assign p p (players r)\<rparr>"

definition RemovePlayer :: "PlayerId \<Rightarrow> Room \<Rightarrow> Room" where
  "RemovePlayer p r = r\<lparr>players := um_erase p (players r)\<rparr>"

definition RoomPlayerCount :: "Room \<Rightarrow> u32" where
  "RoomPlayerCount r = of_nat (length (players r))"

definition RoomIsEmpty :: "Room \<Rightarrow> bool" where
  "RoomIsEmpty r \<longleftrightarrow> players r = []"

definition RoomIsFull :: "Room \<Rightarrow> bool" where
  "RoomIsFull r \<longleftrightarrow> kMaxPlayers \<le> length (players r)"

text \<open>The result says whether the room registered itself with the \<open>GlobalQueue\<close>.\<close>

definition HandlePacket :: "PlayerId \<Rightarrow> PacketId \<Rightarrow> byte list \<Rightarrow> Room \<Rightarrow> bool \<times> Room" where
  "HandlePacket p m payload r =
     (let (first, q) = JobQueue_Push (DispatchJob p m payload) (room_queue r) in (first, r\<lparr>room_queue := q\<rparr>))"

definition Room_OnPacket :: "PlayerId \<Rightarrow> PacketId \<Rightarrow> byte list \<Rightarrow> Room \<Rightarrow> Room" where
  "Room_OnPacket player m payload r = r\<lparr>on_packet_calls := on_packet_calls r @ [(player, m, payload)]\<rparr>"

fun DispatchPacket :: "room_job \<Rightarrow> Room \<Rightarrow> Room" where
  "DispatchPacket (DispatchJob p m payload) r =
     (case map_of (players r) p of None \<Rightarrow> r | Some player \<Rightarrow> Room_OnPacket player m payload r)"

text \<open>
  \<open>Execute\<close> of the room's queue: the jobs it ran are those it added to \<open>executed\<close>, and each is a
  call of \<open>DispatchPacket\<close>. \<open>OnPacket\<close> of the base class pushes no further jobs.
\<close>

definition Room_Execute :: "(nat \<Rightarrow> bool) \<Rightarrow> nat \<Rightarrow> Room \<Rightarrow> (bool \<times> Room) option" where
  "Room_Execute late fuel r =
     (case Execute late (\<lambda>_. []) fuel 0 (room_queue r) of
        None \<Rightarrow> None
      | Some (again, q) \<Rightarrow>
          Some (again, foldl (\<lambda>r j. DispatchPacket j r) (r\<lparr>room_queue := q\<rparr>)
                         (drop (length (executed (room_queue r))) (executed q))))"

section \<open>The manager\<close>

record RoomManager =
  next_room_id :: RoomId
  rooms :: "(RoomId, nat) umap"

definition RoomManager_new :: RoomManager where
  "RoomManager_new = \<lparr>next_room_id = 1, rooms = []\<rparr>"

text \<open>The loop of \<open>NextRoomIdLocked\<close>; it need not end.\<close>

partial_function (option) skip_used :: "RoomId list \<Rightarrow> RoomId \<Rightarrow> RoomId option" where
  "skip_used used n = (if n = 0 \<or> n \<in> set used then skip_used used (n + 1) else Some n)"

definition NextRoomIdLocked :: "RoomManager \<Rightarrow> (RoomId \<times> RoomManager) option" where
  "NextRoomIdLocked m =
     (case skip_used (map fst (rooms m)) (next_room_id m) of
        None \<Rightarrow> None
      | Some n \<Rightarrow> Some (n, m\<lparr>next_room_id := n + 1\<rparr>))"

record game =
  mgr :: RoomManager
  heap :: "nat \<Rightarrow> Room option"
  refs :: "nat set"
  fresh_addr :: nat
  gq :: "nat list"

definition game_new :: game where
  "game_new = \<lparr>mgr = RoomManager_new, heap = (\<lambda>_. None), refs = {}, fresh_addr = 0, gq = []\<rparr>"

text \<open>\<open>std::make_shared\<close>; the caller holds the pointer.\<close>

definition make_room :: "RoomId \<Rightarrow> string \<Rightarrow> game \<Rightarrow> nat \<times> game" where
  "make_room i name g =
     (fresh_addr g, g\<lparr>heap := (heap g)(fresh_addr g := Some (Room_new i name)),
                      refs := insert (fresh_addr g) (refs g), fresh_addr := Suc (fresh_addr g)\<rparr>)"

definition CreateRoom :: "string \<Rightarrow> game \<Rightarrow> (nat \<times> game) option" where
  "CreateRoom name g =
     (case NextRoomIdLocked (mgr g) of
        None \<Rightarrow> None
      | Some (i, m) \<Rightarrow>
          (let (a, g') = make_room i name g
           in Some (a, g'\<lparr>mgr := m\<lparr>rooms := snd (um_emplace i a (rooms m))\<rparr>\<rparr>)))"

definition AddRoom :: "nat option \<Rightarrow> game \<Rightarrow> bool \<times> game" where
  "AddRoom room g =
     (case room of
        None \<Rightarrow> (False, g)
      | Some a \<Rightarrow>
          (case heap g a of
             None \<Rightarrow> (False, g)
           | Some r \<Rightarrow>
               (let (inserted, rs) = um_emplace (room_id r) a (rooms (mgr g))
                in (inserted, g\<lparr>mgr := (mgr g)\<lparr>rooms := rs\<rparr>\<rparr>))))"

definition FindRoom :: "RoomId \<Rightarrow> game \<Rightarrow> nat option" where
  "FindRoom i g = map_of (rooms (mgr g)) i"

text \<open>When the last \<open>shared_ptr\<close> to \<open>a\<close> goes away the room is destroyed.\<close>

definition collect :: "nat \<Rightarrow> game \<Rightarrow> game" where
  "collect a g = (if a \<in> refs g \<or> a \<in> snd ` set (rooms (mgr g)) then g else g\<lparr>heap := (heap g)(a := None)\<rparr>)"

definition RemoveRoom :: "RoomId \<Rightarrow> game \<Rightarrow> bool \<times> game" where
  "RemoveRoom i g =
     (case map_of (rooms (mgr g)) i of
        None \<Rightarrow> (False, g)
      | Some a \<Rightarrow> (True, collect a (g\<lparr>mgr := (mgr g)\<lparr>rooms := um_erase i (rooms (mgr g))\<rparr>\<rparr>)))"

definition release_ref :: "nat \<Rightarrow> game \<Rightarrow> game" where
  "release_ref a g = collect a (g\<lparr>refs := refs g - {a}\<rparr>)"

definition Rooms :: "game \<Rightarrow> nat list" where
  "Rooms g = map snd (rooms (mgr g))"

record RoomInfo =
  info_id :: RoomId
  info_name :: string
  info_player_count :: u32
  info_max_players :: u32

definition GetRoomList :: "game \<Rightarrow> RoomInfo option list" where
  "GetRoomList g =
     map (\<lambda>(i, a). map_option (\<lambda>r. \<lparr>info_id = i, info_name = room_name r, info_player_count = RoomPlayerCount r,
                                     info_max_players = of_nat kMaxPlayers\<rparr>) (heap g a)) (rooms (mgr g))"

definition RoomCount :: "game \<Rightarrow> u32" where
  "RoomCount g = of_nat (length (rooms (mgr g)))"

definition NextRoomId :: "game \<Rightarrow> RoomId" where
  "NextRoomId g = next_room_id (mgr g)"

text \<open>A call of a method of the room at \<open>a\<close>; the caller reached it through some pointer.\<close>

definition on_room :: "nat \<Rightarrow> (Room \<Rightarrow> bool \<times> Room) \<Rightarrow> game \<Rightarrow> fault + game" where
  "on_room a f g =
     (case heap g a of
        None \<Rightarrow> Inl UseAfterFree
      | Some r \<Rightarrow>
          (let (register, r') = f r
           in Inr (g\<lparr>heap := (heap g)(a := Some r'),
                     gq := (if register then GlobalQueue_Push a (gq g) else gq g)\<rparr>)))"

text \<open>What a worker thread does: take a queue off the \<open>GlobalQueue\<close> and execute it to the end.\<close>

definition run_next :: "game \<Rightarrow> fault + game" where
  "run_next g =
     (case GlobalQueue_TryPop (gq g) of
        None \<Rightarrow> Inr g
      | Some (a, rest) \<Rightarrow>
          on_room a (\<lambda>r. case Room_Execute (\<lambda>_. False) 1 r of None \<Rightarrow> (False, r) | Some x \<Rightarrow> x) (g\<lparr>gq := rest\<rparr>))"

section \<open>Fresh room ids\<close>

lemma skip_used_sound: "skip_used used n = Some i \<Longrightarrow> i \<noteq> 0 \<and> i \<notin> set used"
  by (rule skip_used.raw_induct [where P = "\<lambda>used n i. i \<noteq> 0 \<and> i \<notin> set used"]) (auto split: if_splits)

lemma skip_used_reaches:
  "n + of_nat k \<noteq> 0 \<Longrightarrow> n + of_nat k \<notin> set used \<Longrightarrow>
     (\<And>j. j < k \<Longrightarrow> n + of_nat j = 0 \<or> n + of_nat j \<in> set used) \<Longrightarrow> skip_used used n = Some (n + of_nat k)"
proof (induction k arbitrary: n)
  case (Suc k)
  have "n = 0 \<or> n \<in> set used" using Suc.prems(3) [of 0] by simp
  moreover have "n + 1 + of_nat j = 0 \<or> n + 1 + of_nat j \<in> set used" if "j < k" for j
    using Suc.prems(3) [of "Suc j"] that by (simp add: add.assoc)
  ultimately show ?case using Suc.IH [of "n + 1"] Suc.prems(1,2) by (simp add: skip_used.simps [of used n] add.assoc)
qed (simp add: skip_used.simps)

lemma skip_used_total:
  fixes n :: RoomId
  assumes "i \<noteq> 0" "i \<notin> set used"
  shows "\<exists>k. skip_used used n = Some (n + of_nat k) \<and> n + of_nat k \<noteq> 0 \<and> n + of_nat k \<notin> set used \<and>
     (\<forall>j < k. n + of_nat j = 0 \<or> n + of_nat j \<in> set used)"
proof -
  let ?P = "\<lambda>k. n + of_nat k \<noteq> 0 \<and> n + of_nat k \<notin> set used"
  have "?P (unat (i - n))" using assms by simp
  then have "?P (LEAST k. ?P k)" by (rule LeastI)
  moreover have "\<forall>j < (LEAST k. ?P k). n + of_nat j = 0 \<or> n + of_nat j \<in> set used"
    using not_less_Least by blast
  ultimately show ?thesis using skip_used_reaches [of n "LEAST k. ?P k" used] by blast
qed

section \<open>Executing a room\<close>

lemma Execute_batch_all:
  "Execute_batch (\<lambda>_. False) (\<lambda>_. []) k d js q =
     (d + length js, [], k + length js, q\<lparr>executed := executed q @ js\<rparr>)"
  by (induction js arbitrary: k d q) (simp_all add: run_job_def)

lemma Execute_all:
  assumes "accounted 0 [] q"
  shows "Execute (\<lambda>_. False) (\<lambda>_. []) 1 k q =
     Some (False, q\<lparr>jobs := [], job_count := 0, executed := executed q @ jobs q\<rparr>)"
  using assms by (simp add: Execute_batch_all accounted_def)

lemma DispatchPacket_keeps [simp]:
  "room_id (DispatchPacket j r) = room_id r" "players (DispatchPacket j r) = players r"
  "room_queue (DispatchPacket j r) = room_queue r"
  by (cases j; simp add: Room_OnPacket_def split: option.splits)+

lemma dispatch_all_keeps [simp]:
  "room_id (foldl (\<lambda>r j. DispatchPacket j r) r js) = room_id r"
  "players (foldl (\<lambda>r j. DispatchPacket j r) r js) = players r"
  "room_queue (foldl (\<lambda>r j. DispatchPacket j r) r js) = room_queue r"
  by (induction js arbitrary: r) simp_all

fun job_call :: "room_job \<Rightarrow> PlayerId \<times> PacketId \<times> byte list" where
  "job_call (DispatchJob p m payload) = (p, m, payload)"

definition self_keyed :: "Room \<Rightarrow> bool" where
  "self_keyed r \<longleftrightarrow> (\<forall>p v. map_of (players r) p = Some v \<longrightarrow> v = p)"

lemma dispatch_all_calls:
  "self_keyed r \<Longrightarrow> on_packet_calls (foldl (\<lambda>r j. DispatchPacket j r) r js) =
     on_packet_calls r @ filter (\<lambda>(p, _). HasPlayer p r) (map job_call js)"
proof (induction js arbitrary: r)
  case (Cons j js)
  have "self_keyed (DispatchPacket j r)" using Cons.prems by (simp add: self_keyed_def)
  moreover have "HasPlayer p (DispatchPacket j r) = HasPlayer p r" for p by (simp add: HasPlayer_def)
  moreover have "on_packet_calls (DispatchPacket j r) =
      on_packet_calls r @ filter (\<lambda>(p, _). HasPlayer p r) [job_call j]"
    using Cons.prems
    by (cases j) (auto simp: Room_OnPacket_def HasPlayer_def self_keyed_def domIff split: option.splits)
  ultimately show ?case using Cons.IH [of "DispatchPacket j r"] by simp
qed simp

lemma Room_Execute_all:
  assumes "accounted 0 [] (room_queue r)"
  shows "Room_Execute (\<lambda>_. False) 1 r =
     Some (False, foldl (\<lambda>r j. DispatchPacket j r)
       (r\<lparr>room_queue := (room_queue r)\<lparr>jobs := [], job_count := 0,
           executed := executed (room_queue r) @ jobs (room_queue r)\<rparr>\<rparr>) (jobs (room_queue r)))"
  using Execute_all [OF assms] by (simp add: Room_Execute_def)

section \<open>The invariant\<close>

text \<open>
  \<open>gq\<close> holds exactly the live rooms with queued packets and possibly rooms that are dead; the
  manager's entries are alive, carry their own id, and everything outside \<open>heap\<close> is unused.
\<close>

definition room_ok :: "nat \<Rightarrow> nat list \<Rightarrow> Room \<Rightarrow> bool" where
  "room_ok a queued r \<longleftrightarrow> accounted 0 [] (room_queue r) \<and> um_ok (players r) \<and> self_keyed r \<and>
     (jobs (room_queue r) \<noteq> [] \<longleftrightarrow> a \<in> set queued)"

definition game_inv :: "game \<Rightarrow> bool" where
  "game_inv g \<longleftrightarrow> um_ok (rooms (mgr g)) \<and> distinct (gq g) \<and>
     (\<forall>i a. map_of (rooms (mgr g)) i = Some a \<longrightarrow> (\<exists>r. heap g a = Some r \<and> room_id r = i)) \<and>
     (\<forall>a r. heap g a = Some r \<longrightarrow> room_ok a (gq g) r) \<and>
     (\<forall>a \<in> refs g. heap g a \<noteq> None) \<and>
     (\<forall>a. heap g a \<noteq> None \<or> a \<in> set (gq g) \<longrightarrow> a < fresh_addr g)"

text \<open>The calls of room methods: what they do to the room, and whether it registers itself.\<close>

datatype room_call = CallAddPlayer PlayerId | CallRemovePlayer PlayerId | CallHandlePacket PlayerId PacketId "byte list"

fun room_exec :: "room_call \<Rightarrow> Room \<Rightarrow> bool \<times> Room" where
  "room_exec (CallAddPlayer p) r = (False, AddPlayer p r)"
| "room_exec (CallRemovePlayer p) r = (False, RemovePlayer p r)"
| "room_exec (CallHandlePacket p m payload) r = HandlePacket p m payload r"

inductive game_step :: "game \<Rightarrow> game \<Rightarrow> bool" where
  create: "CreateRoom name g = Some (a, g') \<Longrightarrow> game_step g g'"
| make: "game_step g (snd (make_room i name g))"
| add: "a \<in> refs g \<Longrightarrow> game_step g (snd (AddRoom (Some a) g))"
| find: "FindRoom i g = Some a \<Longrightarrow> game_step g (g\<lparr>refs := insert a (refs g)\<rparr>)"
| remove: "game_step g (snd (RemoveRoom i g))"
| release: "a \<in> refs g \<Longrightarrow> game_step g (release_ref a g)"
| call: "a \<in> refs g \<Longrightarrow> on_room a (room_exec c) g = Inr g' \<Longrightarrow> game_step g g'"
| run: "run_next g = Inr g' \<Longrightarrow> game_step g g'"

lemma room_exec_ok:
  assumes "room_ok a queued r" "room_exec c r = (register, r')"
  shows "room_ok a (if register then queued @ [a] else queued) r' \<and> room_id r' = room_id r \<and>
     (register \<longrightarrow> a \<notin> set queued)"
proof (cases c)
  case (CallHandlePacket p m payload)
  have "accounted 0 [] (snd (JobQueue_Push (DispatchJob p m payload) (room_queue r)))"
    using assms(1) by (simp add: room_ok_def accounted_def JobQueue_Push_def)
  moreover have "job_count (room_queue r) = 0 \<longleftrightarrow> jobs (room_queue r) = []"
    using assms(1) by (simp add: room_ok_def accounted_def)
  ultimately show ?thesis using assms CallHandlePacket
    by (auto simp: room_ok_def HandlePacket_def JobQueue_Push_def self_keyed_def)
qed (use assms in \<open>auto simp: room_ok_def AddPlayer_def RemovePlayer_def self_keyed_def um_simps split: if_splits\<close>)

lemma game_invD:
  assumes "game_inv g"
  shows "um_ok (rooms (mgr g))" "distinct (gq g)"
    "map_of (rooms (mgr g)) i = Some a \<Longrightarrow> \<exists>r. heap g a = Some r \<and> room_id r = i"
    "heap g a = Some r \<Longrightarrow> room_ok a (gq g) r" "a \<in> refs g \<Longrightarrow> heap g a \<noteq> None"
    "heap g a \<noteq> None \<Longrightarrow> a < fresh_addr g" "a \<in> set (gq g) \<Longrightarrow> a < fresh_addr g"
  using assms by (auto simp: game_inv_def)

lemma room_ok_new: "a \<notin> set queued \<Longrightarrow> room_ok a queued (Room_new i name)"
  by (simp add: room_ok_def Room_new_def JobQueue_new_def accounted_def um_ok_def self_keyed_def)

lemma room_ok_other: "a \<noteq> b \<Longrightarrow> room_ok a (queued @ [b]) r = room_ok a queued r"
  by (simp add: room_ok_def)

lemma fresh_addr_free:
  assumes "game_inv g"
  shows "heap g (fresh_addr g) = None" "fresh_addr g \<notin> set (gq g)" "fresh_addr g \<notin> refs g"
    "map_of (rooms (mgr g)) i \<noteq> Some (fresh_addr g)"
proof -
  show h: "heap g (fresh_addr g) = None" using game_invD(6) [OF assms, of "fresh_addr g"] by blast
  show "fresh_addr g \<notin> set (gq g)" using game_invD(7) [OF assms, of "fresh_addr g"] by blast
  show "fresh_addr g \<notin> refs g" "map_of (rooms (mgr g)) i \<noteq> Some (fresh_addr g)"
    using h game_invD(5) [OF assms, of "fresh_addr g"] game_invD(3) [OF assms, of i "fresh_addr g"] by auto
qed

lemma game_invI:
  assumes "um_ok (rooms (mgr g))" "distinct (gq g)"
    "\<And>i a. map_of (rooms (mgr g)) i = Some a \<Longrightarrow> \<exists>r. heap g a = Some r \<and> room_id r = i"
    "\<And>a r. heap g a = Some r \<Longrightarrow> room_ok a (gq g) r" "\<And>a. a \<in> refs g \<Longrightarrow> heap g a \<noteq> None"
    "\<And>a. heap g a \<noteq> None \<or> a \<in> set (gq g) \<Longrightarrow> a < fresh_addr g"
  shows "game_inv g"
  using assms unfolding game_inv_def by blast

lemma make_room_inv:
  assumes g: "game_inv g"
  shows "game_inv (snd (make_room i name g))"
proof (rule game_invI)
  note f = fresh_addr_free [OF g]
  show "\<exists>r. heap (snd (make_room i name g)) a = Some r \<and> room_id r = j"
    if "map_of (rooms (mgr (snd (make_room i name g)))) j = Some a" for j a
  proof -
    have m: "map_of (rooms (mgr g)) j = Some a" using that by (simp add: make_room_def)
    then have "a \<noteq> fresh_addr g" using f(4) by auto
    then show ?thesis using game_invD(3) [OF g m] by (simp add: make_room_def)
  qed
  show "room_ok a (gq (snd (make_room i name g))) r" if "heap (snd (make_room i name g)) a = Some r" for a r
    using that room_ok_new [OF f(2)] game_invD(4) [OF g] by (auto simp: make_room_def split: if_splits)
  show "a < fresh_addr (snd (make_room i name g))"
    if "heap (snd (make_room i name g)) a \<noteq> None \<or> a \<in> set (gq (snd (make_room i name g)))" for a
    using that game_invD(6,7) [OF g, of a] by (auto simp: make_room_def less_Suc_eq split: if_splits)
qed (use game_invD(1,2,5) [OF g] in \<open>auto simp: make_room_def\<close>)

lemma collect_inv:
  assumes g: "game_inv g"
  shows "game_inv (collect a g)"
proof (cases "a \<in> refs g \<or> a \<in> snd ` set (rooms (mgr g))")
  case False
  show ?thesis
  proof (rule game_invI)
    show "\<exists>r. heap (collect a g) b = Some r \<and> room_id r = i"
      if "map_of (rooms (mgr (collect a g))) i = Some b" for i b
    proof -
      have m: "map_of (rooms (mgr g)) i = Some b" using that False by (simp add: collect_def)
      then have "b \<noteq> a" using False by (force dest: map_of_SomeD)
      then show ?thesis using game_invD(3) [OF g m] False by (simp add: collect_def)
    qed
  qed (use False game_invD(1,2) [OF g] game_invD(4,5,6,7) [OF g] in \<open>auto simp: collect_def split: if_splits\<close>)
qed (simp add: collect_def g)

lemma create_inv:
  assumes g: "game_inv g" and c: "CreateRoom name g = Some (a, g')"
  shows "game_inv g'"
proof -
  obtain i m where n: "NextRoomIdLocked (mgr g) = Some (i, m)" using c by (auto simp: CreateRoom_def split: option.splits)
  then have i: "map_of (rooms (mgr g)) i = None" and m: "rooms m = rooms (mgr g)"
    using skip_used_sound [of "map fst (rooms (mgr g))" "next_room_id (mgr g)" i]
    by (auto simp: NextRoomIdLocked_def map_of_eq_None_iff split: option.splits)
  let ?h = "snd (make_room i name g)"
  have a: "a = fresh_addr g" and g': "g' = ?h\<lparr>mgr := m\<lparr>rooms := snd (um_emplace i a (rooms m))\<rparr>\<rparr>"
    using c n by (auto simp: CreateRoom_def make_room_def)
  have h: "game_inv ?h" by (rule make_room_inv [OF g])
  have "heap ?h a = Some (Room_new i name)" "room_id (Room_new i name) = i" "rooms (mgr ?h) = rooms m"
    using a m by (simp_all add: make_room_def Room_new_def)
  moreover have "map_of (snd (um_emplace i a (rooms m))) = (map_of (rooms m))(i \<mapsto> a)"
    using i m by (simp add: um_simps domIff)
  ultimately show ?thesis
    using g' h m um_ok_keep(2) [of "rooms m" i a] unfolding game_inv_def by (simp split: if_splits)
qed

lemma add_inv:
  assumes g: "game_inv g"
  shows "game_inv (snd (AddRoom (Some a) g))"
proof (cases "heap g a")
  case (Some r)
  have "snd (AddRoom (Some a) g) = g\<lparr>mgr := (mgr g)\<lparr>rooms := snd (um_emplace (room_id r) a (rooms (mgr g)))\<rparr>\<rparr>"
    using Some by (simp add: AddRoom_def split: prod.splits)
  then show ?thesis
    using g Some um_ok_keep(2) [of "rooms (mgr g)" "room_id r" a] unfolding game_inv_def
    by (auto simp: um_lookup split: if_splits)
qed (simp add: AddRoom_def g)

lemma remove_inv:
  assumes g: "game_inv g"
  shows "game_inv (snd (RemoveRoom i g))"
proof -
  have "game_inv (g\<lparr>mgr := (mgr g)\<lparr>rooms := um_erase i (rooms (mgr g))\<rparr>\<rparr>)"
    using g um_ok_keep(4) [of "rooms (mgr g)" i] unfolding game_inv_def by (auto simp: um_lookup split: if_splits)
  then show ?thesis using g collect_inv by (simp add: RemoveRoom_def split: option.splits)
qed

lemma release_inv: "game_inv g \<Longrightarrow> game_inv (release_ref a g)"
  unfolding release_ref_def by (rule collect_inv) (auto simp: game_inv_def)

lemma on_room_inv:
  assumes g: "game_inv g" and r: "heap g a = Some r" and f: "f r = (register, r')"
    and o: "on_room a f g = Inr g'"
    and ok: "room_ok a (if register then gq g @ [a] else gq g) r'" "room_id r' = room_id r" "register \<longrightarrow> a \<notin> set (gq g)"
  shows "game_inv g'"
proof -
  have g': "g' = g\<lparr>heap := (heap g)(a := Some r'), gq := (if register then gq g @ [a] else gq g)\<rparr>"
    using o r f by (auto simp: on_room_def GlobalQueue_Push_def)
  show ?thesis
  proof (rule game_invI)
    show "\<exists>q. heap g' b = Some q \<and> room_id q = i" if "map_of (rooms (mgr g')) i = Some b" for i b
      using that g' game_invD(3) [OF g, of i b] r ok(2) by (cases "b = a") auto
    show "room_ok b (gq g') q" if "heap g' b = Some q" for b q
      using that g' game_invD(4) [OF g, of b q] ok(1) by (cases "b = a") (auto simp: room_ok_other)
    show "b < fresh_addr g'" if "heap g' b \<noteq> None \<or> b \<in> set (gq g')" for b
      using that g' game_invD(6,7) [OF g, of b] r by (auto split: if_splits)
  qed (use g' ok(3) game_invD(1,2,5) [OF g] in \<open>auto split: if_splits\<close>)
qed

lemma call_inv:
  assumes "game_inv g" "on_room a (room_exec c) g = Inr g'"
  shows "game_inv g'"
proof -
  obtain r where r: "heap g a = Some r" using assms(2) by (auto simp: on_room_def split: option.splits)
  obtain reg r' where e: "room_exec c r = (reg, r')" by fastforce
  show ?thesis
    using on_room_inv [OF assms(1) r e assms(2)] room_exec_ok [OF game_invD(4) [OF assms(1) r] e] by auto
qed

lemma run_inv:
  assumes g: "game_inv g" and n: "run_next g = Inr g'"
  shows "game_inv g'"
proof (cases "gq g")
  case Nil
  then show ?thesis using n g by (simp add: run_next_def GlobalQueue_TryPop_def)
next
  case (Cons a rest)
  let ?f = "\<lambda>r. case Room_Execute (\<lambda>_. False) 1 r of None \<Rightarrow> (False, r) | Some x \<Rightarrow> x"
  have o: "on_room a ?f (g\<lparr>gq := rest\<rparr>) = Inr g'"
    using n Cons by (simp add: run_next_def GlobalQueue_TryPop_def)
  then obtain r where r: "heap g a = Some r" by (auto simp: on_room_def split: option.splits)
  have ok: "room_ok a (gq g) r" using game_invD(4) [OF g r] .
  obtain r' where e: "Room_Execute (\<lambda>_. False) 1 r = Some (False, r')" and r': "room_ok a rest r'" "room_id r' = room_id r"
    using Room_Execute_all [of r] ok game_invD(2) [OF g] Cons
    by (auto simp: room_ok_def accounted_def self_keyed_def)
  have g': "g' = g\<lparr>heap := (heap g)(a := Some r'), gq := rest\<rparr>"
    using o r e by (simp add: on_room_def)
  show ?thesis
  proof (rule game_invI)
    show "\<exists>q. heap g' b = Some q \<and> room_id q = i" if "map_of (rooms (mgr g')) i = Some b" for i b
      using that g' game_invD(3) [OF g, of i b] r r'(2) by (cases "b = a") auto
    show "room_ok b (gq g') q" if "heap g' b = Some q" for b q
      using that g' game_invD(4) [OF g, of b q] r'(1) Cons by (cases "b = a") (auto simp: room_ok_def)
    show "b < fresh_addr g'" if "heap g' b \<noteq> None \<or> b \<in> set (gq g')" for b
      using that g' game_invD(6,7) [OF g, of b] r Cons by (auto split: if_splits)
  qed (use g' Cons game_invD(1,2,5) [OF g] in \<open>auto split: if_splits\<close>)
qed

lemma find_inv:
  assumes g: "game_inv g" and f: "FindRoom i g = Some a"
  shows "game_inv (g\<lparr>refs := insert a (refs g)\<rparr>)"
proof -
  obtain r where "heap g a = Some r" using game_invD(3) [OF g, of i a] f by (auto simp: FindRoom_def)
  then show ?thesis using g by (simp add: game_inv_def)
qed

lemma game_step_inv:
  assumes "game_inv g" "game_step g g'"
  shows "game_inv g'"
  using assms(2)
proof cases
  case (create name a)
  then show ?thesis by (rule create_inv [OF assms(1)])
next
  case (make i name)
  then show ?thesis using make_room_inv [OF assms(1)] by blast
next
  case (add a)
  then show ?thesis using add_inv [OF assms(1)] by blast
next
  case (find i a)
  then show ?thesis using find_inv [OF assms(1)] by blast
next
  case (remove i)
  then show ?thesis using remove_inv [OF assms(1)] by blast
next
  case (release a)
  then show ?thesis using release_inv [OF assms(1)] by blast
next
  case (call a c)
  then show ?thesis using call_inv [OF assms(1)] by blast
next
  case run
  then show ?thesis by (rule run_inv [OF assms(1)])
qed

interpretation game_sys: inductive_invariant game_step "\<lambda>g. g = game_new" game_inv
proof unfold_locales
  show "game_inv g" if "g = game_new" for g
    using that by (simp add: game_inv_def game_new_def RoomManager_new_def um_ok_def)
qed (rule game_step_inv)

section \<open>A room from its creation\<close>

lemma joined_room:
  fixes ps i name
  defines "r \<equiv> foldl (\<lambda>r p. AddPlayer p r) (Room_new i name) ps"
  shows "dom (map_of (players r)) = set ps" "room_queue r = JobQueue_new" "self_keyed r" "on_packet_calls r = []"
  unfolding r_def
  by (induction ps rule: rev_induct)
     (auto simp: Room_new_def AddPlayer_def self_keyed_def um_simps dom_def split: if_splits)

lemma handled_room:
  fixes r pkts
  defines "r' \<equiv> foldl (\<lambda>r (p, m, b). snd (HandlePacket p m b r)) r pkts"
  shows "accounted 0 [] (room_queue r) \<Longrightarrow> accounted 0 [] (room_queue r')"
    "map job_call (jobs (room_queue r')) = map job_call (jobs (room_queue r)) @ pkts"
    "players r' = players r" "on_packet_calls r' = on_packet_calls r"
  unfolding r'_def
  by (induction pkts rule: rev_induct)
     (auto simp: HandlePacket_def JobQueue_Push_def accounted_def split: prod.splits)

section \<open>Properties\<close>

text \<open>
  \<open>NextRoomIdLocked\<close> returns exactly when some non-zero id is unused, and then returns an unused
  non-zero id and moves on to its successor. When all ids are taken the loop never ends (with the
  manager's lock held).
\<close>

theorem NextRoomIdLocked_fresh:
  "(NextRoomIdLocked m = None \<longleftrightarrow> - {0} \<subseteq> fst ` set (rooms m)) \<and>
   (case NextRoomIdLocked m of
      None \<Rightarrow> True
    | Some (i, m') \<Rightarrow> i \<noteq> 0 \<and> i \<notin> fst ` set (rooms m) \<and> m' = m\<lparr>next_room_id := i + 1\<rparr>)"
proof (cases "skip_used (map fst (rooms m)) (next_room_id m)")
  case None
  have "i = 0 \<or> i \<in> fst ` set (rooms m)" for i
    using skip_used_total [of i "map fst (rooms m)" "next_room_id m"] None by auto
  then show ?thesis using None by (auto simp: NextRoomIdLocked_def)
next
  case (Some i)
  then show ?thesis using skip_used_sound [OF Some] by (auto simp: NextRoomIdLocked_def)
qed


text \<open>Two rooms; a player joins the first and sends a packet.\<close>

definition demo_created :: game where
  "demo_created =
     \<lparr>mgr = \<lparr>next_room_id = 2, rooms = [(1, 0)]\<rparr>, heap = (\<lambda>_. None)(0 := Some (Room_new 1 ''a'')),
      refs = {0}, fresh_addr = 1, gq = []\<rparr>"

definition demo_called :: game where
  "demo_called = demo_created\<lparr>heap := (\<lambda>_. None)(0 := Some (snd (HandlePacket 7 201 [1] (Room_new 1 ''a'')))), gq := [0]\<rparr>"

lemma demo_called_reachable: "reachable_from game_step (\<lambda>g. g = game_new) demo_called"
proof -
  have "CreateRoom ''a'' game_new = Some (0, demo_created)"
    by (simp add: CreateRoom_def NextRoomIdLocked_def game_new_def RoomManager_new_def skip_used.simps
        make_room_def um_emplace_def demo_created_def)
  then have "game_step game_new demo_created" by (rule create)
  then have "reachable_from game_step (\<lambda>g. g = game_new) demo_created" by (blast intro: reachable_from.intros)
  moreover have "game_step demo_created demo_called"
    by (rule call [of 0 _ "CallHandlePacket 7 201 [1]"])
       (simp_all add: demo_called_def demo_created_def on_room_def HandlePacket_def JobQueue_Push_def Room_new_def
          JobQueue_new_def GlobalQueue_Push_def fun_eq_iff)
  ultimately show ?thesis by (rule reach_step)
qed


text \<open>
  The \<open>GlobalQueue\<close> does not keep a room alive: after a packet was queued, dropping the last
  reference and removing the room destroys it while its address is still queued, and the next worker
  uses it after it was freed.
\<close>

theorem removed_room_still_queued:
  "\<exists>g. reachable_from game_step (\<lambda>g. g = game_new) g \<and> run_next g = Inl UseAfterFree"
proof -
  let ?g = "snd (RemoveRoom 1 (release_ref 0 demo_called))"
  have "game_step demo_called (release_ref 0 demo_called)"
    by (rule release) (simp add: demo_called_def demo_created_def)
  moreover have "game_step (release_ref 0 demo_called) ?g" by (rule remove)
  ultimately have "reachable_from game_step (\<lambda>g. g = game_new) ?g"
    using demo_called_reachable by (blast intro: reach_step)
  moreover have "run_next ?g = Inl UseAfterFree"
    by (simp add: demo_called_def demo_created_def release_ref_def collect_def RemoveRoom_def um_erase_def
        run_next_def GlobalQueue_TryPop_def on_room_def)
  ultimately show ?thesis by blast
qed

text \<open>
  A room delivers what it was handed: after any players joined and any packets were handled,
  one \<open>Execute\<close> without a deadline ends, and has called \<open>OnPacket\<close> for exactly the packets of the
  players in the room, in the order of the \<open>HandlePacket\<close> calls.
\<close>

theorem room_delivers:
  "\<exists>r. Room_Execute (\<lambda>_. False) 1
         (foldl (\<lambda>r (p, m, b). snd (HandlePacket p m b r)) (foldl (\<lambda>r p. AddPlayer p r) (Room_new i name) ps) pkts)
       = Some (False, r) \<and> on_packet_calls r = filter (\<lambda>(p, _). p \<in> set ps) pkts"
proof -
  let ?r1 = "foldl (\<lambda>r p. AddPlayer p r) (Room_new i name) ps"
  let ?r2 = "foldl (\<lambda>r (p, m, b). snd (HandlePacket p m b r)) ?r1 pkts"
  note joined = joined_room [of i name ps]
  note handled = handled_room [of ?r1 pkts]
  have acc: "accounted 0 [] (room_queue ?r2)" using handled(1) joined(2) by (simp add: accounted_def JobQueue_new_def)
  have "self_keyed ?r2" "HasPlayer p ?r2 \<longleftrightarrow> p \<in> set ps" for p
    using handled(3) joined(1,3) by (auto simp: self_keyed_def HasPlayer_def)
  then have "on_packet_calls (foldl (\<lambda>r j. DispatchPacket j r) (?r2\<lparr>room_queue := q\<rparr>) js) =
      on_packet_calls ?r2 @ filter (\<lambda>(p, _). p \<in> set ps) (map job_call js)" for q js
    using dispatch_all_calls [of "?r2\<lparr>room_queue := q\<rparr>" js] by (simp add: self_keyed_def HasPlayer_def)
  moreover have "map job_call (jobs (room_queue ?r2)) = pkts" "on_packet_calls ?r2 = []"
    using handled(2,4) joined(2,4) by (simp_all add: JobQueue_new_def)
  ultimately show ?thesis unfolding Room_Execute_all [OF acc] by simp
qed

end
