(* ===== verification/Http_Text.thy ===== *)
theory Http_Text
  imports Runtime_Prelude
begin

text \<open>
  The string operations the web and media modules share: searching and cutting (\<open>find\<close> followed by
  \<open>substr\<close>), letter case, hexadecimal digits, trimming and \<open>std::from_chars\<close>. A \<open>char\<close> of the source is
  a \<open>char\<close> here; a position is the length of what precedes it.
\<close>

section \<open>Cutting at a character\<close>

text \<open>
  With \<open>pos = s.find(c)\<close>: the part before it, \<open>s.substr(0, pos)\<close>, and the part after it,
  \<open>s.substr(pos + 1)\<close>, or \<open>None\<close> when \<open>pos\<close> is \<open>npos\<close>.
\<close>

definition cut_at :: "char \<Rightarrow> string \<Rightarrow> string \<times> string option" where
  "cut_at c s = (takeWhile (\<lambda>x. x \<noteq> c) s, case dropWhile (\<lambda>x. x \<noteq> c) s of [] \<Rightarrow> None | _ # rest \<Rightarrow> Some rest)"

lemma cut_at_None: "cut_at c s = (p, None) \<longleftrightarrow> p = s \<and> c \<notin> set s"
proof (cases "c \<in> set s")
  case True
  then have "dropWhile (\<lambda>x. x \<noteq> c) s \<noteq> []" by (auto simp: dropWhile_eq_Nil_conv)
  then show ?thesis using True by (auto simp: cut_at_def split: list.splits)
next
  case False
  then have "dropWhile (\<lambda>x. x \<noteq> c) s = []" "takeWhile (\<lambda>x. x \<noteq> c) s = s"
    by (auto simp: dropWhile_eq_Nil_conv takeWhile_eq_all_conv)
  then have "cut_at c s = (s, None)" by (simp only: cut_at_def) simp
  then show ?thesis using False by auto
qed

lemma cut_at_Some: "cut_at c s = (p, Some r) \<longleftrightarrow> s = p @ c # r \<and> c \<notin> set p"
proof
  assume a: "cut_at c s = (p, Some r)"
  then obtain d where d: "dropWhile (\<lambda>x. x \<noteq> c) s = d # r" and p: "p = takeWhile (\<lambda>x. x \<noteq> c) s"
    by (auto simp: cut_at_def split: list.splits)
  have "d = c" using d by (metis (mono_tags, lifting) dropWhile_eq_Cons_conv)
  then show "s = p @ c # r \<and> c \<notin> set p"
    using d p takeWhile_dropWhile_id [of "\<lambda>x. x \<noteq> c" s] by (auto dest: set_takeWhileD)
qed (auto simp: cut_at_def takeWhile_append dropWhile_append)

lemma cut_at_append [simp]: "c \<notin> set p \<Longrightarrow> cut_at c (p @ c # r) = (p, Some r)"
  by (simp add: cut_at_Some)

lemma cut_at_notin [simp]: "c \<notin> set p \<Longrightarrow> cut_at c p = (p, None)"
  by (simp add: cut_at_None)

lemma cut_at_shorter: "cut_at c s = (p, Some r) \<Longrightarrow> length r < length s"
  by (simp add: cut_at_Some)

lemma cut_at_shorter_sym: "(p, Some r) = cut_at c s \<Longrightarrow> length r < length s"
  by (metis cut_at_shorter)

lemma snd_cut_at_shorter: "snd (cut_at c s) = Some r \<Longrightarrow> length r < length s"
  using cut_at_shorter [of c s "fst (cut_at c s)" r] by (simp add: prod_eq_iff)

section \<open>Searching for a substring\<close>

definition starts_with :: "string \<Rightarrow> string \<Rightarrow> bool" where
  "starts_with s pat \<longleftrightarrow> take (length pat) s = pat"

definition ends_with :: "string \<Rightarrow> string \<Rightarrow> bool" where
  "ends_with s pat \<longleftrightarrow> length pat \<le> length s \<and> drop (length s - length pat) s = pat"

fun find_sub :: "string \<Rightarrow> string \<Rightarrow> nat option" where
  "find_sub pat [] = (if pat = [] then Some 0 else None)"
| "find_sub pat (c # s) = (if starts_with (c # s) pat then Some 0 else map_option Suc (find_sub pat s))"

lemma starts_with_append [simp]: "starts_with (pat @ s) pat"
  by (simp add: starts_with_def)

lemma starts_with_iff: "starts_with s pat \<longleftrightarrow> (\<exists>r. s = pat @ r)"
  by (metis append_eq_conv_conj starts_with_append starts_with_def append_take_drop_id)

lemma find_sub_Some: "find_sub pat s = Some k \<Longrightarrow> starts_with (drop k s) pat \<and> k + length pat \<le> length s"
proof (induction pat s arbitrary: k rule: find_sub.induct)
  case (2 pat c s)
  show ?case
  proof (cases "starts_with (c # s) pat")
    case True
    then obtain r where "c # s = pat @ r" by (auto simp: starts_with_iff)
    then have "length pat \<le> length (c # s)" by (metis le_add1 length_append)
    then show ?thesis using "2.prems" True by simp
  next
    case False
    then show ?thesis using "2.prems" "2.IH" by auto
  qed
qed (auto split: if_splits simp: starts_with_def)

lemma find_sub_prefix:
  "find_sub pat s = Some k \<Longrightarrow> pat \<noteq> [] \<Longrightarrow> find_sub pat (take (k + length pat) s @ x) = Some k"
proof (induction pat s arbitrary: k rule: find_sub.induct)
  case (2 pat c s)
  show ?case
  proof (cases "starts_with (c # s) pat")
    case True
    then have "k = 0" "take (length pat) (c # s) = pat" using "2.prems" by (auto simp: starts_with_def)
    then show ?thesis using "2.prems"(2) by (cases pat) (auto simp: starts_with_def)
  next
    case False
    then obtain k' where k: "k = Suc k'" "find_sub pat s = Some k'" using "2.prems" by auto
    have "\<not> starts_with (c # take (k' + length pat) s @ x) pat"
    proof -
      have "k' + length pat \<le> length s" using find_sub_Some [OF k(2)] by simp
      then have "take (length pat) (c # take (k' + length pat) s @ x) = take (length pat) (c # s)"
        by (cases pat) (auto simp: min_def)
      then show ?thesis using False by (simp add: starts_with_def)
    qed
    then show ?thesis using "2.IH" [OF False k(2) "2.prems"(2)] k(1) by simp
  qed
qed (auto split: if_splits)

section \<open>Letters, digits and blanks\<close>

definition ToLower :: "char \<Rightarrow> char" where
  "ToLower c = (if of_char c \<ge> (65 :: nat) \<and> of_char c \<le> (90 :: nat) then char_of (of_char c + 32 :: nat) else c)"

fun CaseInsensitiveEqual :: "string \<Rightarrow> string \<Rightarrow> bool" where
  "CaseInsensitiveEqual [] [] \<longleftrightarrow> True"
| "CaseInsensitiveEqual (a # as) (b # bs) \<longleftrightarrow> ToLower a = ToLower b \<and> CaseInsensitiveEqual as bs"
| "CaseInsensitiveEqual _ _ \<longleftrightarrow> False"

text \<open>\<open>None\<close> is the result \<open>-1\<close>.\<close>

definition HexValue :: "char \<Rightarrow> nat option" where
  "HexValue c =
     (let n = of_char c
      in if n \<ge> 48 \<and> n \<le> 57 then Some (n - 48)
         else if n \<ge> 97 \<and> n \<le> 102 then Some (n - 97 + 10)
         else if n \<ge> 65 \<and> n \<le> 70 then Some (n - 65 + 10)
         else None)"

definition is_blank :: "char \<Rightarrow> bool" where
  "is_blank c \<longleftrightarrow> c = CHR '' '' \<or> c = CHR 0x09"

definition TrimAsciiWhitespace :: "string \<Rightarrow> string" where
  "TrimAsciiWhitespace s = rev (dropWhile is_blank (rev (dropWhile is_blank s)))"

lemma CaseInsensitiveEqual_iff: "CaseInsensitiveEqual s t \<longleftrightarrow> map ToLower s = map ToLower t"
  by (induction s t rule: CaseInsensitiveEqual.induct) auto

section \<open>Unsigned numbers\<close>

definition is_digit :: "char \<Rightarrow> bool" where
  "is_digit c \<longleftrightarrow> of_char c \<ge> (48 :: nat) \<and> of_char c \<le> (57 :: nat)"

definition digit_value :: "char \<Rightarrow> nat" where
  "digit_value c = of_char c - 48"

definition digits_value :: "string \<Rightarrow> nat" where
  "digits_value s = foldl (\<lambda>n c. 10 * n + digit_value c) 0 s"

datatype from_chars_result = Parsed u64 string | InvalidArgument | ResultOutOfRange

text \<open>
  \<open>std::from_chars\<close> into a \<open>uint64_t\<close>: the longest prefix of digits, the value and the rest of the
  text; no digits is an error, and so is a value that does not fit.
\<close>

definition from_chars_u64 :: "string \<Rightarrow> from_chars_result" where
  "from_chars_u64 s =
     (let ds = takeWhile is_digit s
      in if ds = [] then InvalidArgument
         else if digits_value ds < 2 ^ 64 then Parsed (of_nat (digits_value ds)) (dropWhile is_digit s)
         else ResultOutOfRange)"

lemma is_digit_char [simp]: "d < 10 \<Longrightarrow> is_digit (digit_char d)"
  by (simp add: is_digit_def digit_char_def of_char_of)

lemma digit_value_char [simp]: "d < 10 \<Longrightarrow> digit_value (digit_char d) = d"
  by (simp add: digit_value_def digit_char_def of_char_of)

lemma to_string_digits: "to_string_nat n \<noteq> [] \<and> (\<forall>c \<in> set (to_string_nat n). is_digit c)"
proof (induction n rule: to_string_nat.induct)
  case (1 n)
  then show ?case by (cases "n < 10") (simp_all add: to_string_nat.simps [of n])
qed

lemma digits_value_to_string: "digits_value (to_string_nat n) = n"
proof (induction n rule: to_string_nat.induct)
  case (1 n)
  then show ?case by (cases "n < 10") (simp_all add: to_string_nat.simps [of n] digits_value_def)
qed

text \<open>What \<open>std::to_string\<close> prints \<open>std::from_chars\<close> reads back.\<close>

lemma from_chars_to_string:
  assumes "n < 2 ^ 64" "s = [] \<or> \<not> is_digit (hd s)"
  shows "from_chars_u64 (to_string_nat n @ s) = Parsed (of_nat n) s"
proof -
  have "takeWhile is_digit s = []" "dropWhile is_digit s = s" using assms(2) by (cases s; simp)+
  then have "takeWhile is_digit (to_string_nat n @ s) = to_string_nat n" "dropWhile is_digit (to_string_nat n @ s) = s"
    using to_string_digits [of n] by (auto simp: takeWhile_append2 dropWhile_append2)
  then show ?thesis using assms(1) to_string_digits [of n] by (simp add: from_chars_u64_def digits_value_to_string)
qed

end
