(* ===== verification/Http_Request.thy ===== *)
theory Http_Request
  imports Http_Text
begin

text \<open>
  \<^verbatim>\<open>include/iouring_runtime/web/HttpMethod.h\<close> and \<^verbatim>\<open>HttpRequest.h\<close>: methods, and the request object
  with its lookups of headers, query parameters, path parameters and cookies. The reference
  definitions at the end read the whole query or cookie header as a list of pairs.
\<close>

section \<open>Methods\<close>

datatype HttpMethod = kGet | kHead | kPost | kPut | kDelete | kOptions | kPatch | kUnknown

definition HttpMethodFromLlhttp :: "int \<Rightarrow> HttpMethod" where
  "HttpMethodFromLlhttp m =
     (if m = 0 then kDelete else if m = 1 then kGet else if m = 2 then kHead else if m = 3 then kPost
      else if m = 4 then kPut else if m = 6 then kOptions else if m = 28 then kPatch else kUnknown)"

fun HttpMethodToString :: "HttpMethod \<Rightarrow> string" where
  "HttpMethodToString kGet = ''GET''"
| "HttpMethodToString kHead = ''HEAD''"
| "HttpMethodToString kPost = ''POST''"
| "HttpMethodToString kPut = ''PUT''"
| "HttpMethodToString kDelete = ''DELETE''"
| "HttpMethodToString kOptions = ''OPTIONS''"
| "HttpMethodToString kPatch = ''PATCH''"
| "HttpMethodToString kUnknown = ''UNKNOWN''"

section \<open>Requests\<close>

record HttpRequest =
  req_method :: HttpMethod
  req_path :: string
  req_query :: string
  req_body :: string
  req_keep_alive :: bool
  req_request_id :: string
  req_headers :: "(string \<times> string) list"
  req_params :: "(string \<times> string) list"

definition HttpRequest_new :: HttpRequest where
  "HttpRequest_new =
     \<lparr>req_method = kUnknown, req_path = [], req_query = [], req_body = [], req_keep_alive = True,
      req_request_id = [], req_headers = [], req_params = []\<rparr>"

fun find_header :: "string \<Rightarrow> (string \<times> string) list \<Rightarrow> string option" where
  "find_header name [] = None"
| "find_header name ((n, v) # hs) = (if CaseInsensitiveEqual n name then Some v else find_header name hs)"

definition GetHeader :: "string \<Rightarrow> HttpRequest \<Rightarrow> string" where
  "GetHeader name r = (case find_header name (req_headers r) of None \<Rightarrow> [] | Some v \<Rightarrow> v)"

definition HasHeader :: "string \<Rightarrow> HttpRequest \<Rightarrow> bool" where
  "HasHeader name r \<longleftrightarrow> find_header name (req_headers r) \<noteq> None"

definition ContentType :: "HttpRequest \<Rightarrow> string" where
  "ContentType r = GetHeader ''Content-Type'' r"

text \<open>The result of \<open>from_chars\<close> is not looked at: what it does not parse stays 0.\<close>

definition ContentLength :: "HttpRequest \<Rightarrow> u64" where
  "ContentLength r =
     (let value = GetHeader ''Content-Length'' r
      in if value = [] then 0
         else case from_chars_u64 value of Parsed n _ \<Rightarrow> n | InvalidArgument \<Rightarrow> 0 | ResultOutOfRange \<Rightarrow> 0)"

fun PercentDecode :: "bool \<Rightarrow> string \<Rightarrow> string" where
  "PercentDecode plus_as_space [] = []"
| "PercentDecode plus_as_space (ch # rest) =
     (if plus_as_space \<and> ch = CHR ''+'' then CHR '' '' # PercentDecode plus_as_space rest
      else case rest of
             a # b # rest' \<Rightarrow>
               (case (if ch = CHR ''%'' then HexValue a else None, HexValue b) of
                  (Some hi, Some lo) \<Rightarrow> char_of (hi * 16 + lo) # PercentDecode plus_as_space rest'
                | _ \<Rightarrow> ch # PercentDecode plus_as_space rest)
           | _ \<Rightarrow> ch # PercentDecode plus_as_space rest)"

function find_query :: "string \<Rightarrow> string \<Rightarrow> string option" where
  "find_query name remaining =
     (if remaining = [] then None
      else let (part, more_parts) = cut_at CHR ''&'' remaining;
               (key, value) = (case cut_at CHR ''='' part of (k, None) \<Rightarrow> (k, []) | (k, Some v) \<Rightarrow> (k, v))
           in if key = name then Some value
              else case more_parts of None \<Rightarrow> None | Some r \<Rightarrow> find_query name r)"
  by pat_completeness auto
termination by (relation "measure (\<lambda>(_, s). length s)") (auto dest: cut_at_shorter_sym)

declare find_query.simps [simp del]

definition FindQueryParam :: "string \<Rightarrow> HttpRequest \<Rightarrow> string option" where
  "FindQueryParam name r = (if req_query r = [] then None else find_query name (req_query r))"

definition QueryParam :: "string \<Rightarrow> HttpRequest \<Rightarrow> string" where
  "QueryParam name r = (case FindQueryParam name r of None \<Rightarrow> [] | Some v \<Rightarrow> v)"

definition HasQueryParam :: "string \<Rightarrow> HttpRequest \<Rightarrow> bool" where
  "HasQueryParam name r \<longleftrightarrow> FindQueryParam name r \<noteq> None"

definition QueryParamDecoded :: "string \<Rightarrow> HttpRequest \<Rightarrow> string" where
  "QueryParamDecoded name r = (case FindQueryParam name r of None \<Rightarrow> [] | Some v \<Rightarrow> PercentDecode True v)"

definition FindParam :: "string \<Rightarrow> HttpRequest \<Rightarrow> string option" where
  "FindParam name r = map_of (req_params r) name"

definition Param :: "string \<Rightarrow> HttpRequest \<Rightarrow> string" where
  "Param name r = (case FindParam name r of None \<Rightarrow> [] | Some v \<Rightarrow> v)"

definition HasParam :: "string \<Rightarrow> HttpRequest \<Rightarrow> bool" where
  "HasParam name r \<longleftrightarrow> FindParam name r \<noteq> None"

definition ParamDecoded :: "string \<Rightarrow> HttpRequest \<Rightarrow> string" where
  "ParamDecoded name r = (case FindParam name r of None \<Rightarrow> [] | Some v \<Rightarrow> PercentDecode False v)"

function find_cookie :: "string \<Rightarrow> string \<Rightarrow> string" where
  "find_cookie name remaining =
     (if remaining = [] then []
      else let (part0, more_parts) = cut_at CHR '';'' remaining;
               part = TrimAsciiWhitespace part0;
               (k, v) = cut_at CHR ''='' part;
               key = TrimAsciiWhitespace k;
               value = (case v of None \<Rightarrow> [] | Some x \<Rightarrow> TrimAsciiWhitespace x)
           in if key = name then value
              else case more_parts of None \<Rightarrow> [] | Some r \<Rightarrow> find_cookie name r)"
  by pat_completeness auto
termination by (relation "measure (\<lambda>(_, s). length s)") (auto dest: cut_at_shorter_sym)

declare find_cookie.simps [simp del]

definition Cookie :: "string \<Rightarrow> HttpRequest \<Rightarrow> string" where
  "Cookie name r =
     (let h = GetHeader ''Cookie'' r in if h = [] then [] else find_cookie name h)"

definition HasCookie :: "string \<Rightarrow> HttpRequest \<Rightarrow> bool" where
  "HasCookie name r \<longleftrightarrow> Cookie name r \<noteq> []"

definition CookieDecoded :: "string \<Rightarrow> HttpRequest \<Rightarrow> string" where
  "CookieDecoded name r = (let v = Cookie name r in if v = [] then [] else PercentDecode False v)"

text \<open>\<open>ConvertValue\<close> for the types the library's own code asks for: \<open>bool\<close> and \<open>uint64_t\<close>.\<close>

definition ConvertValue_bool :: "string \<Rightarrow> bool option" where
  "ConvertValue_bool v =
     (if v = ''true'' \<or> v = ''1'' then Some True else if v = ''false'' \<or> v = ''0'' then Some False else None)"

definition ConvertValue_u64 :: "string \<Rightarrow> u64 option" where
  "ConvertValue_u64 v =
     (if v = [] then None
      else case from_chars_u64 v of Parsed n rest \<Rightarrow> if rest = [] then Some n else None | _ \<Rightarrow> None)"

definition QueryParamAs_u64 :: "string \<Rightarrow> HttpRequest \<Rightarrow> u64 option" where
  "QueryParamAs_u64 name r = (case FindQueryParam name r of None \<Rightarrow> None | Some v \<Rightarrow> ConvertValue_u64 v)"

definition QueryParam_u64_or :: "string \<Rightarrow> u64 \<Rightarrow> HttpRequest \<Rightarrow> u64" where
  "QueryParam_u64_or name dflt r = (case QueryParamAs_u64 name r of None \<Rightarrow> dflt | Some n \<Rightarrow> n)"

definition ParamAs_u64 :: "string \<Rightarrow> HttpRequest \<Rightarrow> u64 option" where
  "ParamAs_u64 name r = (case FindParam name r of None \<Rightarrow> None | Some v \<Rightarrow> ConvertValue_u64 v)"

definition Param_u64_or :: "string \<Rightarrow> u64 \<Rightarrow> HttpRequest \<Rightarrow> u64" where
  "Param_u64_or name dflt r = (case ParamAs_u64 name r of None \<Rightarrow> dflt | Some n \<Rightarrow> n)"

definition AddHeader :: "string \<Rightarrow> string \<Rightarrow> HttpRequest \<Rightarrow> HttpRequest" where
  "AddHeader name value r = r\<lparr>req_headers := req_headers r @ [(name, value)]\<rparr>"

definition SetParams :: "(string \<times> string) list \<Rightarrow> HttpRequest \<Rightarrow> HttpRequest" where
  "SetParams ps r = r\<lparr>req_params := ps\<rparr>"

definition ClearParams :: "HttpRequest \<Rightarrow> HttpRequest" where
  "ClearParams r = r\<lparr>req_params := []\<rparr>"

definition Clear_request :: "HttpRequest \<Rightarrow> HttpRequest" where
  "Clear_request r =
     r\<lparr>req_method := kUnknown, req_path := [], req_query := [], req_body := [], req_keep_alive := True,
       req_request_id := [], req_headers := [], req_params := []\<rparr>"

section \<open>Reference: a query is a list of pairs\<close>

function split_list :: "char \<Rightarrow> string \<Rightarrow> string list" where
  "split_list c s = (if s = [] then [] else case cut_at c s of (p, None) \<Rightarrow> [p] | (p, Some r) \<Rightarrow> p # split_list c r)"
  by pat_completeness auto
termination by (relation "measure (\<lambda>(_, s). length s)") (auto dest: cut_at_shorter_sym)

declare split_list.simps [simp del]

definition key_value :: "string \<Rightarrow> string \<times> string" where
  "key_value part = (case cut_at CHR ''='' part of (k, None) \<Rightarrow> (k, []) | (k, Some v) \<Rightarrow> (k, v))"

definition cookie_pair :: "string \<Rightarrow> string \<times> string" where
  "cookie_pair part0 =
     map_prod TrimAsciiWhitespace TrimAsciiWhitespace (key_value (TrimAsciiWhitespace part0))"

lemma find_query_unfold:
  "q \<noteq> [] \<Longrightarrow> find_query name q =
     (let (k, v) = key_value (fst (cut_at CHR ''&'' q))
      in if k = name then Some v else case snd (cut_at CHR ''&'' q) of None \<Rightarrow> None | Some r \<Rightarrow> find_query name r)"
  by (subst find_query.simps) (simp add: key_value_def split: prod.splits option.splits)

lemma split_list_unfold:
  "s \<noteq> [] \<Longrightarrow> split_list c s =
     fst (cut_at c s) # (case snd (cut_at c s) of None \<Rightarrow> [] | Some r \<Rightarrow> split_list c r)"
  by (subst split_list.simps) (simp split: prod.splits option.splits)

lemma find_query_map_of: "find_query name q = map_of (map key_value (split_list CHR ''&'' q)) name"
proof (induction "length q" arbitrary: q rule: less_induct)
  case less
  show ?case
  proof (cases "q = []")
    case False
    then show ?thesis using less snd_cut_at_shorter [of "CHR ''&''" q]
      by (auto simp: find_query_unfold split_list_unfold split: prod.splits option.splits)
  qed (simp add: find_query.simps split_list.simps)
qed

lemma find_cookie_unfold:
  "q \<noteq> [] \<Longrightarrow> find_cookie name q =
     (let (k, v) = cookie_pair (fst (cut_at CHR '';'' q))
      in if k = name then v else case snd (cut_at CHR '';'' q) of None \<Rightarrow> [] | Some r \<Rightarrow> find_cookie name r)"
  by (subst find_cookie.simps)
     (simp add: cookie_pair_def key_value_def TrimAsciiWhitespace_def split: prod.splits option.splits)

lemma find_cookie_map_of:
  "find_cookie name q =
     (case map_of (map cookie_pair (split_list CHR '';'' q)) name of None \<Rightarrow> [] | Some v \<Rightarrow> v)"
proof (induction "length q" arbitrary: q rule: less_induct)
  case less
  show ?case
  proof (cases "q = []")
    case False
    then show ?thesis using less snd_cut_at_shorter [of "CHR '';''" q]
      by (auto simp: find_cookie_unfold split_list_unfold split: prod.splits option.splits)
  qed (simp add: find_cookie.simps split_list.simps)
qed

lemma find_header_find:
  "find_header name hs = map_option snd (find (\<lambda>(n, _). map ToLower n = map ToLower name) hs)"
  by (induction hs) (auto simp: CaseInsensitiveEqual_iff)

section \<open>Properties\<close>

text \<open>
  C39: The lookups that scan a text in place agree with a lookup in the parsed list: a query parameter
  is the first pair of that name in the \<open>&\<close>-separated query, a cookie the first of that name in the
  \<open>;\<close>-separated header with blanks trimmed, a header the first whose name differs in letter case only.
\<close>

theorem request_lookups:
  "FindQueryParam name r = map_of (map key_value (split_list CHR ''&'' (req_query r))) name \<and>
   Cookie name r =
     (case map_of (map cookie_pair (split_list CHR '';'' (GetHeader ''Cookie'' r))) name of None \<Rightarrow> [] | Some v \<Rightarrow> v) \<and>
   GetHeader name r =
     (case find (\<lambda>(n, _). map ToLower n = map ToLower name) (req_headers r) of None \<Rightarrow> [] | Some (_, v) \<Rightarrow> v)"
  by (auto simp: FindQueryParam_def find_query_map_of Cookie_def find_cookie_map_of split_list.simps
      GetHeader_def find_header_find split: option.splits)

end
