(* ===== verification/Media_Hls.thy ===== *)
theory Media_Hls
  imports Http_Request
begin

text \<open>
  \<^verbatim>\<open>src/modules/media/Hls.cpp\<close>: percent encoding, resolving a reference against a base URL, and the
  rewriting of an HLS manifest so that every URI in it goes through the proxy.
\<close>

section \<open>Percent encoding\<close>

fun UrlDecode :: "string \<Rightarrow> string" where
  "UrlDecode [] = []"
| "UrlDecode (ch # rest) =
     (if ch = CHR ''+'' then CHR '' '' # UrlDecode rest
      else case rest of
             a # b # rest' \<Rightarrow>
               (case (if ch = CHR ''%'' then HexValue a else None, HexValue b) of
                  (Some hi, Some lo) \<Rightarrow> char_of (hi * 16 + lo) # UrlDecode rest'
                | _ \<Rightarrow> ch # UrlDecode rest)
           | _ \<Rightarrow> ch # UrlDecode rest)"

definition isalnum :: "char \<Rightarrow> bool" where
  "isalnum c \<longleftrightarrow>
     (let n = of_char c :: nat in 48 \<le> n \<and> n \<le> 57 \<or> 65 \<le> n \<and> n \<le> 90 \<or> 97 \<le> n \<and> n \<le> 122)"

definition kHex :: "nat \<Rightarrow> char" where
  "kHex d = ''0123456789ABCDEF'' ! d"

definition unreserved :: "char \<Rightarrow> bool" where
  "unreserved c \<longleftrightarrow> isalnum c \<or> c \<in> {CHR ''-'', CHR ''_'', CHR ''.'', CHR ''~''}"

definition encode_char :: "char \<Rightarrow> string" where
  "encode_char c =
     (if unreserved c then [c] else [CHR ''%'', kHex (of_char c div 16), kHex (of_char c mod 16)])"

definition UrlEncode :: "string \<Rightarrow> string" where
  "UrlEncode text = concat (map encode_char text)"

section \<open>Resolving references\<close>

definition IsHttpUrl :: "string \<Rightarrow> bool" where
  "IsHttpUrl url \<longleftrightarrow> starts_with url ''http://'' \<or> starts_with url ''https://''"

definition OriginOf :: "string \<Rightarrow> string" where
  "OriginOf url =
     (case find_sub ''://'' url of
        None \<Rightarrow> []
      | Some scheme \<Rightarrow> take (scheme + 3) url @ fst (cut_at CHR ''/'' (drop (scheme + 3) url)))"

definition ShouldProxyManifestUri :: "string \<Rightarrow> bool" where
  "ShouldProxyManifestUri uri \<longleftrightarrow> uri \<noteq> [] \<and> \<not> starts_with uri ''data:''"

text \<open>Up to and without the last \<open>/\<close>, \<open>None\<close> when there is none.\<close>

definition before_last_slash :: "string \<Rightarrow> string option" where
  "before_last_slash s = map_option rev (snd (cut_at CHR ''/'' (rev s)))"

definition ResolveUrl :: "string \<Rightarrow> string \<Rightarrow> string" where
  "ResolveUrl base value =
     (if IsHttpUrl value then value
      else if starts_with value ''//'' then fst (cut_at CHR '':'' base) @ '':'' @ value
      else if starts_with value ''/'' then OriginOf base @ value
      else case before_last_slash base of
             None \<Rightarrow> OriginOf base @ ''/'' @ value
           | Some dir \<Rightarrow>
               if find_sub ''://'' dir = None then OriginOf base @ ''/'' @ value
               else dir @ ''/'' @ value)"

section \<open>Rewriting a manifest\<close>

definition ProxyHlsUrl :: "string \<Rightarrow> string" where
  "ProxyHlsUrl remote_url = ''/proxy/hls?url='' @ UrlEncode remote_url"

definition uri_attr :: string where
  "uri_attr = ''URI='' @ [CHR 0x22]"

text \<open>The loop over the \<open>URI\<close> attributes of a tag; the argument is the text from \<open>pos\<close> on.\<close>

function rewrite_uris :: "string \<Rightarrow> string \<Rightarrow> string" where
  "rewrite_uris base rest =
     (case find_sub uri_attr rest of
        None \<Rightarrow> rest
      | Some k \<Rightarrow>
          (case cut_at CHR 0x22 (drop (k + 5) rest) of
             (_, None) \<Rightarrow> rest
           | (uri, Some after) \<Rightarrow>
               if ShouldProxyManifestUri uri
               then take (k + 5) rest @ ProxyHlsUrl (ResolveUrl base uri) @ rewrite_uris base (CHR 0x22 # after)
               else take (k + 5) rest @ uri @ CHR 0x22 # rewrite_uris base after))"
  by pat_completeness auto
termination
  by (relation "measure (\<lambda>(_, s). length s)") (auto dest!: cut_at_shorter_sym)

declare rewrite_uris.simps [simp del]

definition rewrite_line :: "string \<Rightarrow> string \<Rightarrow> string" where
  "rewrite_line base line0 =
     (let line = (if line0 \<noteq> [] \<and> last line0 = CHR 0x0D then butlast line0 else line0)
      in if line = [] then []
         else if starts_with line ''#'' then rewrite_uris base line
         else ProxyHlsUrl (ResolveUrl base line))"

text \<open>\<open>std::getline\<close> until it fails: a text that ends in a newline has no empty last line.\<close>

definition getlines :: "string \<Rightarrow> string list" where
  "getlines text = split_list CHR 0x0A text"

definition RewriteHlsManifest :: "string \<Rightarrow> string \<Rightarrow> string" where
  "RewriteHlsManifest text base = concat (map (\<lambda>l. rewrite_line base l @ [CHR 0x0A]) (getlines text))"

definition Lower :: "string \<Rightarrow> string" where
  "Lower text = map ToLower text"

definition ContentTypeForUrl :: "string \<Rightarrow> string" where
  "ContentTypeForUrl url =
     (let l = Lower url
      in if ends_with l ''.m3u8'' then ''application/vnd.apple.mpegurl''
         else if ends_with l ''.mpd'' then ''application/dash+xml''
         else if ends_with l ''.ts'' then ''video/mp2t''
         else if ends_with l ''.m4s'' then ''video/iso.segment''
         else if ends_with l ''.mp4'' then ''video/mp4''
         else if ends_with l ''.jpg'' \<or> ends_with l ''.jpeg'' then ''image/jpeg''
         else if ends_with l ''.png'' then ''image/png''
         else if ends_with l ''.webp'' then ''image/webp''
         else if ends_with l ''.gif'' then ''image/gif''
         else ''application/octet-stream'')"

section \<open>Decoding what was encoded\<close>

lemma UrlDecode_PercentDecode: "UrlDecode s = PercentDecode True s"
proof (induction "length s" arbitrary: s rule: less_induct)
  case less
  show ?case
  proof (cases s)
    case (Cons c t)
    have t: "UrlDecode t = PercentDecode True t" using less Cons by simp
    note unf = Cons UrlDecode.simps(2) [of c t] PercentDecode.simps(2) [of True c t] t
    consider "t = []" | a where "t = [a]" | a b v where "t = a # b # v" by (metis list.exhaust)
    then show ?thesis
    proof cases
      case (3 a b v)
      then have "UrlDecode v = PercentDecode True v" using less Cons by simp
      then show ?thesis unfolding unf using 3
        by (simp del: UrlDecode.simps PercentDecode.simps split: option.split)
    qed (unfold unf, simp_all)
  qed simp
qed

lemma hex_digit_cases:
  fixes d :: nat
  assumes "d < 16"
  shows "d = 0 \<or> d = 1 \<or> d = 2 \<or> d = 3 \<or> d = 4 \<or> d = 5 \<or> d = 6 \<or> d = 7 \<or> d = 8 \<or> d = 9 \<or> d = 10 \<or> d = 11 \<or>
    d = 12 \<or> d = 13 \<or> d = 14 \<or> d = 15"
  using assms by presburger

lemma HexValue_kHex: "d < 16 \<Longrightarrow> HexValue (kHex d) = Some d"
  by (drule hex_digit_cases) (elim disjE; simp add: HexValue_def kHex_def Let_def nth_Cons_numeral)

lemma unreserved_not_special: "unreserved c \<Longrightarrow> c \<noteq> CHR ''%'' \<and> c \<noteq> CHR ''+'' \<and> c \<noteq> CHR 0x22 \<and> c \<noteq> CHR 0x0A \<and> c \<noteq> CHR ''&''"
  by (auto simp: unreserved_def isalnum_def Let_def)

lemma kHex_unreserved: "d < 16 \<Longrightarrow> unreserved (kHex d)"
  by (drule hex_digit_cases) (elim disjE; simp add: unreserved_def isalnum_def kHex_def Let_def nth_Cons_numeral)

lemma char_nibbles: "of_char c div 16 < (16 :: nat)" "of_char c mod 16 < (16 :: nat)"
proof -
  have "(of_char c :: nat) < 16 * 16" using nat_of_char_less_256 [of c] by simp
  then show "of_char c div 16 < (16 :: nat)" by (rule less_mult_imp_div_less)
qed simp

lemma encode_char_set: "x \<in> set (encode_char c) \<Longrightarrow> unreserved x \<or> x = CHR ''%''"
  by (auto simp: encode_char_def kHex_unreserved char_nibbles split: if_splits)

lemma UrlEncode_set: "x \<in> set (UrlEncode s) \<Longrightarrow> unreserved x \<or> x = CHR ''%''"
  by (auto simp: UrlEncode_def dest: encode_char_set)

lemma PercentDecode_plain:
  "c \<noteq> CHR ''%'' \<Longrightarrow> c \<noteq> CHR ''+'' \<Longrightarrow> PercentDecode b (c # s) = c # PercentDecode b s"
  unfolding PercentDecode.simps(2) [of b c s] by (simp del: PercentDecode.simps split: list.split)

lemma PercentDecode_hex:
  assumes "x < 16" "y < 16"
  shows "PercentDecode b (CHR ''%'' # kHex x # kHex y # s) = char_of (x * 16 + y) # PercentDecode b s"
  unfolding PercentDecode.simps(2) [of b "CHR ''%''" "kHex x # kHex y # s"]
  using assms by (simp add: HexValue_kHex del: PercentDecode.simps)

lemma PercentDecode_encoded: "PercentDecode b (encode_char c @ s) = c # PercentDecode b s"
proof (cases "unreserved c")
  case True
  then show ?thesis using unreserved_not_special [OF True] by (simp add: encode_char_def PercentDecode_plain del: PercentDecode.simps)
next
  case False
  have "of_char c div 16 * 16 + of_char c mod 16 = (of_char c :: nat)" by simp
  then show ?thesis using False 
    by (simp add: encode_char_def PercentDecode_hex char_nibbles del: PercentDecode.simps)
qed

lemma PercentDecode_UrlEncode: "PercentDecode b (UrlEncode s) = s"
  by (induction s) (simp_all add: UrlEncode_def PercentDecode_encoded)

lemma UrlEncode_inj: "UrlEncode s = UrlEncode t \<longleftrightarrow> s = t"
  by (metis PercentDecode_UrlEncode)

lemma UrlEncode_notin:
  "CHR ''&'' \<notin> set (UrlEncode s)" "CHR ''='' \<notin> set (UrlEncode s)" "CHR 0x22 \<notin> set (UrlEncode s)" "CHR 0x0A \<notin> set (UrlEncode s)"
proof -
  have "\<not> unreserved (CHR ''='')" by (simp add: unreserved_def isalnum_def)
  then show "CHR ''&'' \<notin> set (UrlEncode s)" "CHR ''='' \<notin> set (UrlEncode s)" "CHR 0x22 \<notin> set (UrlEncode s)" "CHR 0x0A \<notin> set (UrlEncode s)"
    using UrlEncode_set unreserved_not_special by fastforce+
qed

text \<open>The query string of a list of pairs.\<close>

definition query_pair :: "string \<times> string \<Rightarrow> string" where
  "query_pair kv = UrlEncode (fst kv) @ CHR ''='' # UrlEncode (snd kv)"

fun query_of :: "(string \<times> string) list \<Rightarrow> string" where
  "query_of [] = []"
| "query_of [kv] = query_pair kv"
| "query_of (kv # kvs) = query_pair kv @ CHR ''&'' # query_of kvs"

lemma query_pair_facts:
  "CHR ''&'' \<notin> set (query_pair kv)" "key_value (query_pair kv) = (UrlEncode (fst kv), UrlEncode (snd kv))" "query_pair kv \<noteq> []"
  by (simp_all add: query_pair_def key_value_def UrlEncode_notin)

lemma split_query: "split_list CHR ''&'' (query_of kvs) = map query_pair kvs"
  by (induction kvs rule: query_of.induct)
     (simp_all add: split_list.simps [of _ "[]"] split_list_unfold query_pair_facts)

lemma map_of_query:
  "map_of (map key_value (map query_pair kvs)) (UrlEncode k) = map_option UrlEncode (map_of kvs k)"
  by (induction kvs) (auto simp: query_pair_facts UrlEncode_inj)

section \<open>Manifests\<close>

function uris :: "string \<Rightarrow> string list" where
  "uris rest =
     (case find_sub uri_attr rest of
        None \<Rightarrow> []
      | Some k \<Rightarrow>
          (case cut_at CHR 0x22 (drop (k + 5) rest) of
             (_, None) \<Rightarrow> []
           | (uri, Some after) \<Rightarrow> uri # uris after))"
  by pat_completeness auto
termination
  by (relation "measure length") (auto dest!: cut_at_shorter_sym)

declare uris.simps [simp del]

lemma find_sub_skip: "c \<noteq> CHR ''U'' \<Longrightarrow> find_sub uri_attr (c # s) = map_option Suc (find_sub uri_attr s)"
  by (simp add: uri_attr_def starts_with_def)

lemma rewrite_skip: "c \<noteq> CHR ''U'' \<Longrightarrow> rewrite_uris base (c # s) = c # rewrite_uris base s"
proof (cases "find_sub uri_attr s")
  case (Some k)
  assume "c \<noteq> CHR ''U''"
  then have f: "find_sub uri_attr (c # s) = Some (Suc k)" using Some by (simp del: find_sub.simps add: find_sub_skip)
  have d: "drop (Suc k + 5) (c # s) = drop (k + 5) s" "take (Suc k + 5) (c # s) = c # take (k + 5) s"
    by (simp_all only: add_Suc take_Suc_Cons drop_Suc_Cons)
  show ?thesis
    unfolding rewrite_uris.simps [of base "c # s"] rewrite_uris.simps [of base s] f Some option.case d
    by (simp split: option.split prod.split)
qed (simp add: rewrite_uris.simps [of base "c # s"] rewrite_uris.simps [of base s] find_sub_skip del: find_sub.simps)

definition proxied_uri :: "string \<Rightarrow> string \<Rightarrow> string" where
  "proxied_uri base uri = (if ShouldProxyManifestUri uri then ProxyHlsUrl (ResolveUrl base uri) else uri)"

lemma rewrite_uris_unfold:
  "rewrite_uris base rest =
     (case find_sub uri_attr rest of
        None \<Rightarrow> rest
      | Some k \<Rightarrow>
          (case cut_at CHR 0x22 (drop (k + 5) rest) of
             (_, None) \<Rightarrow> rest
           | (uri, Some after) \<Rightarrow> take (k + 5) rest @ proxied_uri base uri @ CHR 0x22 # rewrite_uris base after))"
  by (subst rewrite_uris.simps) (simp add: proxied_uri_def rewrite_skip split: option.split prod.split)

lemma proxied_uri_no_quote:
  "c \<in> {CHR 0x22, CHR 0x0A} \<Longrightarrow> c \<notin> set uri \<Longrightarrow> c \<notin> set (proxied_uri base uri)"
  by (auto simp: proxied_uri_def ProxyHlsUrl_def UrlEncode_notin)

lemma uris_rewrite: "uris (rewrite_uris base rest) = map (proxied_uri base) (uris rest)"
proof (induction "length rest" arbitrary: rest rule: less_induct)
  case less
  show ?case
  proof (cases "find_sub uri_attr rest")
    case None
    then show ?thesis by (simp add: rewrite_uris_unfold uris.simps)
  next
    case (Some k)
    obtain uri more_text where c: "cut_at CHR 0x22 (drop (k + 5) rest) = (uri, more_text)" by fastforce
    show ?thesis
    proof (cases more_text)
      case None
      then show ?thesis using Some c by (simp add: rewrite_uris_unfold [of base rest] uris.simps)
    next
      case (Some after)
      note k = \<open>find_sub uri_attr rest = Some k\<close>
      have l5: "length uri_attr = 5" "uri_attr \<noteq> []" by (simp_all add: uri_attr_def)
      let ?out = "take (k + 5) rest @ proxied_uri base uri @ CHR 0x22 # rewrite_uris base after"
      have out: "rewrite_uris base rest = ?out" using k c Some by (simp add: rewrite_uris_unfold [of base rest])
      have "k + 5 \<le> length rest" using find_sub_Some [OF k] l5 by simp
      then have d: "drop (k + 5) ?out = proxied_uri base uri @ CHR 0x22 # rewrite_uris base after" by simp
      have q: "CHR 0x22 \<notin> set uri" using c Some cut_at_Some by blast
      have f: "find_sub uri_attr ?out = Some k" using find_sub_prefix [OF k l5(2)] l5(1) by simp
      have "length after < length rest" using cut_at_shorter [of "CHR 0x22" "drop (k + 5) rest" uri after] c Some by simp
      then have "uris (rewrite_uris base after) = map (proxied_uri base) (uris after)" using less by simp
      moreover have "uris ?out = proxied_uri base uri # uris (rewrite_uris base after)"
        unfolding uris.simps [of ?out] f option.case d using proxied_uri_no_quote [OF _ q] by simp
      moreover have "uris rest = uri # uris after" using k c Some by (simp add: uris.simps [of rest])
      ultimately show ?thesis using out by simp
    qed
  qed
qed

lemma set_rewrite_uris: "CHR 0x0A \<notin> set rest \<Longrightarrow> CHR 0x0A \<notin> set (rewrite_uris base rest)"
proof (induction "length rest" arbitrary: rest rule: less_induct)
  case less
  show ?case
  proof (cases "find_sub uri_attr rest")
    case (Some k)
    obtain uri more_text where c: "cut_at CHR 0x22 (drop (k + 5) rest) = (uri, more_text)" by fastforce
    show ?thesis
    proof (cases more_text)
      case None
      then show ?thesis using Some c less.prems by (simp add: rewrite_uris_unfold [of base rest])
    next
      case (Some after)
      have d: "drop (k + 5) rest = uri @ CHR 0x22 # after" using c Some by (simp add: cut_at_Some)
      then have n: "CHR 0x0A \<notin> set uri" "CHR 0x0A \<notin> set after" using less.prems
        by (metis Un_iff in_set_dropD list.set_intros(2) set_append)+
      have "length after < length rest" using d by (metis Suc_le_eq le_add2 le_trans length_Cons length_append length_drop diff_le_self)
      then have "CHR 0x0A \<notin> set (rewrite_uris base after)" using less.hyps n(2) by blast
      moreover have "CHR 0x0A \<notin> set (take (k + 5) rest)" using less.prems in_set_takeD by metis
      ultimately show ?thesis
        using \<open>find_sub uri_attr rest = Some k\<close> c Some proxied_uri_no_quote [OF _ n(1)]
        by (simp add: rewrite_uris_unfold [of base rest])
    qed
  qed (use less.prems in \<open>simp add: rewrite_uris_unfold [of base rest]\<close>)
qed

lemma rewrite_line_no_newline:
  assumes "CHR 0x0A \<notin> set l"
  shows "CHR 0x0A \<notin> set (rewrite_line base l)"
proof -
  have "CHR 0x0A \<notin> set (butlast l)" using assms in_set_butlastD by metis
  then show ?thesis using assms
    by (simp add: rewrite_line_def Let_def set_rewrite_uris ProxyHlsUrl_def UrlEncode_notin)
qed

lemma getlines_no_newline: "l \<in> set (getlines src) \<Longrightarrow> CHR 0x0A \<notin> set l"
  unfolding getlines_def
proof (induction "length src" arbitrary: src rule: less_induct)
  case less
  show ?case
  proof (cases "src = []")
    case True
    then show ?thesis using less.prems by (simp add: split_list.simps)
  next
    case False
    have "CHR 0x0A \<notin> set (fst (cut_at CHR 0x0A src))" by (auto simp: cut_at_def dest: set_takeWhileD)
    then show ?thesis using less False snd_cut_at_shorter [of "CHR 0x0A" src]
      by (cases "snd (cut_at CHR 0x0A src)") (auto simp: split_list_unfold)
  qed
qed

lemma getlines_concat:
  "(\<And>l. l \<in> set ls \<Longrightarrow> CHR 0x0A \<notin> set l) \<Longrightarrow> getlines (concat (map (\<lambda>l. l @ [CHR 0x0A]) ls)) = ls"
  by (induction ls) (simp_all add: getlines_def split_list.simps [of _ "[]"] split_list_unfold)

section \<open>Properties\<close>

text \<open>
  Encoding is undone by decoding, with either decoder of the code base: the media module's
  \<open>UrlDecode\<close>, which is the web module's \<open>PercentDecode\<close> with plus signs read as spaces, and
  \<open>PercentDecode\<close> in both its modes.
\<close>

theorem url_codec:
  "UrlDecode (UrlEncode s) = s \<and> PercentDecode mode (UrlEncode s) = s \<and> UrlDecode t = PercentDecode True t"
  by (simp add: UrlDecode_PercentDecode PercentDecode_UrlEncode)

text \<open>
  A query string written from a list of pairs with \<open>UrlEncode\<close> is read back by
  \<open>QueryParamDecoded\<close>: asking for an encoded name gives the value of the first pair of that name.
\<close>

theorem query_roundtrip:
  "QueryParamDecoded (UrlEncode k) (r\<lparr>req_query := query_of kvs\<rparr>) =
     (case map_of kvs k of None \<Rightarrow> [] | Some v \<Rightarrow> v)"
proof -
  have "FindQueryParam (UrlEncode k) (r\<lparr>req_query := query_of kvs\<rparr>) = map_option UrlEncode (map_of kvs k)"
    using map_of_query [of kvs k] split_query [of kvs]
    by (auto simp: FindQueryParam_def find_query_map_of split_list.simps)
  then show ?thesis by (simp add: QueryParamDecoded_def PercentDecode_UrlEncode split: option.split)
qed

text \<open>
  A rewritten manifest has the lines of the original, each rewritten: a URI line becomes a proxy
  URL from which the resolved URI can be decoded, and in a tag every \<open>URI\<close> attribute that should be
  proxied is replaced by the proxy URL of the resolved URI while the others are kept.
\<close>

theorem manifest_proxied:
  "getlines (RewriteHlsManifest text base) = map (rewrite_line base) (getlines text) \<and>
   uris (rewrite_uris base tag) =
     map (\<lambda>u. if ShouldProxyManifestUri u then ProxyHlsUrl (ResolveUrl base u) else u) (uris tag) \<and>
   UrlDecode (drop 15 (ProxyHlsUrl (ResolveUrl base line))) = ResolveUrl base line"
proof -
  have "getlines (RewriteHlsManifest text base) = map (rewrite_line base) (getlines text)"
    using getlines_concat [of "map (rewrite_line base) (getlines text)"] rewrite_line_no_newline getlines_no_newline
    by (auto simp: RewriteHlsManifest_def comp_def)
  then show ?thesis
    using uris_rewrite [of base tag]
    by (simp add: proxied_uri_def [abs_def] ProxyHlsUrl_def UrlDecode_PercentDecode PercentDecode_UrlEncode)
qed

end
