(* ===== verification/Http_Response.thy ===== *)
theory Http_Response
  imports Http_Request
begin

text \<open>
  \<^verbatim>\<open>include/iouring_runtime/web/HttpStatus.h\<close> and \<^verbatim>\<open>HttpResponse.h\<close> / \<^verbatim>\<open>HttpResponse.cpp\<close>: the
  response object, its serialisation and the choice between one buffer and a streamed body. The
  text of the \<open>Date\<close> header and the outcome of each buffer allocation are parameters. The reference
  at the end is a reader of HTTP/1.1 heads.
\<close>

section \<open>Status codes\<close>

datatype HttpStatus =
    kOk | kCreated | kNoContent | kMovedPermanently | kFound | kNotModified | kBadRequest | kUnauthorized
  | kForbidden | kNotFoundStatus | kMethodNotAllowed | kRequestTimeout | kPayloadTooLarge | kUriTooLong
  | kRequestHeaderFieldsTooLarge | kInternalServerError | kNotImplemented | kBadGateway | kServiceUnavailable

fun status_code :: "HttpStatus \<Rightarrow> nat" where
  "status_code kOk = 200"
| "status_code kCreated = 201"
| "status_code kNoContent = 204"
| "status_code kMovedPermanently = 301"
| "status_code kFound = 302"
| "status_code kNotModified = 304"
| "status_code kBadRequest = 400"
| "status_code kUnauthorized = 401"
| "status_code kForbidden = 403"
| "status_code kNotFoundStatus = 404"
| "status_code kMethodNotAllowed = 405"
| "status_code kRequestTimeout = 408"
| "status_code kPayloadTooLarge = 413"
| "status_code kUriTooLong = 414"
| "status_code kRequestHeaderFieldsTooLarge = 431"
| "status_code kInternalServerError = 500"
| "status_code kNotImplemented = 501"
| "status_code kBadGateway = 502"
| "status_code kServiceUnavailable = 503"

fun HttpStatusToString :: "HttpStatus \<Rightarrow> string" where
  "HttpStatusToString kOk = ''OK''"
| "HttpStatusToString kCreated = ''Created''"
| "HttpStatusToString kNoContent = ''No Content''"
| "HttpStatusToString kMovedPermanently = ''Moved Permanently''"
| "HttpStatusToString kFound = ''Found''"
| "HttpStatusToString kNotModified = ''Not Modified''"
| "HttpStatusToString kBadRequest = ''Bad Request''"
| "HttpStatusToString kUnauthorized = ''Unauthorized''"
| "HttpStatusToString kForbidden = ''Forbidden''"
| "HttpStatusToString kNotFoundStatus = ''Not Found''"
| "HttpStatusToString kMethodNotAllowed = ''Method Not Allowed''"
| "HttpStatusToString kRequestTimeout = ''Request Timeout''"
| "HttpStatusToString kPayloadTooLarge = ''Payload Too Large''"
| "HttpStatusToString kUriTooLong = ''URI Too Long''"
| "HttpStatusToString kRequestHeaderFieldsTooLarge = ''Request Header Fields Too Large''"
| "HttpStatusToString kInternalServerError = ''Internal Server Error''"
| "HttpStatusToString kNotImplemented = ''Not Implemented''"
| "HttpStatusToString kBadGateway = ''Bad Gateway''"
| "HttpStatusToString kServiceUnavailable = ''Service Unavailable''"

section \<open>The response object\<close>

datatype ResponseState = kOpenState | kSentState | kDeferredState

text \<open>\<open>rs_attached\<close>: the pointers to the session and to the pool are set.\<close>

record HttpResponse =
  rs_status :: HttpStatus
  rs_headers :: "(string \<times> string) list"
  rs_content_type :: string
  rs_body :: string
  rs_keep_alive :: bool
  rs_state :: ResponseState
  rs_suppress_body :: bool
  rs_last_built :: nat
  rs_attached :: bool

definition HttpResponse_new :: "bool \<Rightarrow> HttpResponse" where
  "HttpResponse_new attached =
     \<lparr>rs_status = kOk, rs_headers = [], rs_content_type = [], rs_body = [], rs_keep_alive = True,
      rs_state = kOpenState, rs_suppress_body = False, rs_last_built = 0, rs_attached = attached\<rparr>"

definition SetStatus :: "HttpStatus \<Rightarrow> HttpResponse \<Rightarrow> HttpResponse" where
  "SetStatus st r = r\<lparr>rs_status := st\<rparr>"

definition Header :: "string \<Rightarrow> string \<Rightarrow> HttpResponse \<Rightarrow> HttpResponse" where
  "Header name value r = r\<lparr>rs_headers := rs_headers r @ [(name, value)]\<rparr>"

definition SetContentType :: "string \<Rightarrow> HttpResponse \<Rightarrow> HttpResponse" where
  "SetContentType t r = r\<lparr>rs_content_type := t\<rparr>"

definition Body :: "string \<Rightarrow> HttpResponse \<Rightarrow> HttpResponse" where
  "Body b r = r\<lparr>rs_body := b\<rparr>"

definition Text :: "string \<Rightarrow> HttpResponse \<Rightarrow> HttpResponse" where
  "Text t r = r\<lparr>rs_content_type := ''text/plain'', rs_body := t\<rparr>"

definition Json :: "string \<Rightarrow> HttpResponse \<Rightarrow> HttpResponse" where
  "Json b r = r\<lparr>rs_content_type := ''application/json'', rs_body := b\<rparr>"

definition Error_response :: "HttpStatus \<Rightarrow> string \<Rightarrow> HttpResponse \<Rightarrow> HttpResponse" where
  "Error_response st message r = r\<lparr>rs_status := st, rs_content_type := ''text/plain'', rs_body := message\<rparr>"

definition KeepAlive :: "bool \<Rightarrow> HttpResponse \<Rightarrow> HttpResponse" where
  "KeepAlive b r = r\<lparr>rs_keep_alive := b\<rparr>"

definition SuppressBody :: "bool \<Rightarrow> HttpResponse \<Rightarrow> HttpResponse" where
  "SuppressBody b r = r\<lparr>rs_suppress_body := b\<rparr>"

definition MarkDeferred :: "HttpResponse \<Rightarrow> HttpResponse" where
  "MarkDeferred r = (if rs_state r = kOpenState then r\<lparr>rs_state := kDeferredState\<rparr> else r)"

definition IsSent :: "HttpResponse \<Rightarrow> bool" where
  "IsSent r \<longleftrightarrow> rs_state r = kSentState"

definition IsDeferred :: "HttpResponse \<Rightarrow> bool" where
  "IsDeferred r \<longleftrightarrow> rs_state r = kDeferredState"

section \<open>Headers\<close>

definition HeaderNameEquals :: "string \<Rightarrow> string \<Rightarrow> bool" where
  "HeaderNameEquals lhs rhs \<longleftrightarrow>
     length lhs = length rhs \<and> (\<forall>i < length lhs. ToLower (lhs ! i) = ToLower (rhs ! i))"

definition StatusMustNotHaveBody :: "HttpStatus \<Rightarrow> bool" where
  "StatusMustNotHaveBody st \<longleftrightarrow> st = kNoContent \<or> st = kNotModified"

definition caller_has :: "string \<Rightarrow> HttpResponse \<Rightarrow> bool" where
  "caller_has name r \<longleftrightarrow> list_ex (\<lambda>(n, _). HeaderNameEquals n name) (rs_headers r)"

definition ResponseHasHeader :: "string \<Rightarrow> HttpResponse \<Rightarrow> bool" where
  "ResponseHasHeader name r \<longleftrightarrow>
     HeaderNameEquals name ''Content-Type'' \<and> rs_content_type r \<noteq> [] \<or> caller_has name r"

definition RemoveHeader :: "string \<Rightarrow> HttpResponse \<Rightarrow> HttpResponse" where
  "RemoveHeader name r =
     (let r' = (if HeaderNameEquals name ''Content-Type'' then r\<lparr>rs_content_type := []\<rparr> else r)
      in r'\<lparr>rs_headers := filter (\<lambda>(n, _). \<not> HeaderNameEquals n name) (rs_headers r')\<rparr>)"

definition Redirect :: "string \<Rightarrow> HttpStatus \<Rightarrow> HttpResponse \<Rightarrow> HttpResponse" where
  "Redirect url st r =
     Header ''Location'' url (RemoveHeader ''Location'' (r\<lparr>rs_status := st, rs_body := []\<rparr>))"

definition crlf :: string where
  "crlf = [CHR 0x0D, CHR 0x0A]"

definition AppendDateHeader :: "string \<Rightarrow> string \<Rightarrow> string" where
  "AppendDateHeader date out = out @ ''Date: '' @ date @ crlf"

definition SerializeHeaders :: "string \<Rightarrow> nat \<Rightarrow> HttpResponse \<Rightarrow> string" where
  "SerializeHeaders date body_size r =
     (let status_no_body = StatusMustNotHaveBody (rs_status r);
          h0 = ''HTTP/1.1 '' @ to_string_nat (status_code (rs_status r)) @ '' '' @ HttpStatusToString (rs_status r) @ crlf;
          h1 = (if \<not> caller_has ''Server'' r then h0 @ ''Server: iouring_runtime_web'' @ crlf else h0);
          h2 = (if \<not> caller_has ''Date'' r then AppendDateHeader date h1 else h1);
          h3 = (if \<not> caller_has ''Content-Type'' r \<and> rs_content_type r \<noteq> []
                then h2 @ ''Content-Type: '' @ rs_content_type r @ crlf else h2);
          h4 = (if \<not> caller_has ''Content-Length'' r \<and> \<not> status_no_body
                then h3 @ ''Content-Length: '' @ to_string_nat body_size @ crlf else h3);
          h5 = (if \<not> caller_has ''Connection'' r
                then h4 @ ''Connection: '' @ (if rs_keep_alive r then ''keep-alive'' else ''close'') @ crlf else h4);
          h6 = foldl (\<lambda>h (n, v). if status_no_body \<and> HeaderNameEquals n ''Content-Length'' then h
                                  else h @ n @ '': '' @ v @ crlf) h5 (rs_headers r)
      in h6 @ crlf)"

section \<open>Building buffers\<close>

definition no_body :: "HttpResponse \<Rightarrow> bool" where
  "no_body r \<longleftrightarrow> StatusMustNotHaveBody (rs_status r) \<or> rs_suppress_body r"

definition u32_size :: "nat \<Rightarrow> nat" where
  "u32_size n = unat (of_nat n :: u32)"

text \<open>
  A buffer of the pool has the capacity that was asked for, a 32-bit number; copying past it is a
  fault. \<open>ok\<close> is the outcome of the allocation.
\<close>

definition BufferFromBytes :: "bool \<Rightarrow> string \<Rightarrow> fault + string option" where
  "BufferFromBytes ok bytes =
     (if \<not> ok then Inr None
      else case memcpy_into (replicate (u32_size (length bytes)) CHR 0x00) 0 bytes of
             Inl f \<Rightarrow> Inl f
           | Inr buf \<Rightarrow> Inr (Some (take (u32_size (length bytes)) buf)))"

definition Build_response :: "string \<Rightarrow> bool \<Rightarrow> HttpResponse \<Rightarrow> fault + (string option \<times> HttpResponse)" where
  "Build_response date ok r =
     (let headers = SerializeHeaders date (length (rs_body r)) r;
          total_size = length headers + (if no_body r then 0 else length (rs_body r));
          cap = u32_size total_size
      in if \<not> ok then Inr (None, r)
         else case memcpy_into (replicate cap CHR 0x00) 0 headers of
                Inl f \<Rightarrow> Inl f
              | Inr b1 \<Rightarrow>
                  (case (if no_body r then Inr b1 else memcpy_into b1 (length headers) (rs_body r)) of
                     Inl f \<Rightarrow> Inl f
                   | Inr b2 \<Rightarrow> Inr (Some (take cap b2), r\<lparr>rs_last_built := total_size\<rparr>)))"

text \<open>\<open>oks k\<close> is the outcome of the \<open>k\<close>-th allocation; a failed one drops all buffers.\<close>

function body_buffers :: "(nat \<Rightarrow> bool) \<Rightarrow> nat \<Rightarrow> nat \<Rightarrow> string \<Rightarrow> nat \<Rightarrow> fault + string list option" where
  "body_buffers oks chunk_size k body offset =
     (if offset < length body
      then let next_size = min (max chunk_size 1) (length body - offset)
           in case BufferFromBytes (oks k) (subspan offset next_size body) of
                Inl f \<Rightarrow> Inl f
              | Inr None \<Rightarrow> Inr None
              | Inr (Some b) \<Rightarrow>
                  (case body_buffers oks chunk_size (Suc k) body (offset + next_size) of
                     Inl f \<Rightarrow> Inl f
                   | Inr None \<Rightarrow> Inr None
                   | Inr (Some bs) \<Rightarrow> Inr (Some (b # bs)))
      else Inr (Some []))"
  by pat_completeness auto
termination by (relation "measure (\<lambda>(_, _, _, body, offset). length body - offset)") auto

declare body_buffers.simps [simp del]

definition BuildBuffers ::
  "string \<Rightarrow> (nat \<Rightarrow> bool) \<Rightarrow> u32 \<Rightarrow> HttpResponse \<Rightarrow> fault + (string list \<times> HttpResponse)" where
  "BuildBuffers date oks body_chunk_size r =
     (let headers = SerializeHeaders date (length (rs_body r)) r
      in case BufferFromBytes (oks 0) headers of
           Inl f \<Rightarrow> Inl f
         | Inr None \<Rightarrow> Inr ([], r)
         | Inr (Some h) \<Rightarrow>
             (case (if no_body r then Inr (Some []) else body_buffers oks (unat body_chunk_size) 1 (rs_body r) 0) of
                Inl f \<Rightarrow> Inl f
              | Inr None \<Rightarrow> Inr ([], r)
              | Inr (Some bs) \<Rightarrow>
                  Inr (h # bs, r\<lparr>rs_last_built := length headers + (if no_body r then 0 else length (rs_body r))\<rparr>)))"

definition kInlineResponseMaxBytes :: nat where
  "kInlineResponseMaxBytes = 256 * 1024"

text \<open>What \<open>Send\<close> hands to the session: one buffer, or a header and a body to be streamed.\<close>

datatype send_action = SendNothing | SendOne string | SendStreamed string string

definition Send_response ::
  "string \<Rightarrow> (nat \<Rightarrow> bool) \<Rightarrow> HttpResponse \<Rightarrow> fault + (send_action \<times> HttpResponse)" where
  "Send_response date oks r =
     (if rs_state r = kSentState then Inr (SendNothing, r)
      else let r1 = r\<lparr>rs_state := kSentState\<rparr>
           in if \<not> rs_attached r1 then Inr (SendNothing, r1)
              else let headers = SerializeHeaders date (length (rs_body r1)) r1;
                       total_size = length headers + (if no_body r1 then 0 else length (rs_body r1));
                       r2 = r1\<lparr>rs_last_built := total_size\<rparr>;
                       inline = (if total_size \<le> kInlineResponseMaxBytes then Build_response date (oks 0) r2
                                 else Inr (None, r2))
                   in case inline of
                        Inl f \<Rightarrow> Inl f
                      | Inr (Some b, r3) \<Rightarrow> Inr (SendOne b, r3)
                      | Inr (None, r3) \<Rightarrow>
                          (case BufferFromBytes (oks 1) headers of
                             Inl f \<Rightarrow> Inl f
                           | Inr None \<Rightarrow> Inr (SendNothing, r3)
                           | Inr (Some h) \<Rightarrow>
                               if no_body r3 \<or> rs_body r3 = [] then Inr (SendOne h, r3)
                               else Inr (SendStreamed h (rs_body r3), r3\<lparr>rs_body := []\<rparr>)))"

definition NoContent_response :: "string \<Rightarrow> bool \<Rightarrow> bool \<Rightarrow> fault + string option" where
  "NoContent_response date ok keep_alive =
     map_sum id fst (Build_response date ok (KeepAlive keep_alive (SetStatus kNoContent (HttpResponse_new False))))"

section \<open>Sizes and buffers\<close>

lemma HeaderNameEquals_iff: "HeaderNameEquals a b \<longleftrightarrow> CaseInsensitiveEqual a b"
  by (auto simp: HeaderNameEquals_def CaseInsensitiveEqual_iff list_eq_iff_nth_eq)

lemma u32_size_le: "u32_size n \<le> n"
  by (simp add: u32_size_def unat_of_nat take_bit_eq_mod)

lemma u32_size_fits: "n \<le> u32_size n \<longleftrightarrow> n < 2 ^ 32"
  using mod_less_divisor [of "2 ^ 32" n] by (auto simp: u32_size_def unat_of_nat take_bit_eq_mod)

lemma u32_size_eq: "n < 2 ^ 32 \<Longrightarrow> u32_size n = n"
  using u32_size_le u32_size_fits by (metis le_antisym)

lemma BufferFromBytes_eq:
  "BufferFromBytes ok bytes =
     (if \<not> ok then Inr None else if length bytes < 2 ^ 32 then Inr (Some bytes) else Inl OutOfBounds)"
proof (cases "length bytes < 2 ^ 32")
  case True
  then show ?thesis by (simp add: BufferFromBytes_def u32_size_eq memcpy_into_def write_at_def)
next
  case False
  then have "\<not> length bytes \<le> u32_size (length bytes)" using u32_size_fits by blast
  then show ?thesis using False by (simp add: BufferFromBytes_def memcpy_into_def)
qed

definition wire_bytes :: "string \<Rightarrow> HttpResponse \<Rightarrow> string" where
  "wire_bytes date r = SerializeHeaders date (length (rs_body r)) r @ (if no_body r then [] else rs_body r)"

lemma Build_response_eq:
  "Build_response date ok r =
     (if \<not> ok then Inr (None, r)
      else if length (wire_bytes date r) < 2 ^ 32
      then Inr (Some (wire_bytes date r), r\<lparr>rs_last_built := length (wire_bytes date r)\<rparr>)
      else Inl OutOfBounds)"
proof -
  define h where "h = SerializeHeaders date (length (rs_body r)) r"
  define t where "t = length (wire_bytes date r)"
  have t: "t = length h + (if no_body r then 0 else length (rs_body r))" by (simp add: t_def wire_bytes_def h_def)
  show ?thesis
  proof (cases "t < 2 ^ 32")
    case True
    then have c: "u32_size t = t" by (rule u32_size_eq)
    show ?thesis using True c t
      by (auto simp: Build_response_def Let_def memcpy_into_def write_at_def wire_bytes_def t_def [symmetric] h_def [symmetric])
  next
    case False
    then have "\<not> t \<le> u32_size t" using u32_size_fits by blast
    then show ?thesis using False t u32_size_le
      by (auto simp: Build_response_def Let_def memcpy_into_def t_def [symmetric] h_def [symmetric])
  qed
qed

section \<open>Reference: reading a head\<close>

definition read_line :: "string \<Rightarrow> (string \<times> string) option" where
  "read_line s = (case find_sub crlf s of None \<Rightarrow> None | Some k \<Rightarrow> Some (take k s, drop (k + 2) s))"

lemma read_line_shorter: "read_line s = Some (l, rest) \<Longrightarrow> length rest < length s"
  using find_sub_Some [of crlf s] by (fastforce simp: read_line_def crlf_def split: option.splits)

text \<open>The lines up to the empty one, and what follows it.\<close>

function read_head :: "string \<Rightarrow> (string list \<times> string) option" where
  "read_head s =
     (case read_line s of
        None \<Rightarrow> None
      | Some (l, rest) \<Rightarrow>
          if l = [] then Some ([], rest)
          else map_option (\<lambda>(ls, body). (l # ls, body)) (read_head rest))"
  by pat_completeness auto
termination by (relation "measure length") (auto dest: read_line_shorter)

declare read_head.simps [simp del]

definition read_field :: "string \<Rightarrow> string \<times> string" where
  "read_field l = (case cut_at CHR '':'' l of (n, None) \<Rightarrow> (n, []) | (n, Some v) \<Rightarrow> (n, TrimAsciiWhitespace v))"

text \<open>The header fields in the order in which they are written.\<close>

definition head_fields :: "string \<Rightarrow> nat \<Rightarrow> HttpResponse \<Rightarrow> (string \<times> string) list" where
  "head_fields date n r =
     (if caller_has ''Server'' r then [] else [(''Server'', ''iouring_runtime_web'')]) @
     (if caller_has ''Date'' r then [] else [(''Date'', date)]) @
     (if caller_has ''Content-Type'' r \<or> rs_content_type r = [] then [] else [(''Content-Type'', rs_content_type r)]) @
     (if caller_has ''Content-Length'' r \<or> StatusMustNotHaveBody (rs_status r) then []
      else [(''Content-Length'', to_string_nat n)]) @
     (if caller_has ''Connection'' r then []
      else [(''Connection'', if rs_keep_alive r then ''keep-alive'' else ''close'')]) @
     filter (\<lambda>(n, _). \<not> (StatusMustNotHaveBody (rs_status r) \<and> HeaderNameEquals n ''Content-Length'')) (rs_headers r)"

definition status_line :: "HttpResponse \<Rightarrow> string" where
  "status_line r = ''HTTP/1.1 '' @ to_string_nat (status_code (rs_status r)) @ '' '' @ HttpStatusToString (rs_status r)"

definition field_line :: "string \<times> string \<Rightarrow> string" where
  "field_line f = fst f @ '': '' @ snd f"

definition write_lines :: "string list \<Rightarrow> string" where
  "write_lines ls = concat (map (\<lambda>l. l @ crlf) ls)"

lemma write_lines_simps [simp]:
  "write_lines [] = []" "write_lines (l # ls) = l @ crlf @ write_lines ls"
  "write_lines (ls @ ms) = write_lines ls @ write_lines ms"
  by (simp_all add: write_lines_def)

lemma foldl_headers:
  "foldl (\<lambda>h (n, v). if P n then h else h @ n @ '': '' @ v @ crlf) h0 hs =
     h0 @ write_lines (map field_line (filter (\<lambda>(n, _). \<not> P n) hs))"
proof (induction hs arbitrary: h0)
  case (Cons f hs)
  then show ?case by (cases f) (simp add: field_line_def)
qed simp

lemma SerializeHeaders_lines:
  "SerializeHeaders date n r = write_lines (status_line r # map field_line (head_fields date n r)) @ crlf"
  unfolding SerializeHeaders_def Let_def foldl_headers head_fields_def
  by (simp add: status_line_def field_line_def AppendDateHeader_def)

lemma find_crlf: "CHR 0x0D \<notin> set l \<Longrightarrow> find_sub crlf (l @ crlf @ s) = Some (length l)"
proof (induction l)
  case Nil
  then show ?case by (simp add: crlf_def starts_with_def)
next
  case (Cons c l)
  then show ?case by (auto simp: crlf_def starts_with_def)
qed

lemma read_line_written: "CHR 0x0D \<notin> set l \<Longrightarrow> read_line (l @ crlf @ s) = Some (l, s)"
  by (simp add: read_line_def find_crlf) (simp add: crlf_def)

lemma read_head_written:
  "(\<And>l. l \<in> set ls \<Longrightarrow> l \<noteq> [] \<and> CHR 0x0D \<notin> set l) \<Longrightarrow> read_head (write_lines ls @ crlf @ body) = Some (ls, body)"
proof (induction ls)
  case Nil
  then show ?case using read_line_written [of "[]" body] by (simp add: read_head.simps)
next
  case (Cons l ls)
  then have "l \<noteq> []" "CHR 0x0D \<notin> set l" by auto
  then show ?case using Cons read_line_written [of l "write_lines ls @ crlf @ body"]
    by (simp add: read_head.simps [of "l @ crlf @ write_lines ls @ crlf @ body"])
qed

definition clean_field :: "string \<times> string \<Rightarrow> bool" where
  "clean_field f \<longleftrightarrow> fst f \<noteq> [] \<and> CHR '':'' \<notin> set (fst f) \<and> CHR 0x0D \<notin> set (fst f) \<and> CHR 0x0D \<notin> set (snd f)"

text \<open>No carriage return and no colon where the caller could smuggle one in.\<close>

definition clean_response :: "string \<Rightarrow> HttpResponse \<Rightarrow> bool" where
  "clean_response date r \<longleftrightarrow>
     CHR 0x0D \<notin> set date \<and> CHR 0x0D \<notin> set (rs_content_type r) \<and> list_all clean_field (rs_headers r)"

lemma digits_no_special: "c \<in> set (to_string_nat n) \<Longrightarrow> c \<noteq> CHR 0x0D \<and> c \<noteq> CHR '':''"
  using to_string_digits [of n] by (auto simp: is_digit_def)

lemma clean_field_simps:
  "clean_field (''Server'', ''iouring_runtime_web'')" "clean_field (''Date'', v) \<longleftrightarrow> CHR 0x0D \<notin> set v"
  "clean_field (''Content-Type'', v) \<longleftrightarrow> CHR 0x0D \<notin> set v" "clean_field (''Content-Length'', v) \<longleftrightarrow> CHR 0x0D \<notin> set v"
  "clean_field (''Connection'', ''keep-alive'')" "clean_field (''Connection'', ''close'')"
  by (simp_all add: clean_field_def)

lemma head_fields_clean:
  assumes "clean_response date r"
  shows "list_all clean_field (head_fields date n r)"
proof -
  have "CHR 0x0D \<notin> set (to_string_nat n)" using digits_no_special by blast
  moreover have "list_all clean_field (filter P (rs_headers r))" for P
    using assms by (simp add: clean_response_def list_all_iff)
  ultimately show ?thesis using assms by (simp add: head_fields_def clean_response_def clean_field_simps)
qed

lemma status_line_clean: "status_line r \<noteq> [] \<and> CHR 0x0D \<notin> set (status_line r)"
proof -
  have "CHR 0x0D \<notin> set (HttpStatusToString st)" for st by (cases st) simp_all
  moreover have "CHR 0x0D \<notin> set (to_string_nat m)" for m using digits_no_special by blast
  ultimately show ?thesis by (auto simp: status_line_def)
qed

lemma read_field_line: "clean_field f \<Longrightarrow> read_field (field_line f) = (fst f, TrimAsciiWhitespace (snd f))"
  by (auto simp: read_field_def field_line_def clean_field_def TrimAsciiWhitespace_def is_blank_def)

lemma find_header_skip: "\<not> CaseInsensitiveEqual n name \<Longrightarrow> find_header name ((n, v) # hs) = find_header name hs"
  by simp

lemma find_content_length:
  assumes "\<not> caller_has ''Content-Length'' r" "\<not> StatusMustNotHaveBody (rs_status r)"
  shows "find_header ''Content-Length'' (head_fields date n r) = Some (to_string_nat n)"
proof -
  have "\<not> CaseInsensitiveEqual ''Server'' ''Content-Length''" "\<not> CaseInsensitiveEqual ''Date'' ''Content-Length''"
      "\<not> CaseInsensitiveEqual ''Content-Type'' ''Content-Length''" "CaseInsensitiveEqual ''Content-Length'' ''Content-Length''"
    by (simp_all add: CaseInsensitiveEqual_iff ToLower_def)
  then show ?thesis using assms by (simp add: head_fields_def del: CaseInsensitiveEqual.simps)
qed

section \<open>Properties\<close>


definition demo_response :: HttpResponse where
  "demo_response = Header ''X-Id'' ''7'' (Text ''hi'' (HttpResponse_new True))"

lemma demo_head:
  "head_fields ''today'' 2 demo_response =
     [(''Server'', ''iouring_runtime_web''), (''Date'', ''today''), (''Content-Type'', ''text/plain''),
      (''Content-Length'', ''2''), (''Connection'', ''keep-alive''), (''X-Id'', ''7'')]"
  "status_line demo_response = ''HTTP/1.1 200 OK''" "rs_body demo_response = ''hi''" "\<not> no_body demo_response"
  by (simp_all add: head_fields_def caller_has_def HeaderNameEquals_iff CaseInsensitiveEqual_iff ToLower_def status_line_def
      demo_response_def Header_def Text_def HttpResponse_new_def StatusMustNotHaveBody_def no_body_def
      to_string_nat.simps digit_char_def char_of_eq_iff)


text \<open>
  \<open>Build\<close> gives the bytes of the response whenever they fit into 32 bits and a buffer is
  available; a larger response makes it write past the end of the buffer, because the size is cast
  to 32 bits before the allocation.
\<close>

theorem Build_exact:
  "Build_response date ok r =
     (if \<not> ok then Inr (None, r)
      else if length (SerializeHeaders date (length (rs_body r)) r) + (if no_body r then 0 else length (rs_body r)) < 2 ^ 32
      then Inr (Some (wire_bytes date r), r\<lparr>rs_last_built := length (wire_bytes date r)\<rparr>)
      else Inl OutOfBounds)"
  by (simp add: Build_response_eq) (simp add: wire_bytes_def)

lemma Send_response_eq:
  assumes "rs_state r \<noteq> kSentState" "rs_attached r" "oks 0" "oks 1"
    "length (SerializeHeaders date (length (rs_body r)) r) < 2 ^ 32"
  shows "Send_response date oks r =
     (let w = wire_bytes date r; h = SerializeHeaders date (length (rs_body r)) r;
          r' = r\<lparr>rs_state := kSentState, rs_last_built := length w\<rparr>
      in if length w \<le> kInlineResponseMaxBytes then Inr (SendOne w, r')
         else if no_body r \<or> rs_body r = [] then Inr (SendOne h, r')
         else Inr (SendStreamed h (rs_body r), r'\<lparr>rs_body := []\<rparr>))"
proof -
  let ?w = "wire_bytes date r" and ?h = "SerializeHeaders date (length (rs_body r)) r"
  have h: "SerializeHeaders date n (r\<lparr>rs_state := st, rs_last_built := k\<rparr>) = SerializeHeaders date n r"
      "SerializeHeaders date n (r\<lparr>rs_state := st\<rparr>) = SerializeHeaders date n r" for n st k
    by (simp_all add: SerializeHeaders_lines head_fields_def status_line_def caller_has_def)
  have nb: "no_body (r\<lparr>rs_state := st\<rparr>) = no_body r" "no_body (r\<lparr>rs_state := st, rs_last_built := k\<rparr>) = no_body r" for st k
    by (simp_all add: no_body_def)
  have w: "wire_bytes date (r\<lparr>rs_state := st, rs_last_built := k\<rparr>) = ?w" for st k
    by (simp add: wire_bytes_def h nb)
  have t: "no_body r \<Longrightarrow> length ?h = length ?w" "\<not> no_body r \<Longrightarrow> length ?h + length (rs_body r) = length ?w"
    by (simp_all add: wire_bytes_def)
  let ?r = "r\<lparr>rs_state := kSentState, rs_last_built := length ?w\<rparr>"
  show ?thesis
  proof (cases "length ?w \<le> kInlineResponseMaxBytes")
    case True
    then have "length ?w < 2 ^ 32" by (simp add: kInlineResponseMaxBytes_def)
    then have "Build_response date (oks 0) ?r = Inr (Some ?w, ?r)" using assms(3) by (simp add: Build_response_eq w)
    then have "Send_response date oks r = Inr (SendOne ?w, ?r)"
      unfolding Send_response_def Let_def using True assms(1,2) by (cases "no_body r") (simp_all add: h nb t)
    then show ?thesis using True by (simp add: Let_def)
  next
    case False
    then have "Send_response date oks r =
        (if no_body r \<or> rs_body r = [] then Inr (SendOne ?h, ?r) else Inr (SendStreamed ?h (rs_body r), ?r\<lparr>rs_body := []\<rparr>))"
      unfolding Send_response_def Let_def using assms
      by (cases "no_body r") (simp_all add: h nb t BufferFromBytes_eq)
    then show ?thesis using False by (simp add: Let_def)
  qed
qed

fun action_bytes :: "send_action \<Rightarrow> string" where
  "action_bytes SendNothing = []"
| "action_bytes (SendOne b) = b"
| "action_bytes (SendStreamed h b) = h @ b"

text \<open>
  \<open>Send\<close> with buffers available hands the session exactly the bytes of the response, in one
  buffer or as a header and a streamed body, marks the response sent, and a second \<open>Send\<close> does nothing.
\<close>

theorem Send_once:
  assumes "rs_state r \<noteq> kSentState" "rs_attached r" "oks 0" "oks 1"
    "length (SerializeHeaders date (length (rs_body r)) r) < 2 ^ 32"
  shows "\<exists>a r'. Send_response date oks r = Inr (a, r') \<and> action_bytes a = wire_bytes date r \<and> IsSent r' \<and>
     Send_response date oks' r' = Inr (SendNothing, r')"
proof -
  have again: "IsSent r' \<Longrightarrow> Send_response date oks' r' = Inr (SendNothing, r')" for r'
    by (simp add: IsSent_def Send_response_def)
  obtain a r' where e: "Send_response date oks r = Inr (a, r')" "action_bytes a = wire_bytes date r" "IsSent r'"
    using Send_response_eq [OF assms] by (auto simp: Let_def IsSent_def wire_bytes_def split: if_splits)
  with again show ?thesis by blast
qed

theorem Send_once_witness:
  "\<exists>a r'. Send_response ''today'' (\<lambda>_. True) demo_response = Inr (a, r') \<and>
     action_bytes a = wire_bytes ''today'' demo_response \<and> IsSent r'"
proof -
  have "length (SerializeHeaders ''today'' (length (rs_body demo_response)) demo_response) < 2 ^ 32"
  proof -
    have "length (rs_body demo_response) = 2" by (simp add: demo_head(3))
    then show ?thesis by (simp add: SerializeHeaders_lines demo_head(1,2) field_line_def crlf_def)
  qed
  moreover have "rs_state demo_response \<noteq> kSentState" "rs_attached demo_response"
    by (simp_all add: demo_response_def Header_def Text_def HttpResponse_new_def)
  ultimately show ?thesis using Send_once [of demo_response "\<lambda>_. True" "''today''" "\<lambda>_. True"] by blast
qed

end
