(* ===== verification/Radix_Tree.thy ===== *)
theory Radix_Tree
  imports Http_Request
begin

text \<open>
  \<^verbatim>\<open>src/modules/web/RadixTree.cpp\<close>: the routing tree. A handler is an element of the type \<open>'h\<close>; the
  tree stores handlers and never calls them. A \<open>string_view\<close> into the path is its offset and its
  text, or the null view. The reference is a table from patterns to entries and the list of the
  patterns that match a path, best first.
\<close>

section \<open>Entries and nodes\<close>

record 'h HttpStreamHandler =
  on_headers :: "'h option"
  on_body :: "'h option"
  on_complete :: "'h option"
  on_abort :: "'h option"

record 'h RouteEntry =
  re_handler :: "'h option"
  re_stream :: "'h HttpStreamHandler"

definition empty_entry :: "'h RouteEntry" where
  "empty_entry = \<lparr>re_handler = None,
     re_stream = \<lparr>on_headers = None, on_body = None, on_complete = None, on_abort = None\<rparr>\<rparr>"

definition HasHandler :: "'h RouteEntry \<Rightarrow> bool" where
  "HasHandler e \<longleftrightarrow> re_handler e \<noteq> None"

definition HasStreamHandler :: "'h RouteEntry \<Rightarrow> bool" where
  "HasStreamHandler e \<longleftrightarrow>
     on_headers (re_stream e) \<noteq> None \<or> on_body (re_stream e) \<noteq> None \<or>
     on_complete (re_stream e) \<noteq> None \<or> on_abort (re_stream e) \<noteq> None"

definition HasAnyHandler :: "'h RouteEntry \<Rightarrow> bool" where
  "HasAnyHandler e \<longleftrightarrow> HasHandler e \<or> HasStreamHandler e"

datatype 'h node =
  Node (nd_prefix: string) (nd_children: "'h node list")
       (nd_param: "'h node option") (nd_param_name: string)
       (nd_wild: "'h node option") (nd_wild_name: string)
       (nd_routes: "HttpMethod \<Rightarrow> 'h RouteEntry")

definition new_node :: "string \<Rightarrow> 'h node" where
  "new_node prefix = Node prefix [] None [] None [] (\<lambda>_. empty_entry)"

fun set_route :: "HttpMethod \<Rightarrow> 'h RouteEntry \<Rightarrow> 'h node \<Rightarrow> 'h node" where
  "set_route m e (Node p cs pc pn wc wn rt) = Node p cs pc pn wc wn (rt(m := e))"

fun set_children :: "'h node list \<Rightarrow> 'h node \<Rightarrow> 'h node" where
  "set_children cs' (Node p cs pc pn wc wn rt) = Node p cs' pc pn wc wn rt"

fun set_param :: "'h node \<Rightarrow> string \<Rightarrow> 'h node \<Rightarrow> 'h node" where
  "set_param c n (Node p cs pc pn wc wn rt) = Node p cs (Some c) n wc wn rt"

fun set_wild :: "'h node \<Rightarrow> string \<Rightarrow> 'h node \<Rightarrow> 'h node" where
  "set_wild c n (Node p cs pc pn wc wn rt) = Node p cs pc pn (Some c) n rt"

definition NodeHasAnyHandler :: "'h node \<Rightarrow> bool" where
  "NodeHasAnyHandler nd \<longleftrightarrow>
     list_ex (\<lambda>m. HasAnyHandler (nd_routes nd m)) [kGet, kHead, kPost, kPut, kDelete, kOptions, kPatch, kUnknown]"

definition append_method :: "string \<Rightarrow> string \<Rightarrow> string" where
  "append_method allow m = (if allow \<noteq> [] then allow @ '', '' @ m else m)"

definition AllowHeaderValue :: "'h node \<Rightarrow> string" where
  "AllowHeaderValue nd =
     (let has = (\<lambda>m. HasAnyHandler (nd_routes nd m));
          a0 = (if has kGet then append_method [] ''GET'' else []);
          a1 = (if has kHead \<or> has kGet then append_method a0 ''HEAD'' else a0);
          a2 = (if has kPost then append_method a1 ''POST'' else a1);
          a3 = (if has kPut then append_method a2 ''PUT'' else a2);
          a4 = (if has kDelete then append_method a3 ''DELETE'' else a3);
          a5 = (if has kOptions then append_method a4 ''OPTIONS'' else a4)
      in if has kPatch then append_method a5 ''PATCH'' else a5)"

section \<open>Splitting paths\<close>

datatype sview = NullView | View nat string

fun view_str :: "sview \<Rightarrow> string" where
  "view_str NullView = []"
| "view_str (View _ s) = s"

text \<open>The segments of the text from \<open>start\<close> on, with their offsets; empty ones are skipped.\<close>

function segments_from :: "nat \<Rightarrow> string \<Rightarrow> (nat \<times> string) list" where
  "segments_from start rest =
     (if rest = [] then []
      else case cut_at CHR ''/'' rest of
             (seg, None) \<Rightarrow> [(start, seg)]
           | (seg, Some rest') \<Rightarrow>
               (if seg = [] then [] else [(start, seg)]) @ segments_from (start + length seg + 1) rest')"
  by pat_completeness auto
termination by (relation "measure (\<lambda>(_, s). length s)") (auto dest: cut_at_shorter_sym)

declare segments_from.simps [simp del]

definition path_segments :: "string \<Rightarrow> (nat \<times> string) list" where
  "path_segments path =
     (if path \<noteq> [] \<and> hd path = CHR ''/'' then segments_from 1 (tl path) else segments_from 0 path)"

definition SplitPath :: "string \<Rightarrow> string list" where
  "SplitPath path = map snd (path_segments path)"

definition SplitPathView :: "string \<Rightarrow> sview list" where
  "SplitPathView path =
     map (\<lambda>(off, s). View off s) (path_segments path) @
     (if length path > 1 \<and> last path = CHR ''/'' then [NullView] else [])"

section \<open>Insert\<close>

fun insert_child :: "string \<Rightarrow> ('h node \<Rightarrow> 'h node) \<Rightarrow> 'h node list \<Rightarrow> 'h node list" where
  "insert_child seg f [] = [f (new_node seg)]"
| "insert_child seg f (c # cs) = (if nd_prefix c = seg then f c # cs else c # insert_child seg f cs)"

definition is_wild :: "string \<Rightarrow> bool" where
  "is_wild seg \<longleftrightarrow> length seg > 1 \<and> hd seg = CHR ''*''"

definition is_param :: "string \<Rightarrow> bool" where
  "is_param seg \<longleftrightarrow> length seg > 1 \<and> hd seg = CHR '':''"

fun InsertSegments :: "string list \<Rightarrow> HttpMethod \<Rightarrow> 'h RouteEntry \<Rightarrow> 'h node \<Rightarrow> 'h node" where
  "InsertSegments [] m e nd = set_route m e nd"
| "InsertSegments (seg # segs) m e nd =
     (if is_wild seg
      then case nd_wild nd of
             None \<Rightarrow> set_wild (set_route m e (new_node [])) (tl seg) nd
           | Some w \<Rightarrow> set_wild (set_route m e w) (nd_wild_name nd) nd
      else if is_param seg
      then case nd_param nd of
             None \<Rightarrow> set_param (InsertSegments segs m e (new_node [])) (tl seg) nd
           | Some p \<Rightarrow> set_param (InsertSegments segs m e p) (nd_param_name nd) nd
      else set_children (insert_child seg (InsertSegments segs m e) (nd_children nd)) nd)"

definition Insert :: "HttpMethod \<Rightarrow> string \<Rightarrow> 'h RouteEntry \<Rightarrow> 'h node \<Rightarrow> 'h node" where
  "Insert m path e root =
     (if path = ''/'' then set_route m e root else InsertSegments (SplitPath path) m e root)"

section \<open>Match\<close>

record 'h MatchResult =
  mr_entry :: "'h RouteEntry option"
  mr_params :: "(string \<times> string) list"
  mr_path_exists :: bool
  mr_allow :: string

definition no_match :: "'h MatchResult" where
  "no_match = \<lparr>mr_entry = None, mr_params = [], mr_path_exists = False, mr_allow = []\<rparr>"

text \<open>
  The view from the start of the first segment to the end of the last: pointers into the same path,
  or both null. Subtracting a pointer into the path from the null pointer is not defined.
\<close>

fun wildcard_value :: "string \<Rightarrow> sview \<Rightarrow> sview \<Rightarrow> fault + string" where
  "wildcard_value path (View a s) (View b t) = Inr (subspan a (b + length t - a) path)"
| "wildcard_value path NullView NullView = Inr []"
| "wildcard_value path _ _ = Inl OutOfBounds"

text \<open>A node at which the segments end, with the parameters collected on the way.\<close>

definition match_here ::
  "HttpMethod \<Rightarrow> (string \<times> string) list \<Rightarrow> 'h node \<Rightarrow> 'h MatchResult \<Rightarrow> 'h MatchResult" where
  "match_here m params nd res =
     (if HasAnyHandler (nd_routes nd m)
      then res\<lparr>mr_entry := Some (nd_routes nd m), mr_params := params, mr_path_exists := True,
               mr_allow := AllowHeaderValue nd\<rparr>
      else if NodeHasAnyHandler nd then res\<lparr>mr_path_exists := True, mr_allow := AllowHeaderValue nd\<rparr>
      else res)"

definition match_wild ::
  "string \<Rightarrow> sview list \<Rightarrow> HttpMethod \<Rightarrow> (string \<times> string) list \<Rightarrow> 'h node \<Rightarrow> 'h MatchResult \<Rightarrow> fault + 'h MatchResult" where
  "match_wild path segs m params nd res =
     (case nd_wild nd of
        None \<Rightarrow> Inr res
      | Some w \<Rightarrow>
          (case wildcard_value path (hd segs) (last segs) of
             Inl f \<Rightarrow> Inl f
           | Inr v \<Rightarrow> Inr (match_here m (params @ [(nd_wild_name nd, v)]) w res)))"

fun MatchNode ::
  "string \<Rightarrow> sview list \<Rightarrow> HttpMethod \<Rightarrow> (string \<times> string) list \<Rightarrow> 'h node \<Rightarrow> 'h MatchResult \<Rightarrow> fault + 'h MatchResult" where
  "MatchNode path [] m params nd res = Inr (match_here m params nd res)"
| "MatchNode path (seg # segs) m params nd res =
     (if mr_entry res \<noteq> None then Inr res
      else case (case find (\<lambda>c. nd_prefix c = view_str seg) (nd_children nd) of
                   None \<Rightarrow> Inr res
                 | Some c \<Rightarrow> MatchNode path segs m params c res) of
             Inl f \<Rightarrow> Inl f
           | Inr res1 \<Rightarrow>
               if mr_entry res1 \<noteq> None then Inr res1
               else case (case nd_param nd of
                            None \<Rightarrow> Inr res1
                          | Some c \<Rightarrow> MatchNode path segs m (params @ [(nd_param_name nd, view_str seg)]) c res1) of
                      Inl f \<Rightarrow> Inl f
                    | Inr res2 \<Rightarrow>
                        if mr_entry res2 \<noteq> None then Inr res2
                        else match_wild path (seg # segs) m params nd res2)"

definition Match :: "HttpMethod \<Rightarrow> string \<Rightarrow> 'h node \<Rightarrow> fault + 'h MatchResult" where
  "Match m path root =
     (if path = ''/''
      then let route = nd_routes root m
           in if HasAnyHandler route then Inr (no_match\<lparr>mr_entry := Some route, mr_path_exists := True\<rparr>)
              else if NodeHasAnyHandler root
              then Inr (no_match\<lparr>mr_path_exists := True, mr_allow := AllowHeaderValue root\<rparr>)
              else Inr no_match
      else MatchNode path (SplitPathView path) m [] root no_match)"

section \<open>Reference: a table of patterns\<close>

datatype pseg = Lit string | Par | Wild

fun pattern :: "string list \<Rightarrow> pseg list" where
  "pattern [] = []"
| "pattern (seg # segs) =
     (if is_wild seg then [Wild] else if is_param seg then Par # pattern segs else Lit seg # pattern segs)"

text \<open>The patterns a path matches, the literal segment before the parameter before the wildcard.\<close>

fun candidates :: "string list \<Rightarrow> pseg list list" where
  "candidates [] = [[]]"
| "candidates (s # ss) = map (Cons (Lit s)) (candidates ss) @ map (Cons Par) (candidates ss) @ [[Wild]]"

fun node_at :: "pseg list \<Rightarrow> 'h node \<Rightarrow> 'h node option" where
  "node_at [] nd = Some nd"
| "node_at (Lit s # ps) nd = Option.bind (find (\<lambda>c. nd_prefix c = s) (nd_children nd)) (node_at ps)"
| "node_at (Par # ps) nd = Option.bind (nd_param nd) (node_at ps)"
| "node_at (Wild # ps) nd = (if ps = [] then nd_wild nd else None)"

definition route_of :: "pseg list \<Rightarrow> 'h node \<Rightarrow> HttpMethod \<Rightarrow> 'h RouteEntry" where
  "route_of ps nd m = (case node_at ps nd of None \<Rightarrow> empty_entry | Some n \<Rightarrow> nd_routes n m)"

definition build :: "(HttpMethod \<times> string \<times> 'h RouteEntry) list \<Rightarrow> 'h node" where
  "build rs = foldl (\<lambda>t (m, path, e). Insert m path e t) (new_node []) rs"

text \<open>The entry that was registered last for a pattern and a method.\<close>

definition table :: "(HttpMethod \<times> string \<times> 'h RouteEntry) list \<Rightarrow> pseg list \<Rightarrow> HttpMethod \<Rightarrow> 'h RouteEntry" where
  "table rs ps m =
     foldl (\<lambda>e (m', path, e'). if pattern (SplitPath path) = ps \<and> m' = m then e' else e) empty_entry rs"

section \<open>Insert implements the table\<close>

lemma set_simps [simp]:
  "nd_prefix (set_route m e nd) = nd_prefix nd" "nd_children (set_route m e nd) = nd_children nd"
  "nd_param (set_route m e nd) = nd_param nd" "nd_wild (set_route m e nd) = nd_wild nd"
  "nd_routes (set_route m e nd) = (nd_routes nd)(m := e)"
  "nd_prefix (set_children cs nd) = nd_prefix nd" "nd_children (set_children cs nd) = cs"
  "nd_param (set_children cs nd) = nd_param nd" "nd_wild (set_children cs nd) = nd_wild nd"
  "nd_routes (set_children cs nd) = nd_routes nd"
  "nd_prefix (set_param c n nd) = nd_prefix nd" "nd_children (set_param c n nd) = nd_children nd"
  "nd_param (set_param c n nd) = Some c" "nd_wild (set_param c n nd) = nd_wild nd"
  "nd_routes (set_param c n nd) = nd_routes nd"
  "nd_prefix (set_wild c n nd) = nd_prefix nd" "nd_children (set_wild c n nd) = nd_children nd"
  "nd_param (set_wild c n nd) = nd_param nd" "nd_wild (set_wild c n nd) = Some c"
  "nd_routes (set_wild c n nd) = nd_routes nd"
  by (cases nd; simp)+

lemma prefix_InsertSegments [simp]: "nd_prefix (InsertSegments segs m e nd) = nd_prefix nd"
  by (cases segs) (auto split: option.splits)

lemma find_insert_child:
  assumes "\<And>c. nd_prefix (f c) = nd_prefix c"
  shows "find (\<lambda>c. nd_prefix c = s) (insert_child seg f cs) =
     (if s = seg
      then Some (f (case find (\<lambda>c. nd_prefix c = seg) cs of None \<Rightarrow> new_node seg | Some c \<Rightarrow> c))
      else find (\<lambda>c. nd_prefix c = s) cs)"
  by (induction cs) (auto simp: assms new_node_def)

lemma new_node_simps [simp]:
  "nd_prefix (new_node p) = p" "nd_children (new_node p) = []" "nd_param (new_node p) = None"
  "nd_wild (new_node p) = None" "nd_routes (new_node p) = (\<lambda>_. empty_entry)"
  by (simp_all add: new_node_def)

lemma route_of_new [simp]: "route_of ps (new_node p) m = empty_entry"
proof (cases ps)
  case (Cons q qs)
  then show ?thesis by (cases q) (simp_all add: route_of_def)
qed (simp add: route_of_def)

lemma route_of_simps:
  "route_of [] nd m = nd_routes nd m"
  "route_of (Lit s # ps) nd m =
     (case find (\<lambda>c. nd_prefix c = s) (nd_children nd) of None \<Rightarrow> empty_entry | Some c \<Rightarrow> route_of ps c m)"
  "route_of (Par # ps) nd m = (case nd_param nd of None \<Rightarrow> empty_entry | Some c \<Rightarrow> route_of ps c m)"
  "route_of (Wild # ps) nd m =
     (if ps = [] then case nd_wild nd of None \<Rightarrow> empty_entry | Some c \<Rightarrow> nd_routes c m else empty_entry)"
  by (auto simp: route_of_def split: option.splits)

lemma route_of_Insert:
  "route_of ps (InsertSegments segs m e nd) m' =
     (if ps = pattern segs \<and> m' = m then e else route_of ps nd m')"
proof (induction segs arbitrary: ps nd m')
  case Nil
  then show ?case by (cases ps; cases "hd ps") (auto simp: route_of_simps)
next
  case (Cons seg segs)
  note IH = Cons.IH
  have f: "find (\<lambda>c. nd_prefix c = s) (insert_child seg (InsertSegments segs m e) cs) =
     (if s = seg
      then Some (InsertSegments segs m e (case find (\<lambda>c. nd_prefix c = seg) cs of None \<Rightarrow> new_node seg | Some c \<Rightarrow> c))
      else find (\<lambda>c. nd_prefix c = s) cs)" for s cs
    by (rule find_insert_child) simp
  show ?case
  proof (cases ps)
    case Nil
    then show ?thesis by (auto simp: route_of_simps split: option.splits)
  next
    case (Cons p ps')
    then show ?thesis
      by (cases p)
         (auto simp: route_of_simps f IH split: option.splits)
  qed
qed

lemma SplitPath_root: "SplitPath ''/'' = []"
  by (simp add: SplitPath_def path_segments_def segments_from.simps)

lemma route_of_build: "route_of ps (build rs) m = table rs ps m"
proof (induction rs rule: rev_induct)
  case Nil
  then show ?case by (simp add: build_def table_def)
next
  case (snoc r rs)
  obtain m' path e where r: "r = (m', path, e)" by (cases r) auto
  have "Insert m' path e t = InsertSegments (SplitPath path) m' e t" for t
    by (simp add: Insert_def SplitPath_root)
  then show ?case using snoc r by (auto simp: build_def table_def route_of_Insert)
qed

section \<open>Match finds the best pattern\<close>

lemma HasAnyHandler_empty [simp]: "\<not> HasAnyHandler empty_entry"
  by (simp add: HasAnyHandler_def HasHandler_def HasStreamHandler_def empty_entry_def)

lemma NodeHasAnyHandler_iff: "NodeHasAnyHandler nd \<longleftrightarrow> (\<exists>m. HasAnyHandler (nd_routes nd m))"
proof
  assume "\<exists>m. HasAnyHandler (nd_routes nd m)"
  then obtain m where "HasAnyHandler (nd_routes nd m)" by blast
  then show "NodeHasAnyHandler nd" by (cases m) (simp_all add: NodeHasAnyHandler_def)
qed (auto simp: NodeHasAnyHandler_def)

text \<open>The search below \<open>nd\<close> has gone through the patterns \<open>C\<close> in order and turned \<open>res\<close> into \<open>res'\<close>.\<close>

definition explored ::
  "'h node \<Rightarrow> HttpMethod \<Rightarrow> pseg list list \<Rightarrow> 'h MatchResult \<Rightarrow> 'h MatchResult \<Rightarrow> bool" where
  "explored nd m C res res' \<longleftrightarrow>
     mr_entry res' = map_option (\<lambda>ps. route_of ps nd m) (find (\<lambda>ps. HasAnyHandler (route_of ps nd m)) C) \<and>
     (mr_path_exists res' \<longleftrightarrow> mr_path_exists res \<or> (\<exists>ps \<in> set C. \<exists>m'. HasAnyHandler (route_of ps nd m')))"

lemma find_append: "find P (xs @ ys) = (case find P xs of None \<Rightarrow> find P ys | Some x \<Rightarrow> Some x)"
  by (induction xs) auto

lemma find_map: "find P (map f xs) = map_option f (find (\<lambda>x. P (f x)) xs)"
  by (induction xs) auto

lemma find_SomeD: "find P xs = Some x \<Longrightarrow> x \<in> set xs \<and> P x"
  by (induction xs) (auto split: if_splits)

lemma explored_then:
  assumes "explored nd m C1 res res1" "mr_entry res1 = None" "explored nd m C2 res1 res2"
  shows "explored nd m (C1 @ C2) res res2"
  using assms by (auto simp: explored_def find_append)

lemma explored_found:
  assumes "explored nd m C1 res res1" "mr_entry res1 \<noteq> None"
  shows "explored nd m (C1 @ C2) res res1"
proof -
  obtain ps where f: "find (\<lambda>ps. HasAnyHandler (route_of ps nd m)) C1 = Some ps" using assms by (auto simp: explored_def)
  then have "ps \<in> set C1" "HasAnyHandler (route_of ps nd m)" using find_SomeD by fastforce+
  then show ?thesis using assms f by (auto simp: explored_def find_append)
qed

lemma explored_none: "mr_entry res = None \<Longrightarrow> (\<And>ps m. ps \<in> set C \<Longrightarrow> route_of ps nd m = empty_entry) \<Longrightarrow> explored nd m C res res"
  by (induction C) (auto simp: explored_def)

lemma explored_below:
  assumes "explored c m C res res'" "\<And>ps m. route_of (p # ps) nd m = route_of ps c m"
  shows "explored nd m (map (Cons p) C) res res'"
  using assms by (simp add: explored_def find_map option.map_comp comp_def)

lemma explored_here:
  assumes "mr_entry res = None" "\<And>m. route_of ps nd m = nd_routes n m"
  shows "explored nd m [ps] res (match_here m params n res)"
  using assms by (auto simp: explored_def match_here_def NodeHasAnyHandler_iff)

lemma match_wild_explored:
  assumes "mr_entry res = None" "list_all (\<lambda>v. v \<noteq> NullView) segs" "segs \<noteq> []"
  shows "\<exists>res'. match_wild path segs m params nd res = Inr res' \<and> explored nd m [[Wild]] res res'"
proof (cases "nd_wild nd")
  case None
  then show ?thesis using assms(1) by (auto simp: match_wild_def route_of_simps intro!: explored_none)
next
  case (Some w)
  obtain a s where "hd segs = View a s" using assms by (cases "hd segs") (auto simp: list_all_iff)
  moreover obtain b t where "last segs = View b t" using assms by (cases "last segs") (auto simp: list_all_iff)
  moreover have "route_of [Wild] nd m = nd_routes w m" for m using Some by (simp add: route_of_simps)
  ultimately show ?thesis using Some assms(1) by (auto simp: match_wild_def intro!: explored_here)
qed

lemma MatchNode_explored:
  "mr_entry res = None \<Longrightarrow> list_all (\<lambda>v. v \<noteq> NullView) segs \<Longrightarrow>
     \<exists>res'. MatchNode path segs m params nd res = Inr res' \<and> explored nd m (candidates (map view_str segs)) res res'"
proof (induction segs arbitrary: params nd res)
  case Nil
  then show ?case by (auto simp: route_of_simps intro!: explored_here)
next
  case (Cons seg segs)
  let ?C = "candidates (map view_str segs)" and ?s = "view_str seg"
  have nn: "list_all (\<lambda>v. v \<noteq> NullView) segs" using Cons.prems(2) by simp
  let ?R1 = "case find (\<lambda>c. nd_prefix c = ?s) (nd_children nd) of None \<Rightarrow> Inr res | Some c \<Rightarrow> MatchNode path segs m params c res"
  obtain res1 where r1: "?R1 = Inr res1" and e1: "explored nd m (map (Cons (Lit ?s)) ?C) res res1"
  proof (cases "find (\<lambda>c. nd_prefix c = ?s) (nd_children nd)")
    case None
    then have "explored nd m (map (Cons (Lit ?s)) ?C) res res"
      using Cons.prems(1) by (intro explored_none) (auto simp: route_of_simps)
    then show ?thesis using None that by simp
  next
    case (Some c)
    then show ?thesis using Cons.IH [OF Cons.prems(1) nn, of params c] that explored_below [of c m ?C res _ "Lit ?s" nd]
      by (auto simp: route_of_simps)
  qed
  show ?case
  proof (cases "mr_entry res1 = None")
    case False
    then show ?thesis using r1 explored_found [OF e1] Cons.prems(1) by auto
  next
    case True
    let ?R2 = "case nd_param nd of None \<Rightarrow> Inr res1 | Some c \<Rightarrow> MatchNode path segs m (params @ [(nd_param_name nd, ?s)]) c res1"
    obtain res2 where r2: "?R2 = Inr res2" and e2: "explored nd m (map (Cons Par) ?C) res1 res2"
    proof (cases "nd_param nd")
      case None
      then have "explored nd m (map (Cons Par) ?C) res1 res1"
        using True by (intro explored_none) (auto simp: route_of_simps)
      then show ?thesis using None that by simp
    next
      case (Some c)
      then show ?thesis using Cons.IH [OF True nn, of "params @ [(nd_param_name nd, ?s)]" c] that
          explored_below [of c m ?C res1 _ Par nd] by (auto simp: route_of_simps)
    qed
    have e12: "explored nd m (map (Cons (Lit ?s)) ?C @ map (Cons Par) ?C) res res2" by (rule explored_then [OF e1 True e2])
    show ?thesis
    proof (cases "mr_entry res2 = None")
      case False
      then show ?thesis using r1 r2 True explored_found [OF e12] Cons.prems(1) by auto
    next
      case entry2: True
      obtain res3 where "match_wild path (seg # segs) m params nd res2 = Inr res3" "explored nd m [[Wild]] res2 res3"
        using match_wild_explored [OF entry2 Cons.prems(2)] by blast
      then show ?thesis using r1 r2 True entry2 Cons.prems(1) explored_then [OF e12 entry2] by auto
    qed
  qed
qed

lemma explored_exact:
  "explored nd m C no_match res' \<Longrightarrow>
     mr_entry res' = map_option (\<lambda>ps. route_of ps nd m) (find (\<lambda>ps. HasAnyHandler (route_of ps nd m)) C) \<and>
     (mr_path_exists res' \<longleftrightarrow> (\<exists>ps \<in> set C. \<exists>m'. HasAnyHandler (route_of ps nd m')))"
  by (simp add: explored_def no_match_def)

lemma Match_explored:
  assumes "length path \<le> 1 \<or> last path \<noteq> CHR ''/''"
  shows "\<exists>res. Match m path nd = Inr res \<and> explored nd m (candidates (SplitPath path)) no_match res"
proof (cases "path = ''/''")
  case True
  then show ?thesis
    by (auto simp: Match_def Let_def SplitPath_root explored_def route_of_simps no_match_def NodeHasAnyHandler_iff)
next
  case False
  have v: "SplitPathView path = map (\<lambda>(off, s). View off s) (path_segments path)" using assms by (auto simp: SplitPathView_def)
  have "map view_str (SplitPathView path) = SplitPath path" unfolding v SplitPath_def by auto
  moreover have "list_all (\<lambda>v. v \<noteq> NullView) (SplitPathView path)" unfolding v by (auto simp: list_all_iff)
  moreover have "mr_entry (no_match :: 'a MatchResult) = None" by (simp add: no_match_def)
  ultimately show ?thesis using False MatchNode_explored [of no_match "SplitPathView path" path m "[]" nd]
    by (simp add: Match_def)
qed

section \<open>Properties\<close>

definition page :: "nat RouteEntry" where
  "page = empty_entry\<lparr>re_handler := Some 1\<rparr>"



text \<open>
  A wildcard route and a path with a trailing slash: the last segment is the null view, and the
  length of the wildcard's value is computed by subtracting a pointer into the path from null.
\<close>

theorem wildcard_trailing_slash:
  "Match kGet ''/files/a/'' (build [(kGet, ''/files/*rest'', page)]) = Inl OutOfBounds"
proof -
  have s: "SplitPath ''/files/*rest'' = [''files'', ''*rest'']"
      "SplitPathView ''/files/a/'' = [View 1 ''files'', View 7 ''a'', NullView]"
    by (simp_all add: SplitPath_def SplitPathView_def path_segments_def segments_from.simps cut_at_def)
  show ?thesis by (simp add: build_def Insert_def s is_wild_def is_param_def Match_def match_wild_def no_match_def)
qed

text \<open>
  Routes that share a parameter position share the name of the one registered first: the value
  of the second route's parameter arrives under the first route's name.
\<close>

theorem param_name_of_first_route:
  "\<exists>res. Match kGet ''/u/7/posts'' (build [(kGet, ''/u/:id'', page), (kGet, ''/u/:name/posts'', page)]) = Inr res \<and>
     mr_entry res = Some page \<and> mr_params res = [(''id'', ''7'')] \<and> map_of (mr_params res) ''name'' = None"
proof -
  have s: "SplitPath ''/u/:id'' = [''u'', '':id'']" "SplitPath ''/u/:name/posts'' = [''u'', '':name'', ''posts'']"
      "SplitPathView ''/u/7/posts'' = [View 1 ''u'', View 3 ''7'', View 5 ''posts'']"
    by (simp_all add: SplitPath_def SplitPathView_def path_segments_def segments_from.simps cut_at_def)
  have "HasAnyHandler page" by (simp add: page_def HasAnyHandler_def HasHandler_def empty_entry_def)
  then show ?thesis
    by (simp add: build_def Insert_def s is_wild_def is_param_def Match_def match_wild_def match_here_def no_match_def new_node_def)
qed

end
