(* ===== verification/Http_Stream.thy ===== *)
theory Http_Stream
  imports Http_Response Radix_Tree Session_Apps
begin

text \<open>
  The part of \<^verbatim>\<open>HttpSession\<close> that puts responses on the connection: \<^verbatim>\<open>HttpSession.cpp\<close>,
  \<^verbatim>\<open>HttpSessionFile.cpp\<close> and \<^verbatim>\<open>HttpResponse::SendFile\<close>. The base class is an interface, a record of its
  operations on a state \<open>'t\<close>; the locale \<open>http_transport\<close> has the laws used of it, and the session
  model is an instance. What the outside answers (pool, clock, file system) is the record \<open>web_env\<close>,
  asked by number.

  Ghost fields: the descriptors closed (\<open>hs_closed\<close>), in order, and whether something undefined has
  happened or an exception has left the session (\<open>hs_faulted\<close>). \<open>hs_request_ids\<close> is the global
  counter of request ids as this session's calls find it.
\<close>

section \<open>Interface: the connection\<close>

record 't transport =
  t_send :: "string \<Rightarrow> 't \<Rightarrow> bool \<times> 't"
  t_disconnect :: "'t \<Rightarrow> 't"
  t_flush :: "bool \<Rightarrow> 't \<Rightarrow> 't"
  t_begin_io :: "'t \<Rightarrow> 't"
  t_end_io :: "bool \<Rightarrow> 't \<Rightarrow> 't"

text \<open>
  A send that is accepted appends its bytes, one that is refused finds or leaves the connection
  closing, and nothing else appends bytes.
\<close>

locale http_transport =
  fixes T :: "'t transport" and sent :: "'t \<Rightarrow> string" and open_conn :: "'t \<Rightarrow> bool"
  assumes send_accepted: "t_send T b t = (True, t') \<Longrightarrow> sent t' = sent t @ b"
    and send_refused: "t_send T b t = (False, t') \<Longrightarrow> sent t' = sent t \<and> \<not> open_conn t'"
    and send_closed: "\<not> open_conn t \<Longrightarrow> t_send T b t = (False, t)"
    and disconnect_sent: "sent (t_disconnect T t) = sent t"
    and disconnect_closes: "\<not> open_conn (t_disconnect T t)"
    and flush_sent: "sent (t_flush T w t) = sent t"
    and begin_sent: "sent (t_begin_io T t) = sent t"
    and end_sent: "sent (t_end_io T w t) = sent t"

section \<open>State\<close>

datatype read_result = ReadBytes string | ReadEintr | ReadError

datatype open_result = OpenFailed bool | OpenedOther int | OpenedFile int nat

text \<open>
  \<open>pool_ok\<close> tells whether an allocation succeeds, \<open>file_reads\<close> the results of successive \<open>read\<close>
  calls for one chunk (the end of the list is the end of the file), \<open>file_open\<close> what \<open>open\<close> and
  \<open>fstat\<close> say of a path: failed, with \<open>ENOENT\<close> or not, not a regular file, or a regular file of a size.
  \<open>log_info\<close> and \<open>log_warn\<close> are the levels the logger lets through.
\<close>

record web_env =
  pool_ok :: "nat \<Rightarrow> bool"
  http_date :: "nat \<Rightarrow> string"
  steady_now :: "nat \<Rightarrow> int"
  file_reads :: "nat \<Rightarrow> read_result list"
  file_open :: "nat \<Rightarrow> string \<Rightarrow> open_result"
  log_info :: bool
  log_warn :: bool
  peer_addr :: string

record FileStreamState =
  fs_fd :: int
  fs_remaining_bytes :: u64
  fs_chunk_size :: u32
  fs_max_chunks :: u32
  fs_active :: bool

record BodyStreamState =
  bs_body :: "string option"
  bs_offset :: nat
  bs_chunk_size :: u32
  bs_max_chunks :: u32
  bs_active :: bool

record 'h StreamingRequestState =
  as_handler :: "'h HttpStreamHandler option"
  as_response :: "HttpResponse option"
  as_rejected :: bool

record DeferredResponse =
  dr_session :: bool
  dr_response :: "HttpResponse option"

record ('t, 'h) HttpSession =
  hs_base :: 't
  hs_file :: FileStreamState
  hs_stream :: BodyStreamState
  hs_request_timeout :: int
  hs_slow_request_threshold :: int
  hs_request_started_at :: int
  hs_active :: "'h StreamingRequestState"
  hs_async_work_count :: u32
  hs_request_in_progress :: bool
  hs_deferred :: "DeferredResponse list"
  hs_asked :: nat
  hs_closed :: "int list"
  hs_faulted :: bool
  hs_request_ids :: u64

definition HttpSession_new :: "int \<Rightarrow> 't \<Rightarrow> ('t, 'h) HttpSession" where
  "HttpSession_new request_timeout t =
     \<lparr>hs_base = t,
      hs_file = \<lparr>fs_fd = -1, fs_remaining_bytes = 0, fs_chunk_size = 256 * 1024, fs_max_chunks = 4, fs_active = False\<rparr>,
      hs_stream = \<lparr>bs_body = None, bs_offset = 0, bs_chunk_size = 256 * 1024, bs_max_chunks = 4, bs_active = False\<rparr>,
      hs_request_timeout = request_timeout, hs_slow_request_threshold = 0, hs_request_started_at = 0,
      hs_active = \<lparr>as_handler = None, as_response = None, as_rejected = False\<rparr>, hs_async_work_count = 0,
      hs_request_in_progress = False, hs_deferred = [], hs_asked = 0, hs_closed = [], hs_faulted = False,
      hs_request_ids = 1\<rparr>"

definition HasPendingAppWork :: "('t, 'h) HttpSession \<Rightarrow> bool" where
  "HasPendingAppWork s \<longleftrightarrow> hs_async_work_count s \<noteq> 0 \<or> fs_active (hs_file s) \<or> bs_active (hs_stream s)"

text \<open>Calls of the base class.\<close>

definition base_Send :: "'t transport \<Rightarrow> string \<Rightarrow> ('t, 'h) HttpSession \<Rightarrow> bool \<times> ('t, 'h) HttpSession" where
  "base_Send T b s = (let (ok, t) = t_send T b (hs_base s) in (ok, s\<lparr>hs_base := t\<rparr>))"

definition base_Disconnect :: "'t transport \<Rightarrow> ('t, 'h) HttpSession \<Rightarrow> ('t, 'h) HttpSession" where
  "base_Disconnect T s = s\<lparr>hs_base := t_disconnect T (hs_base s)\<rparr>"

definition base_DisconnectAfterFlush :: "'t transport \<Rightarrow> ('t, 'h) HttpSession \<Rightarrow> ('t, 'h) HttpSession" where
  "base_DisconnectAfterFlush T s = s\<lparr>hs_base := t_flush T (HasPendingAppWork s) (hs_base s)\<rparr>"

definition pool_Allocate :: "web_env \<Rightarrow> ('t, 'h) HttpSession \<Rightarrow> bool \<times> ('t, 'h) HttpSession" where
  "pool_Allocate e s = (pool_ok e (hs_asked s), s\<lparr>hs_asked := Suc (hs_asked s)\<rparr>)"

section \<open>Streaming a body\<close>

definition ResetBodyStream :: "('t, 'h) HttpSession \<Rightarrow> ('t, 'h) HttpSession" where
  "ResetBodyStream s = s\<lparr>hs_stream := (hs_stream s)\<lparr>bs_body := None, bs_offset := 0, bs_active := False\<rparr>\<rparr>"

text \<open>
  The loop of \<open>PumpBodyStream\<close>, with the number of rounds left. The result is the value returned from
  inside the loop, or none when the loop ends.
\<close>

fun pump_body ::
  "web_env \<Rightarrow> 't transport \<Rightarrow> nat \<Rightarrow> ('t, 'h) HttpSession \<Rightarrow> bool option \<times> ('t, 'h) HttpSession" where
  "pump_body e T 0 s = (None, s)"
| "pump_body e T (Suc i) s =
     (case bs_body (hs_stream s) of
        None \<Rightarrow> (Some False, s\<lparr>hs_faulted := True\<rparr>)
      | Some body \<Rightarrow>
          if bs_offset (hs_stream s) \<ge> length body then (None, s)
          else let remaining = length body - bs_offset (hs_stream s);
                   next_size = min remaining (unat (bs_chunk_size (hs_stream s)));
                   (ok, s1) = pool_Allocate e s
               in if \<not> ok then (Some False, base_Disconnect T (ResetBodyStream s1))
                  else let buffer = subspan (bs_offset (hs_stream s1)) next_size body;
                           s2 = s1\<lparr>hs_stream := (hs_stream s1)\<lparr>bs_offset := bs_offset (hs_stream s1) + next_size\<rparr>\<rparr>;
                           (sent, s3) = base_Send T buffer s2
                       in if \<not> sent then (Some False, ResetBodyStream s3) else pump_body e T i s3)"

definition PumpBodyStream :: "web_env \<Rightarrow> 't transport \<Rightarrow> ('t, 'h) HttpSession \<Rightarrow> bool \<times> ('t, 'h) HttpSession" where
  "PumpBodyStream e T s =
     (if \<not> bs_active (hs_stream s) then (True, s)
      else if (case bs_body (hs_stream s) of None \<Rightarrow> True | Some body \<Rightarrow> bs_offset (hs_stream s) \<ge> length body)
      then (True, ResetBodyStream s)
      else case pump_body e T (unat (bs_max_chunks (hs_stream s))) s of
             (Some r, s1) \<Rightarrow> (r, s1)
           | (None, s1) \<Rightarrow>
               (True, if (case bs_body (hs_stream s1) of None \<Rightarrow> False | Some body \<Rightarrow> bs_offset (hs_stream s1) \<ge> length body)
                      then ResetBodyStream s1 else s1))"

definition StartBodyStream ::
  "web_env \<Rightarrow> 't transport \<Rightarrow> string option \<Rightarrow> string option \<Rightarrow> u32 \<Rightarrow> u32 \<Rightarrow> ('t, 'h) HttpSession \<Rightarrow>
     bool \<times> ('t, 'h) HttpSession" where
  "StartBodyStream e T header body chunk_bytes max_chunks_per_write s =
     (if header = None \<or> body = None \<or> fs_active (hs_file s) \<or> bs_active (hs_stream s) then (False, s)
      else let s1 = s\<lparr>hs_stream := \<lparr>bs_body = body, bs_offset = 0, bs_chunk_size = max chunk_bytes (4 * 1024),
                                   bs_max_chunks = max max_chunks_per_write 1, bs_active = True\<rparr>\<rparr>;
               (sent, s2) = base_Send T (the header) s1
           in if \<not> sent then (False, ResetBodyStream s2) else PumpBodyStream e T s2)"

section \<open>Streaming a file\<close>

definition ResetFileStream :: "('t, 'h) HttpSession \<Rightarrow> ('t, 'h) HttpSession" where
  "ResetFileStream s =
     (let (closed, fd) = SocketHandle_Reset (-1) (fs_fd (hs_file s))
      in s\<lparr>hs_file := (hs_file s)\<lparr>fs_fd := fd, fs_remaining_bytes := 0, fs_active := False\<rparr>,
           hs_closed := hs_closed s @ closed\<rparr>)"

text \<open>The inner loop: reads until the chunk is full, the file ends, or an error other than \<open>EINTR\<close>.\<close>

fun read_chunk :: "nat \<Rightarrow> read_result list \<Rightarrow> string \<Rightarrow> string option" where
  "read_chunk next_size [] acc = Some acc"
| "read_chunk next_size (r # rs) acc =
     (if length acc < next_size
      then case r of
             ReadBytes b \<Rightarrow> if b = [] then Some acc else read_chunk next_size rs (acc @ take (next_size - length acc) b)
           | ReadEintr \<Rightarrow> read_chunk next_size rs acc
           | ReadError \<Rightarrow> None
      else Some acc)"

fun pump_file ::
  "web_env \<Rightarrow> 't transport \<Rightarrow> nat \<Rightarrow> ('t, 'h) HttpSession \<Rightarrow> bool option \<times> ('t, 'h) HttpSession" where
  "pump_file e T 0 s = (None, s)"
| "pump_file e T (Suc i) s =
     (if fs_remaining_bytes (hs_file s) = 0 then (None, s)
      else let next_size = min (unat (fs_remaining_bytes (hs_file s))) (unat (fs_chunk_size (hs_file s)));
               (ok, s1) = pool_Allocate e s
           in if \<not> ok then (Some False, base_Disconnect T (ResetFileStream s1))
              else let reads = file_reads e (hs_asked s1); s2 = s1\<lparr>hs_asked := Suc (hs_asked s1)\<rparr>
                   in case read_chunk next_size reads [] of
                        None \<Rightarrow> (Some False, base_Disconnect T (ResetFileStream s2))
                      | Some bytes \<Rightarrow>
                          if bytes = [] then (Some True, ResetFileStream s2)
                          else let s3 = s2\<lparr>hs_file := (hs_file s2)\<lparr>fs_remaining_bytes :=
                                            fs_remaining_bytes (hs_file s2) - of_nat (length bytes)\<rparr>\<rparr>;
                                   (sent, s4) = base_Send T bytes s3
                               in if \<not> sent then (Some False, ResetFileStream s4)
                                  else if length bytes < next_size then (Some True, ResetFileStream s4)
                                  else pump_file e T i s4)"

definition PumpFileStream :: "web_env \<Rightarrow> 't transport \<Rightarrow> ('t, 'h) HttpSession \<Rightarrow> bool \<times> ('t, 'h) HttpSession" where
  "PumpFileStream e T s =
     (if \<not> fs_active (hs_file s) then (True, s)
      else if fs_remaining_bytes (hs_file s) = 0 then (True, ResetFileStream s)
      else case pump_file e T (unat (fs_max_chunks (hs_file s))) s of
             (Some r, s1) \<Rightarrow> (r, s1)
           | (None, s1) \<Rightarrow> (True, if fs_remaining_bytes (hs_file s1) = 0 then ResetFileStream s1 else s1))"

definition StartFileStream ::
  "web_env \<Rightarrow> 't transport \<Rightarrow> string option \<Rightarrow> int \<Rightarrow> u64 \<Rightarrow> u32 \<Rightarrow> u32 \<Rightarrow> ('t, 'h) HttpSession \<Rightarrow>
     bool \<times> ('t, 'h) HttpSession" where
  "StartFileStream e T header file_fd file_size chunk_bytes max_chunks_per_write s =
     (if header = None \<or> file_fd < 0 \<or> fs_active (hs_file s) \<or> bs_active (hs_stream s) then (False, s)
      else let (closed, fd) = SocketHandle_Reset file_fd (fs_fd (hs_file s));
               s1 = s\<lparr>hs_file := \<lparr>fs_fd = fd, fs_remaining_bytes = file_size, fs_chunk_size = max chunk_bytes (4 * 1024),
                                  fs_max_chunks = max max_chunks_per_write 1, fs_active = True\<rparr>,
                     hs_closed := hs_closed s @ closed\<rparr>;
               (sent, s2) = base_Send T (the header) s1
           in if \<not> sent then (False, ResetFileStream s2) else PumpFileStream e T s2)"

definition OnSocketDrained :: "web_env \<Rightarrow> 't transport \<Rightarrow> ('t, 'h) HttpSession \<Rightarrow> ('t, 'h) HttpSession" where
  "OnSocketDrained e T s =
     (let s1 = (if fs_active (hs_file s) then snd (PumpFileStream e T s) else s)
      in if bs_active (hs_stream s1) then snd (PumpBodyStream e T s1) else s1)"

section \<open>Sending a response\<close>

definition kBodyStreamChunkSize :: u32 where
  "kBodyStreamChunkSize = 256 * 1024"

definition kBodyStreamMaxChunksPerWrite :: u32 where
  "kBodyStreamMaxChunksPerWrite = 4"

definition SendResponse :: "'t transport \<Rightarrow> string \<Rightarrow> ('t, 'h) HttpSession \<Rightarrow> ('t, 'h) HttpSession" where
  "SendResponse T b s = snd (base_Send T b s)"

text \<open>\<open>HttpResponse::Send\<close> and \<open>SendFile\<close> on the response \<open>r\<close> of a session.\<close>

definition session_Send ::
  "web_env \<Rightarrow> 't transport \<Rightarrow> HttpResponse \<Rightarrow> ('t, 'h) HttpSession \<Rightarrow> HttpResponse \<times> ('t, 'h) HttpSession" where
  "session_Send e T r s =
     (let k = hs_asked s; s1 = s\<lparr>hs_asked := k + 2\<rparr>
      in case Send_response (http_date e k) (\<lambda>i. pool_ok e (k + i)) r of
           Inl f \<Rightarrow> (r\<lparr>rs_state := kSentState\<rparr>, s1\<lparr>hs_faulted := True\<rparr>)
         | Inr (SendNothing, r') \<Rightarrow> (r', s1)
         | Inr (SendOne b, r') \<Rightarrow> (r', SendResponse T b s1)
         | Inr (SendStreamed h b, r') \<Rightarrow>
             (r', snd (StartBodyStream e T (Some h) (Some b) kBodyStreamChunkSize kBodyStreamMaxChunksPerWrite s1)))"

definition SendFile ::
  "web_env \<Rightarrow> 't transport \<Rightarrow> string \<Rightarrow> string \<Rightarrow> u32 \<Rightarrow> u32 \<Rightarrow> HttpResponse \<Rightarrow> ('t, 'h) HttpSession \<Rightarrow>
     bool \<times> HttpResponse \<times> ('t, 'h) HttpSession" where
  "SendFile e T path ctype chunk_bytes max_chunks_per_write r s =
     (if rs_state r = kSentState then (False, r, s)
      else if \<not> rs_attached r then (False, r\<lparr>rs_state := kSentState\<rparr>, s)
      else let r1 = r\<lparr>rs_keep_alive := False,
                      rs_content_type := (if rs_content_type r = [] \<and> ctype \<noteq> [] then ctype else rs_content_type r)\<rparr>;
               k = hs_asked s; s1 = s\<lparr>hs_asked := Suc k\<rparr>
           in case file_open e k path of
                OpenFailed enoent \<Rightarrow>
                  (False, session_Send e T
                     (if enoent then Error_response kNotFoundStatus ''Not Found'' r1
                      else Error_response kInternalServerError ''Internal Server Error'' r1) s1)
              | OpenedOther fd \<Rightarrow>
                  (False, session_Send e T (Error_response kInternalServerError ''Internal Server Error'' r1)
                     (s1\<lparr>hs_closed := hs_closed s1 @ [fd]\<rparr>))
              | OpenedFile fd file_size \<Rightarrow>
                  (let headers = SerializeHeaders (http_date e k) file_size r1; (ok, s2) = pool_Allocate e s1
                   in case BufferFromBytes ok headers of
                        Inl f \<Rightarrow> (False, r1, s2\<lparr>hs_faulted := True\<rparr>)
                      | Inr None \<Rightarrow> (False, r1, s2\<lparr>hs_closed := hs_closed s2 @ [fd]\<rparr>)
                      | Inr (Some header) \<Rightarrow>
                          (let r2 = r1\<lparr>rs_last_built := length headers, rs_state := kSentState\<rparr>
                           in if no_body r2
                              then (True, r2, SendResponse T header (s2\<lparr>hs_closed := hs_closed s2 @ [fd]\<rparr>))
                              else case StartFileStream e T (Some header) fd (of_nat file_size)
                                          chunk_bytes max_chunks_per_write s2 of
                                     (True, s3) \<Rightarrow> (True, r2, s3)
                                   | (False, s3) \<Rightarrow> (False, r2, s3\<lparr>hs_closed := hs_closed s3 @ [fd]\<rparr>))))"

section \<open>What a body stream sends\<close>

text \<open>
  A stream of \<open>body\<close> under way: the bytes sent so far, how far it has come, and its sizes. A stream
  that has ended has sent everything unless the connection is closing.
\<close>

definition streaming ::
  "('t \<Rightarrow> string) \<Rightarrow> ('t \<Rightarrow> bool) \<Rightarrow> string \<Rightarrow> string \<Rightarrow> u32 \<Rightarrow> u32 \<Rightarrow> nat \<Rightarrow> ('t, 'h) HttpSession \<Rightarrow> bool" where
  "streaming sent opn before body c m n s \<longleftrightarrow>
     \<not> fs_active (hs_file s) \<and>
     (if bs_active (hs_stream s)
      then hs_stream s = \<lparr>bs_body = Some body, bs_offset = n, bs_chunk_size = c, bs_max_chunks = m, bs_active = True\<rparr> \<and>
           n < length body \<and> sent (hs_base s) = before @ take n body
      else \<exists>k. sent (hs_base s) = before @ take k body \<and> (k = length body \<and> length body \<le> n \<or> \<not> opn (hs_base s)))"

lemma take_subspan: "n \<le> length xs \<Longrightarrow> take n xs @ subspan n k xs = take (n + k) xs"
  by (simp add: subspan_def take_add)

lemma take_min_length: "take (min (length xs) n) xs = take n xs"
  by (simp add: min_def)

context http_transport
begin

lemma base_Send_cases:
  assumes "base_Send T b s = (ok, s')"
  obtains t where "s' = s\<lparr>hs_base := t\<rparr>" "ok \<Longrightarrow> sent t = sent (hs_base s) @ b"
    "\<not> ok \<Longrightarrow> sent t = sent (hs_base s) \<and> \<not> open_conn t"
  using assms send_accepted [of b "hs_base s"] send_refused [of b "hs_base s"]
  by (cases ok) (auto simp: base_Send_def split: prod.splits)

lemma pump_body_streams:
  "pump_body e T i s = (res, s') \<Longrightarrow>
   hs_stream s = \<lparr>bs_body = Some body, bs_offset = n, bs_chunk_size = c, bs_max_chunks = m, bs_active = True\<rparr> \<Longrightarrow>
   n \<le> length body \<Longrightarrow> sent (hs_base s) = before @ take n body \<Longrightarrow> \<not> fs_active (hs_file s) \<Longrightarrow>
     \<not> fs_active (hs_file s') \<and> hs_faulted s' = hs_faulted s \<and>
     (case res of
        None \<Rightarrow> hs_stream s' = \<lparr>bs_body = Some body, bs_offset = min (length body) (n + i * unat c),
                   bs_chunk_size = c, bs_max_chunks = m, bs_active = True\<rparr> \<and>
                sent (hs_base s') = before @ take (n + i * unat c) body
      | Some r \<Rightarrow> \<not> bs_active (hs_stream s') \<and> \<not> open_conn (hs_base s') \<and>
                (\<exists>k. sent (hs_base s') = before @ take k body))"
proof (induction i arbitrary: s n)
  case 0
  then show ?case by simp
next
  case (Suc i)
  note IH = Suc.IH and st = Suc.prems
  show ?case
  proof (cases "length body \<le> n")
    case True
    then show ?thesis using st by (auto simp: add.assoc)
  next
    case False
    let ?k = "min (length body - n) (unat c)"
    let ?s1 = "s\<lparr>hs_asked := Suc (hs_asked s)\<rparr>"
    let ?s2 = "?s1\<lparr>hs_stream := (hs_stream s)\<lparr>bs_offset := n + ?k\<rparr>\<rparr>"
    obtain sn s3 where sd: "base_Send T (subspan n ?k body) ?s2 = (sn, s3)" by (cases "base_Send T (subspan n ?k body) ?s2")
    have eq: "(res, s') =
      (if \<not> pool_ok e (hs_asked s) then (Some False, base_Disconnect T (ResetBodyStream ?s1))
       else if \<not> sn then (Some False, ResetBodyStream s3) else pump_body e T i s3)"
      using st(1,2) False sd by (simp add: pool_Allocate_def Let_def split: if_splits)
    show ?thesis
    proof (cases "pool_ok e (hs_asked s) \<and> sn")
      case True
      from sd obtain t where t: "s3 = ?s2\<lparr>hs_base := t\<rparr>" "sent t = before @ take n body @ subspan n ?k body"
        by (rule base_Send_cases) (use True st(4) in auto)
      have "take n body @ subspan n ?k body = take (n + ?k) body" using False by (simp add: take_subspan)
      then have b: "sent (hs_base s3) = before @ take (n + ?k) body" using t by simp
      have h: "hs_stream s3 = \<lparr>bs_body = Some body, bs_offset = n + ?k, bs_chunk_size = c, bs_max_chunks = m, bs_active = True\<rparr>"
        using t(1) st(2) by simp
      have e: "pump_body e T i s3 = (res, s')" using eq True by simp
      have m1: "min (length body) (n + ?k + i * unat c) = min (length body) (n + Suc i * unat c)"
        using False by (cases "length body - n \<le> unat c") auto
      then have m2: "take (n + ?k + i * unat c) body = take (n + Suc i * unat c) body" by (metis take_min_length)
      note m = m1 m2
      have f: "\<not> fs_active (hs_file s3)" "hs_faulted s3 = hs_faulted s" using t(1) st(5) by simp_all
      have le: "n + ?k \<le> length body" using False by simp
      from IH [OF e h le b f(1)] show ?thesis using f(2) unfolding m by simp
    next
      case bad: False
      show ?thesis
      proof (cases "pool_ok e (hs_asked s)")
        case True
        from sd obtain t where "s3 = ?s2\<lparr>hs_base := t\<rparr>" "sent t = before @ take n body" "\<not> open_conn t"
          by (rule base_Send_cases) (use bad True st(4) in auto)
        then show ?thesis using eq bad True st(5) by (auto simp: ResetBodyStream_def)
      next
        case False
        then show ?thesis using eq st(4,5)
          by (auto simp: ResetBodyStream_def base_Disconnect_def disconnect_sent disconnect_closes)
      qed
    qed
  qed
qed

lemma PumpBodyStream_streams:
  assumes "streaming sent open_conn before body c m n s" "PumpBodyStream e T s = (r, s')"
  shows "streaming sent open_conn before body c m (n + unat m * unat c) s'"
proof (cases "bs_active (hs_stream s)")
  case False
  then have "s' = s" using assms(2) by (simp add: PumpBodyStream_def)
  then show ?thesis using False assms(1) by (auto simp: streaming_def)
next
  case True
  then have st: "hs_stream s = \<lparr>bs_body = Some body, bs_offset = n, bs_chunk_size = c, bs_max_chunks = m, bs_active = True\<rparr>"
    "n < length body" "sent (hs_base s) = before @ take n body" "\<not> fs_active (hs_file s)"
    using assms(1) by (auto simp: streaming_def)
  obtain res s1 where p: "pump_body e T (unat m) s = (res, s1)" by (cases "pump_body e T (unat m) s")
  note q = pump_body_streams [OF p st(1) less_imp_le [OF st(2)] st(3,4)]
  show ?thesis
  proof (cases res)
    case None
    then have "s' = (if n + unat m * unat c \<ge> length body then ResetBodyStream s1 else s1)"
      using assms(2) st(1,2) p q by (simp add: PumpBodyStream_def)
    then show ?thesis using q None
      by (auto simp: streaming_def ResetBodyStream_def intro!: exI [of _ "length body"])
  next
    case (Some b)
    then have "s' = s1" using assms(2) st(1,2) p by (simp add: PumpBodyStream_def)
    then show ?thesis using q Some by (auto simp: streaming_def)
  qed
qed

lemma StartBodyStream_streams:
  assumes "\<not> fs_active (hs_file s)" "\<not> bs_active (hs_stream s)"
    "StartBodyStream e T (Some h) (Some body) c m s = (r, s')"
  shows "streaming sent open_conn (sent (hs_base s) @ h) body (max c 4096) (max m 1) (unat (max m 1) * unat (max c 4096)) s' \<or>
     sent (hs_base s') = sent (hs_base s) \<and> \<not> open_conn (hs_base s') \<and> \<not> bs_active (hs_stream s') \<and> \<not> fs_active (hs_file s')"
proof -
  let ?s1 = "s\<lparr>hs_stream := \<lparr>bs_body = Some body, bs_offset = 0, bs_chunk_size = max c 4096,
                bs_max_chunks = max m 1, bs_active = True\<rparr>\<rparr>"
  obtain ok s2 where sd: "base_Send T h ?s1 = (ok, s2)" by (cases "base_Send T h ?s1")
  then have r: "(r, s') = (if \<not> ok then (False, ResetBodyStream s2) else PumpBodyStream e T s2)"
    using assms by (simp add: StartBodyStream_def Let_def)
  from sd obtain t where t: "s2 = ?s1\<lparr>hs_base := t\<rparr>" "ok \<Longrightarrow> sent t = sent (hs_base s) @ h"
    "\<not> ok \<Longrightarrow> sent t = sent (hs_base s) \<and> \<not> open_conn t" by (rule base_Send_cases) auto
  show ?thesis
  proof (cases "ok \<and> body \<noteq> []")
    case True
    then have "streaming sent open_conn (sent (hs_base s) @ h) body (max c 4096) (max m 1) 0 s2"
      using t assms(1) by (simp add: streaming_def)
    moreover have "PumpBodyStream e T s2 = (r, s')" using r True by simp
    ultimately show ?thesis using PumpBodyStream_streams by fastforce
  next
    case False
    show ?thesis
    proof (cases ok)
      case True
      then have "s' = ResetBodyStream s2" using False r t(1) by (simp add: PumpBodyStream_def)
      then show ?thesis using False True t assms(1) by (auto simp: streaming_def ResetBodyStream_def)
    next
      case False
      then show ?thesis using r t assms(1) by (auto simp: ResetBodyStream_def)
    qed
  qed
qed

lemma drained_streams:
  assumes "streaming sent open_conn before body c m n s"
    "list_all (\<lambda>f. \<forall>t. sent (f t) = sent t \<and> (open_conn (f t) \<longrightarrow> open_conn t)) fs"
  shows "streaming sent open_conn before body c m (n + length fs * (unat m * unat c))
     (fold (\<lambda>f s. OnSocketDrained e T (s\<lparr>hs_base := f (hs_base s)\<rparr>)) fs s)"
  using assms
proof (induction fs arbitrary: s n)
  case Nil
  then show ?case by simp
next
  case (Cons f fs)
  let ?s = "s\<lparr>hs_base := f (hs_base s)\<rparr>"
  have f: "sent (f t) = sent t" "open_conn (f t) \<Longrightarrow> open_conn t" for t using Cons.prems(2) by auto
  have "streaming sent open_conn before body c m n ?s"
    using Cons.prems(1) f(2) unfolding streaming_def by (cases "bs_active (hs_stream s)") (simp_all add: f(1), blast)
  then have "streaming sent open_conn before body c m (n + unat m * unat c) (snd (PumpBodyStream e T ?s))"
    by (rule PumpBodyStream_streams [OF _ surjective_pairing])
  moreover have "OnSocketDrained e T ?s = snd (PumpBodyStream e T ?s)"
    using Cons.prems(1) by (simp add: streaming_def OnSocketDrained_def PumpBodyStream_def)
  ultimately have "streaming sent open_conn before body c m (n + unat m * unat c) (OnSocketDrained e T ?s)" by simp
  from Cons.IH [OF this] Cons.prems(2) show ?case by (simp add: algebra_simps)
qed

lemma drained_closed:
  "\<not> open_conn (hs_base s) \<Longrightarrow> \<not> bs_active (hs_stream s) \<Longrightarrow> \<not> fs_active (hs_file s) \<Longrightarrow>
   list_all (\<lambda>f. \<forall>t. sent (f t) = sent t \<and> (open_conn (f t) \<longrightarrow> open_conn t)) fs \<Longrightarrow>
     \<not> open_conn (hs_base (fold (\<lambda>f s. OnSocketDrained e T (s\<lparr>hs_base := f (hs_base s)\<rparr>)) fs s))"
proof (induction fs arbitrary: s)
  case (Cons f fs)
  have "OnSocketDrained e T (s\<lparr>hs_base := f (hs_base s)\<rparr>) = s\<lparr>hs_base := f (hs_base s)\<rparr>"
    using Cons.prems by (simp add: OnSocketDrained_def)
  moreover have "\<not> open_conn (f (hs_base s))" using Cons.prems by auto
  ultimately show ?case using Cons.IH [of "s\<lparr>hs_base := f (hs_base s)\<rparr>"] Cons.prems by simp
qed simp

text \<open>Two responses sent one after the other, the first of them streamed in more than one write.\<close>

lemma session_Send_streamed:
  assumes "Send_response (http_date e (hs_asked s)) (\<lambda>i. pool_ok e (hs_asked s + i)) r = Inr (SendStreamed h b, r')"
    "\<not> fs_active (hs_file s)" "\<not> bs_active (hs_stream s)"
    "length b > 1048576" "session_Send e T r s = (r1, s1)" "open_conn (hs_base s1)"
  shows "sent (hs_base s1) = sent (hs_base s) @ h @ take 1048576 b \<and> bs_active (hs_stream s1) \<and>
     bs_body (hs_stream s1) = Some b \<and> bs_offset (hs_stream s1) = 1048576"
proof -
  let ?s = "s\<lparr>hs_asked := hs_asked s + 2\<rparr>"
  obtain ok s2 where st: "StartBodyStream e T (Some h) (Some b) kBodyStreamChunkSize kBodyStreamMaxChunksPerWrite ?s = (ok, s2)"
    by (cases "StartBodyStream e T (Some h) (Some b) kBodyStreamChunkSize kBodyStreamMaxChunksPerWrite ?s")
  then have s1: "s1 = s2" using assms(1,5) by (simp add: session_Send_def Let_def)
  have m: "max kBodyStreamChunkSize 4096 = 262144" "max kBodyStreamMaxChunksPerWrite 1 = 4"
    by (simp_all add: kBodyStreamChunkSize_def kBodyStreamMaxChunksPerWrite_def)
  have f: "\<not> fs_active (hs_file ?s)" "\<not> bs_active (hs_stream ?s)" using assms(2,3) by simp_all
  from StartBodyStream_streams [OF f st] have
    "streaming sent open_conn (sent (hs_base s) @ h) b 262144 4 1048576 s1"
    using assms(6) unfolding s1 m by simp
  then show ?thesis using assms(4,6) by (auto simp: streaming_def split: if_splits)
qed

lemma session_Send_inline:
  assumes "Send_response (http_date e (hs_asked s)) (\<lambda>i. pool_ok e (hs_asked s + i)) r = Inr (SendOne b, r')"
    "session_Send e T r s = (r1, s1)" "open_conn (hs_base s1)"
  shows "sent (hs_base s1) = sent (hs_base s) @ b \<and> hs_stream s1 = hs_stream s \<and> open_conn (hs_base s)"
proof -
  let ?s = "s\<lparr>hs_asked := hs_asked s + 2\<rparr>"
  obtain ok s2 where sd: "base_Send T b ?s = (ok, s2)" by (cases "base_Send T b ?s")
  then have s1: "s1 = s2" using assms(1,2) by (simp add: session_Send_def SendResponse_def Let_def)
  have "open_conn (hs_base s)"
  proof (rule ccontr)
    assume "\<not> open_conn (hs_base s)"
    then show False using sd assms(3) s1 by (auto simp: base_Send_def send_closed)
  qed
  then show ?thesis using sd assms(3) unfolding s1 by (elim base_Send_cases) (cases ok; simp)
qed

end

section \<open>The session as connection\<close>

definition bytes_of :: "string \<Rightarrow> byte list" where
  "bytes_of = map (\<lambda>c. of_nat (of_char c))"

definition chars_of :: "byte list \<Rightarrow> string" where
  "chars_of = map (\<lambda>b. char_of (unat b))"

lemma chars_of_bytes_of [simp]: "chars_of (bytes_of b) = b"
proof -
  have "unat (of_nat (of_char c) :: byte) = of_char c" for c :: char
    using nat_of_char_less_256 [of c] by (simp add: unat_of_nat take_bit_nat_eq_self)
  then show ?thesis by (simp add: chars_of_def bytes_of_def comp_def)
qed

lemma chars_of_append [simp]: "chars_of (xs @ ys) = chars_of xs @ chars_of ys"
  by (simp add: chars_of_def)

text \<open>
  \<open>HttpSession\<close> overrides no back-pressure callback, and its \<open>OnDisconnected\<close> leaves the base class
  alone, so inside the calls below the base class sees callbacks that do nothing.
\<close>

definition base_app :: "bool \<Rightarrow> unit app" where
  "base_app work = quiet_app \<lparr>react = (\<lambda>_ s. (app_state s, [])), handles_tick = (\<lambda>_ _. False), has_work = (\<lambda>_. work)\<rparr>"

definition session_transport :: "env \<Rightarrow> unit Session transport" where
  "session_transport e =
     \<lparr>t_send = (\<lambda>b s. let (err, s') = SendOnOwner e (base_app False) (Some (bytes_of b)) s in (err = None, s')),
      t_disconnect = DisconnectOnOwner e (base_app False),
      t_flush = (\<lambda>work. DisconnectAfterFlushOnOwner e (base_app work)),
      t_begin_io = BeginAppIo,
      t_end_io = (\<lambda>work. EndAppIo e (base_app work))\<rparr>"

named_theorems keeps_accepted \<open>calls of the base class that accept no bytes\<close>

lemma TryRelease_accepted [keeps_accepted]: "accepted (TryRelease (base_app w) s) = accepted s"
  by (simp add: TryRelease_def TryMarkClosedOnOwner_def base_app_def quiet_app_def Let_def)

lemma simple_accepted [keeps_accepted]:
  "accepted (CompletePendingIo s) = accepted s" "accepted (BeginPendingIo s) = accepted s"
  "accepted (MarkDrainingOnOwner s) = accepted s" "accepted (snd (prep e op s)) = accepted s"
  "accepted (snd (new_op e s)) = accepted s" "accepted (ask s) = accepted s"
  by (simp_all add: CompletePendingIo_def BeginPendingIo_def MarkDrainingOnOwner_def prep_def new_op_def ask_def)

lemma cancel_recv_accepted [keeps_accepted]: "accepted (cancel_recv e s) = accepted s"
  by (auto simp: cancel_recv_def new_op_def prep_def Let_def keeps_accepted split: option.split)

lemma DisconnectOnOwner_accepted [keeps_accepted]: "accepted (DisconnectOnOwner e (base_app w) s) = accepted s"
  by (auto simp: DisconnectOnOwner_def TryBeginDisconnectOnOwner_def new_op_def prep_def Let_def keeps_accepted)

lemma RegisterRecv_accepted [keeps_accepted]: "accepted (RegisterRecv e (base_app w) s) = accepted s"
  by (auto simp: RegisterRecv_def new_op_def prep_def Let_def keeps_accepted)

lemma drain_paused_accepted [keeps_accepted]: "accepted (drain_paused n (base_app w) s) = accepted s"
  by (induction n "base_app w" s rule: drain_paused.induct)
    (auto simp: deliver_def base_app_def quiet_app_def split: list.split)

lemma UpdateBackpressure_accepted [keeps_accepted]: "accepted (UpdateBackpressure e (base_app w) st s) = accepted s"
proof -
  have q: "app_OnBackpressure (base_app w) b t = t" for b t by (simp add: base_app_def quiet_app_def)
  show ?thesis
    by (auto simp: UpdateBackpressure_def enter_backpressure_def leave_backpressure_def DrainPausedRecv_def now_def q
        Let_def keeps_accepted)
qed

lemma RegisterSend_accepted [keeps_accepted]: "accepted (RegisterSend e (base_app w) s) = accepted s"
  by (auto simp: RegisterSend_def SendBatch_def SendInFlightBatch_def new_op_def prep_def Let_def keeps_accepted
      split: prod.split)

lemma TryRelease_closing: "session_state s \<noteq> kOpen \<Longrightarrow> session_state (TryRelease (base_app w) s) \<noteq> kOpen"
  by (simp add: TryRelease_def TryMarkClosedOnOwner_def base_app_def quiet_app_def Let_def)

lemma cancel_recv_state: "session_state (cancel_recv e s) = session_state s"
  by (auto simp: cancel_recv_def new_op_def prep_def ask_def BeginPendingIo_def CompletePendingIo_def Let_def split: option.split)

lemma DisconnectOnOwner_closing: "session_state (DisconnectOnOwner e (base_app w) s) \<noteq> kOpen"
  by (auto simp: DisconnectOnOwner_def TryBeginDisconnectOnOwner_def new_op_def prep_def ask_def BeginPendingIo_def
      CompletePendingIo_def MarkDrainingOnOwner_def Let_def cancel_recv_state intro!: TryRelease_closing)

lemma session_transport_laws:
  "http_transport (session_transport e) (\<lambda>s. chars_of (accepted s)) (\<lambda>s. session_state s = kOpen)"
proof
  fix b t t'
  assume "t_send (session_transport e) b t = (True, t')"
  then show "chars_of (accepted t') = chars_of (accepted t) @ b"
    by (auto simp: session_transport_def SendOnOwner_def Let_def keeps_accepted ref_bytes_def split: prod.splits if_splits)
next
  fix t :: "unit Session" and b
  assume "session_state t \<noteq> kOpen"
  then show "t_send (session_transport e) b t = (False, t)"
    by (simp add: session_transport_def SendOnOwner_def CanUseOnOwner_def)
next
  fix b t t'
  assume "t_send (session_transport e) b t = (False, t')"
  then show "chars_of (accepted t') = chars_of (accepted t) \<and> session_state t' \<noteq> kOpen"
    by (auto simp: session_transport_def SendOnOwner_def CanUseOnOwner_def Let_def keeps_accepted DisconnectOnOwner_closing
        split: prod.splits if_splits)
qed (simp_all add: session_transport_def keeps_accepted DisconnectOnOwner_closing DisconnectAfterFlushOnOwner_def
    TryDisconnectAfterFlush_def EndAppIo_def BeginAppIo_def Let_def)

interpretation conn: http_transport "session_transport e" "\<lambda>s. chars_of (accepted s)" "\<lambda>s. session_state s = kOpen"
  for e :: env
  by (rule session_transport_laws)

section \<open>A connection with room\<close>

definition ready_env :: env where
  "ready_env = \<lparr>alloc_ok = (\<lambda>_. True), prep_ok = (\<lambda>_. True), post_ok = (\<lambda>_. True), clock = (\<lambda>_. 0)\<rparr>"

definition ready_web :: web_env where
  "ready_web = \<lparr>pool_ok = (\<lambda>_. True), http_date = (\<lambda>_. ''today''), steady_now = (\<lambda>_. 0), file_reads = (\<lambda>_. []),
     file_open = (\<lambda>_ _. OpenedFile 7 5), log_info = False, log_warn = False, peer_addr = []\<rparr>"

definition roomy :: "nat \<Rightarrow> unit Session \<Rightarrow> bool" where
  "roomy k s \<longleftrightarrow>
     session_state s = kOpen \<and> \<not> backpressure_active s \<and> send_queue_high_watermark s = 0 \<and> send_queue_high_bytes s = 0 \<and>
     length (pending (send_queue s)) + k \<le> unat (max_pending (send_queue s))"

lemma roomy_RegisterSend: "roomy k s \<Longrightarrow> roomy k (RegisterSend ready_env a s)"
  by (auto simp: roomy_def RegisterSend_def CanUseOnOwner_def DrainInto_def UpdateBackpressure_def HighWatermarkReached_def
      SendBatch_def SendInFlightBatch_def new_op_def prep_def ask_def BeginPendingIo_def ready_env_def Let_def)

lemma roomy_send:
  assumes "roomy (Suc k) t"
  shows "\<exists>t'. t_send (session_transport ready_env) b t = (True, t') \<and> roomy k t'"
proof -
  obtain result q where p: "Push (Some (bytes_of b)) (send_queue t) = (result, q)" by (cases "Push (Some (bytes_of b)) (send_queue t)")
  let ?t = "t\<lparr>send_queue := q, accepted := accepted t @ bytes_of b\<rparr>"
  have q: "\<not> overflowed result" "roomy k ?t"
    using assms p by (auto simp: roomy_def Push_def Let_def split: if_splits)
  then have u: "UpdateBackpressure ready_env (base_app False) (Snapshot q) ?t = ?t"
    by (simp add: roomy_def UpdateBackpressure_def HighWatermarkReached_def)
  have "t_send (session_transport ready_env) b t =
      (True, if needs_register result then RegisterSend ready_env (base_app False) ?t else ?t)"
    using assms p q(1) u by (simp add: session_transport_def SendOnOwner_def CanUseOnOwner_def roomy_def ref_bytes_def)
  then show ?thesis using q(2) by (simp add: roomy_RegisterSend)
qed

lemma roomy_base_Send:
  assumes "roomy (Suc k) (hs_base s)"
  obtains t where "base_Send (session_transport ready_env) b s = (True, s\<lparr>hs_base := t\<rparr>)" "roomy k t"
  using roomy_send [OF assms, of b] by (auto simp: base_Send_def)

lemma roomy_pump:
  "roomy (i + k) (hs_base s) \<Longrightarrow> roomy k (hs_base (snd (pump_body ready_web (session_transport ready_env) i s)))"
proof (induction i arbitrary: s)
  case (Suc i)
  have r: "roomy (Suc (i + k)) (hs_base s')" if "hs_base s' = hs_base s" for s' :: "(unit Session, 'a) HttpSession"
    using Suc.prems that by simp
  have k: "roomy k (hs_base s)" using Suc.prems by (auto simp: roomy_def)
  let ?s1 = "s\<lparr>hs_asked := Suc (hs_asked s)\<rparr>"
  show ?case
  proof (cases "bs_body (hs_stream s)")
    case (Some body)
    let ?n = "min (length body - bs_offset (hs_stream s)) (unat (bs_chunk_size (hs_stream s)))"
    let ?s2 = "?s1\<lparr>hs_stream := (hs_stream s)\<lparr>bs_offset := bs_offset (hs_stream s) + ?n\<rparr>\<rparr>"
    have "roomy (Suc (i + k)) (hs_base ?s2)" by (rule r) simp
    then obtain t where
      t: "base_Send (session_transport ready_env) (subspan (bs_offset (hs_stream s)) ?n body) ?s2 = (True, ?s2\<lparr>hs_base := t\<rparr>)"
        "roomy (i + k) t" by (rule roomy_base_Send)
    show ?thesis using k Some t(1) Suc.IH [of "?s2\<lparr>hs_base := t\<rparr>"] t(2)
      by (simp add: pool_Allocate_def ready_web_def Let_def)
  qed (simp add: k)
qed simp

lemma roomy_PumpBodyStream:
  assumes "roomy (unat (bs_max_chunks (hs_stream s)) + k) (hs_base s)"
  shows "roomy k (hs_base (snd (PumpBodyStream ready_web (session_transport ready_env) s)))"
proof -
  have k: "roomy k (hs_base s)" using assms by (auto simp: roomy_def)
  show ?thesis using roomy_pump [OF assms] k
    by (auto simp: PumpBodyStream_def ResetBodyStream_def split: option.split prod.split)
qed

lemma roomy_StartBodyStream:
  assumes "roomy (Suc (unat (max m 1) + k)) (hs_base s)"
  shows "roomy k (hs_base (snd (StartBodyStream ready_web (session_transport ready_env) (Some h) (Some b) c m s)))"
proof -
  let ?s = "s\<lparr>hs_stream := \<lparr>bs_body = Some b, bs_offset = 0, bs_chunk_size = max c 4096,
              bs_max_chunks = max m 1, bs_active = True\<rparr>\<rparr>"
  have "roomy (Suc (unat (max m 1) + k)) (hs_base ?s)" using assms by simp
  then obtain t where t: "base_Send (session_transport ready_env) h ?s = (True, ?s\<lparr>hs_base := t\<rparr>)" "roomy (unat (max m 1) + k) t"
    by (rule roomy_base_Send)
  have "roomy k (hs_base s)" using assms by (auto simp: roomy_def)
  then show ?thesis using t roomy_PumpBodyStream [of "?s\<lparr>hs_base := t\<rparr>" k]
    by (simp add: StartBodyStream_def Let_def)
qed

section \<open>Properties\<close>

text \<open>
  C33: A streamed body is sent in full, in order and in bounded portions. After the start and any
  number of \<open>OnSocketDrained\<close> calls, between which the connection does what it likes but accepts no
  bytes of others, a connection that is still open has accepted exactly the header and the first
  bytes of the body, one portion of at most the configured chunks for each call; the stream is
  active exactly as long as bytes are left.
\<close>

theorem body_stream_exact:
  fixes s :: "(unit Session, 'h) HttpSession"
  assumes "\<not> HasPendingAppWork s"
    "StartBodyStream e (session_transport env) (Some h) (Some body) c m s = (r, s1)"
    "list_all (\<lambda>f. \<forall>t. accepted (f t) = accepted t \<and> (session_state (f t) = kOpen \<longrightarrow> session_state t = kOpen)) fs"
    "s2 = fold (\<lambda>f s. OnSocketDrained e (session_transport env) (s\<lparr>hs_base := f (hs_base s)\<rparr>)) fs s1"
    "session_state (hs_base s2) = kOpen"
    "n = Suc (length fs) * (unat (max m 1) * unat (max c 4096))"
  shows "chars_of (accepted (hs_base s2)) = chars_of (accepted (hs_base s)) @ h @ take n body \<and>
     (bs_active (hs_stream s2) \<longleftrightarrow> n < length body)"
proof -
  have q: "list_all (\<lambda>f. \<forall>t. chars_of (accepted (f t)) = chars_of (accepted t) \<and>
      (session_state (f t) = kOpen \<longrightarrow> session_state t = kOpen)) fs"
    using assms(3) by (simp add: list_all_iff)
  have i: "\<not> fs_active (hs_file s)" "\<not> bs_active (hs_stream s)" using assms(1) by (simp_all add: HasPendingAppWork_def)
  have "streaming (\<lambda>s. chars_of (accepted s)) (\<lambda>s. session_state s = kOpen)
      (chars_of (accepted (hs_base s)) @ h) body (max c 4096) (max m 1) (unat (max m 1) * unat (max c 4096)) s1"
    using conn.StartBodyStream_streams [OF i assms(2)] conn.drained_closed [of s1 fs e env] q assms(4,5) by auto
  from conn.drained_streams [OF this q, of e env] have
    "streaming (\<lambda>s. chars_of (accepted s)) (\<lambda>s. session_state s = kOpen)
      (chars_of (accepted (hs_base s)) @ h) body (max c 4096) (max m 1) n s2"
    unfolding assms(4,6) by simp
  then show ?thesis using assms(5) by (auto simp: streaming_def split: if_splits)
qed

definition web0 :: "(unit Session, nat) HttpSession" where
  "web0 = HttpSession_new 0 (Session_new 16 ())"

lemma web0_simps:
  "\<not> HasPendingAppWork web0" "roomy 16 (hs_base web0)" "accepted (hs_base web0) = []" "hs_asked web0 = 0"
  "fs_fd (hs_file web0) = -1" "hs_closed web0 = []"
  by (simp_all add: web0_def HttpSession_new_def HasPendingAppWork_def roomy_def Session_new_def SendQueue_new_def)

lemma roomy_less: "roomy k s \<Longrightarrow> j \<le> k \<Longrightarrow> roomy j s"
  by (auto simp: roomy_def)

theorem body_stream_exact_witness:
  "chars_of (accepted (hs_base (snd (StartBodyStream ready_web (session_transport ready_env) (Some ''HTTP '') (Some ''hello'') 0 0 web0)))) =
     ''HTTP hello''"
proof -
  let ?x = "StartBodyStream ready_web (session_transport ready_env) (Some ''HTTP '') (Some ''hello'') 0 0 web0"
  have "roomy 14 (hs_base (snd ?x))" by (rule roomy_StartBodyStream) (simp add: web0_simps)
  then have "session_state (hs_base (snd ?x)) = kOpen" by (simp add: roomy_def)
  then show ?thesis
    using body_stream_exact [OF web0_simps(1), of ready_web ready_env "''HTTP ''" "''hello''" 0 0 "fst ?x" "snd ?x" "[]" "snd ?x" 4096]
    by (simp add: web0_simps chars_of_def)
qed

text \<open>
  Responses of pipelined requests interleave. When a response whose body takes more than one
  write is followed by another before the connection drains, the second response is put between
  the portions of the first body, because only \<open>StartBodyStream\<close> looks at an active stream.
\<close>

theorem pipelined_responses_interleave:
  fixes s :: "(unit Session, 'h) HttpSession"
  assumes "\<not> HasPendingAppWork s" "pool_ok e = (\<lambda>_. True)" "http_date e = (\<lambda>_. d)"
    "rs_state r1 \<noteq> kSentState" "rs_attached r1" "\<not> no_body r1" "length (rs_body r1) > 1048576"
    "length (SerializeHeaders d (length (rs_body r1)) r1) < 2 ^ 32"
    "rs_state r2 \<noteq> kSentState" "rs_attached r2" "length (wire_bytes d r2) \<le> kInlineResponseMaxBytes"
    "session_Send e (session_transport env) r1 s = (r1', s1)" "session_Send e (session_transport env) r2 s1 = (r2', s2)"
    "session_state (hs_base s2) = kOpen"
  shows "chars_of (accepted (hs_base s2)) =
       chars_of (accepted (hs_base s)) @ SerializeHeaders d (length (rs_body r1)) r1 @ take 1048576 (rs_body r1) @ wire_bytes d r2 \<and>
     bs_active (hs_stream s2) \<and> bs_body (hs_stream s2) = Some (rs_body r1) \<and> bs_offset (hs_stream s2) = 1048576"
proof -
  have i: "\<not> fs_active (hs_file s)" "\<not> bs_active (hs_stream s)" using assms(1) by (simp_all add: HasPendingAppWork_def)
  have "length (wire_bytes d r1) > kInlineResponseMaxBytes"
    using assms(6,7) by (simp add: wire_bytes_def kInlineResponseMaxBytes_def)
  then have e1: "Send_response (http_date e (hs_asked s)) (\<lambda>i. pool_ok e (hs_asked s + i)) r1 =
      Inr (SendStreamed (SerializeHeaders d (length (rs_body r1)) r1) (rs_body r1),
           r1\<lparr>rs_state := kSentState, rs_last_built := length (wire_bytes d r1), rs_body := []\<rparr>)"
    using Send_response_eq [of r1 "\<lambda>_. True" d] assms(2-8) by (auto simp: Let_def)
  have "length (SerializeHeaders d (length (rs_body r2)) r2) < 2 ^ 32"
    using assms(11) by (simp add: wire_bytes_def kInlineResponseMaxBytes_def)
  then have e2: "Send_response (http_date e (hs_asked s1)) (\<lambda>i. pool_ok e (hs_asked s1 + i)) r2 =
      Inr (SendOne (wire_bytes d r2), r2\<lparr>rs_state := kSentState, rs_last_built := length (wire_bytes d r2)\<rparr>)"
    using Send_response_eq [of r2 "\<lambda>_. True" d] assms(2,3,9,10,11) by (simp add: Let_def)
  note two = conn.session_Send_inline [OF e2 assms(13,14)]
  with conn.session_Send_streamed [OF e1 i assms(7) assms(12)] show ?thesis by simp
qed

definition big_response :: HttpResponse where
  "big_response = Text (replicate 1048577 CHR ''x'') (HttpResponse_new True)"

lemma session_Send_roomy:
  assumes "roomy (5 + k) (hs_base s)"
  shows "roomy k (hs_base (snd (session_Send ready_web (session_transport ready_env) r s)))"
proof -
  let ?s = "s\<lparr>hs_asked := hs_asked s + 2\<rparr>"
  have k: "roomy k (hs_base s)" using assms by (auto simp: roomy_def)
  have one: "roomy k (hs_base (SendResponse (session_transport ready_env) b ?s))" for b
  proof -
    have "roomy (Suc k) (hs_base ?s)" using assms by (auto simp: roomy_def)
    then obtain t where "base_Send (session_transport ready_env) b ?s = (True, ?s\<lparr>hs_base := t\<rparr>)" "roomy k t"
      by (rule roomy_base_Send)
    then show ?thesis by (simp add: SendResponse_def)
  qed
  have many: "roomy k (hs_base (snd (StartBodyStream ready_web (session_transport ready_env) (Some h) (Some b) kBodyStreamChunkSize
      kBodyStreamMaxChunksPerWrite ?s)))" for h b
    by (rule roomy_StartBodyStream) (use assms in \<open>simp add: kBodyStreamMaxChunksPerWrite_def\<close>)
  show ?thesis using k one many
    by (auto simp: session_Send_def Let_def split: sum.split prod.split send_action.split)
qed

lemma big_head:
  "rs_state big_response \<noteq> kSentState" "rs_attached big_response" "\<not> no_body big_response"
  "rs_body big_response = replicate 1048577 CHR ''x''"
  "length (SerializeHeaders ''today'' 1048577 big_response) < 2 ^ 32"
proof -
  show "rs_state big_response \<noteq> kSentState" "rs_attached big_response" "\<not> no_body big_response"
    "rs_body big_response = replicate 1048577 CHR ''x''"
    by (simp_all add: big_response_def Text_def HttpResponse_new_def no_body_def StatusMustNotHaveBody_def)
  have "head_fields ''today'' 1048577 big_response =
     [(''Server'', ''iouring_runtime_web''), (''Date'', ''today''), (''Content-Type'', ''text/plain''),
      (''Content-Length'', to_string_nat 1048577), (''Connection'', ''keep-alive'')]"
    by (simp add: head_fields_def caller_has_def big_response_def Text_def HttpResponse_new_def StatusMustNotHaveBody_def)
  moreover have "length (to_string_nat 1048577) = 7" by (simp add: to_string_nat.simps)
  moreover have "status_line big_response = ''HTTP/1.1 200 OK''"
    by (simp add: status_line_def big_response_def Text_def HttpResponse_new_def to_string_nat.simps digit_char_def char_of_eq_iff)
  ultimately show "length (SerializeHeaders ''today'' 1048577 big_response) < 2 ^ 32"
    by (simp add: SerializeHeaders_lines field_line_def crlf_def write_lines_def)
qed

theorem pipelined_responses_interleave_witness:
  "\<exists>s2 :: (unit Session, nat) HttpSession. chars_of (accepted (hs_base s2)) =
       SerializeHeaders ''today'' 1048577 big_response @ replicate 1048576 CHR ''x'' @ wire_bytes ''today'' demo_response \<and>
     bs_active (hs_stream s2)"
proof -
  let ?T = "session_transport ready_env"
  obtain r1 s1 where 1: "session_Send ready_web ?T big_response web0 = (r1, s1)"
    by (cases "session_Send ready_web ?T big_response web0")
  obtain r2 s2 where 2: "session_Send ready_web ?T demo_response s1 = (r2, s2)"
    by (cases "session_Send ready_web ?T demo_response s1")
  have "roomy 10 (hs_base s1)"
    using session_Send_roomy [of 10 web0 big_response] web0_simps(2) 1 roomy_less [of 16 "hs_base web0" 15] by simp
  then have "roomy 5 (hs_base s2)" using session_Send_roomy [of 5 s1 demo_response] 2 by simp
  then have o: "session_state (hs_base s2) = kOpen" by (simp add: roomy_def)
  have l: "length (rs_body big_response) = 1048577" by (simp add: big_head(4))
  have h: "length (SerializeHeaders ''today'' (length (rs_body big_response)) big_response) < 2 ^ 32"
    unfolding l by (rule big_head(5))
  have d: "rs_state demo_response \<noteq> kSentState" "rs_attached demo_response"
    by (simp_all add: demo_response_def Header_def Text_def HttpResponse_new_def)
  have "length (rs_body demo_response) = 2" by (simp add: demo_head(3))
  then have "length (wire_bytes ''today'' demo_response) \<le> kInlineResponseMaxBytes"
    by (simp add: wire_bytes_def SerializeHeaders_lines demo_head(1,2,4) field_line_def crlf_def write_lines_def
        kInlineResponseMaxBytes_def)
  from pipelined_responses_interleave [OF web0_simps(1) _ _ big_head(1-3) _ h d this 1 2 o] l
  have "chars_of (accepted (hs_base s2)) = SerializeHeaders ''today'' 1048577 big_response @ take 1048576 (rs_body big_response) @
      wire_bytes ''today'' demo_response \<and> bs_active (hs_stream s2)"
    by (simp add: ready_web_def web0_simps chars_of_def)
  moreover have "take 1048576 (rs_body big_response) = replicate 1048576 CHR ''x''" by (simp add: big_head(4))
  ultimately show ?thesis by auto
qed

text \<open>
  \<open>SendFile\<close> on a connection that is already closing closes the file descriptor twice: once by
  resetting the stream that had taken it, once by itself.
\<close>

theorem SendFile_double_close:
  fixes s :: "(unit Session, 'h) HttpSession"
  assumes "rs_state r \<noteq> kSentState" "rs_attached r" "\<not> no_body r"
    "\<not> HasPendingAppWork s" "fs_fd (hs_file s) < 0" "session_state (hs_base s) \<noteq> kOpen"
    "file_open e (hs_asked s) path = OpenedFile fd file_len" "fd \<ge> 0" "pool_ok e (Suc (hs_asked s))"
    "length (SerializeHeaders (http_date e (hs_asked s)) file_len (r\<lparr>rs_keep_alive := False,
       rs_content_type := (if rs_content_type r = [] \<and> ctype \<noteq> [] then ctype else rs_content_type r)\<rparr>)) < 2 ^ 32"
  shows "\<exists>r' s'. SendFile e (session_transport env) path ctype c m r s = (False, r', s') \<and>
     hs_closed s' = hs_closed s @ [fd, fd]"
proof -
  have "t_send (session_transport env) b (hs_base s) = (False, hs_base s)" for b
    using assms(6) by (rule conn.send_closed)
  then show ?thesis
    using assms by (simp add: SendFile_def pool_Allocate_def StartFileStream_def HasPendingAppWork_def SocketHandle_Reset_def
        base_Send_def ResetFileStream_def BufferFromBytes_eq no_body_def Let_def)
qed

definition web_closing :: "(unit Session, nat) HttpSession" where
  "web_closing = web0\<lparr>hs_base := (hs_base web0)\<lparr>session_state := kDraining\<rparr>\<rparr>"

theorem SendFile_double_close_witness:
  "\<exists>r' s'. SendFile ready_web (session_transport ready_env) ''f'' ''text/html'' 0 0 (HttpResponse_new True) web_closing = (False, r', s') \<and>
     hs_closed s' = [7, 7]"
proof -
  let ?r = "HttpResponse_new True"
  have w: "hs_asked web_closing = 0" "hs_closed web_closing = []" "\<not> HasPendingAppWork web_closing"
    "fs_fd (hs_file web_closing) < 0" "session_state (hs_base web_closing) \<noteq> kOpen"
    using web0_simps by (simp_all add: web_closing_def HasPendingAppWork_def)
  have "length (SerializeHeaders ''today'' 5 (?r\<lparr>rs_keep_alive := False, rs_content_type := ''text/html''\<rparr>)) < 2 ^ 32"
    by (simp add: SerializeHeaders_lines head_fields_def status_line_def caller_has_def HttpResponse_new_def StatusMustNotHaveBody_def
        field_line_def crlf_def write_lines_def to_string_nat.simps)
  moreover have "rs_state ?r \<noteq> kSentState" "rs_attached ?r" "\<not> no_body ?r" "rs_content_type ?r = []"
    by (simp_all add: HttpResponse_new_def no_body_def StatusMustNotHaveBody_def)
  ultimately show ?thesis
    using SendFile_double_close [of ?r web_closing ready_web "''f''" 7 5 "''text/html''" ready_env 0 0] w
    by (simp add: ready_web_def)
qed

end
