(* ===== verification/Http_Router.thy ===== *)
theory Http_Router
  imports Http_Stream
begin

text \<open>
  \<^verbatim>\<open>Router.cpp\<close> and \<^verbatim>\<open>RouterDeferred.cpp\<close>: registration, dispatch through the middlewares to a handler,
  and responses completed later. Handlers belong to the application: the parameter \<open>H\<close> gives, for a
  handler, a chunk of the body and the request context, the calls it makes on the context, and its
  result, \<open>None\<close> for an exception.
\<close>

section \<open>The request context\<close>

record ('t, 'h) RequestContext =
  rc_session :: "('t, 'h) HttpSession"
  rc_request :: HttpRequest
  rc_response :: HttpResponse
  rc_remote_addr :: string
  rc_request_id :: string

datatype api_call =
    CallStatus HttpStatus | CallHeader string string | CallRemoveHeader string | CallContentType string
  | CallBody string | CallText string | CallJson string | CallError HttpStatus string
  | CallRedirect string HttpStatus | CallKeepAlive bool | CallSuppressBody bool | CallSend
  | CallSendFile string string u32 u32 | CallDefer | CallSetPath string | CallSetKeepAlive bool

type_synonym ('t, 'h) handlers = "'h \<Rightarrow> string \<Rightarrow> ('t, 'h) RequestContext \<Rightarrow> api_call list \<times> bool option"

definition BeginDeferredResponse :: "'t transport \<Rightarrow> ('t, 'h) HttpSession \<Rightarrow> ('t, 'h) HttpSession" where
  "BeginDeferredResponse T s =
     s\<lparr>hs_async_work_count := hs_async_work_count s + 1, hs_base := t_begin_io T (hs_base s)\<rparr>"

definition EndDeferredResponse :: "'t transport \<Rightarrow> ('t, 'h) HttpSession \<Rightarrow> ('t, 'h) HttpSession" where
  "EndDeferredResponse T s =
     (let s1 = (if hs_async_work_count s > 0 then s\<lparr>hs_async_work_count := hs_async_work_count s - 1\<rparr> else s)
      in s1\<lparr>hs_base := t_end_io T (HasPendingAppWork s1) (hs_base s1)\<rparr>)"

definition DeferredResponse_new :: "'t transport \<Rightarrow> ('t, 'h) HttpSession \<Rightarrow> ('t, 'h) HttpSession" where
  "DeferredResponse_new T s =
     (let s1 = BeginDeferredResponse T s
      in s1\<lparr>hs_deferred := hs_deferred s1 @
             [\<lparr>dr_session = True, dr_response = Some (KeepAlive False (HttpResponse_new True))\<rparr>]\<rparr>)"

definition DeferResponse :: "'t transport \<Rightarrow> ('t, 'h) RequestContext \<Rightarrow> ('t, 'h) RequestContext" where
  "DeferResponse T c =
     c\<lparr>rc_request := (rc_request c)\<lparr>req_keep_alive := False\<rparr>,
       rc_response := MarkDeferred (KeepAlive False (rc_response c)),
       rc_session := DeferredResponse_new T (rc_session c)\<rparr>"

text \<open>The calls that only change a response; the others leave it as it is.\<close>

fun set_response :: "api_call \<Rightarrow> HttpResponse \<Rightarrow> HttpResponse" where
  "set_response (CallStatus st) r = SetStatus st r"
| "set_response (CallHeader n v) r = Header n v r"
| "set_response (CallRemoveHeader n) r = RemoveHeader n r"
| "set_response (CallContentType t) r = SetContentType t r"
| "set_response (CallBody b) r = Body b r"
| "set_response (CallText t) r = Text t r"
| "set_response (CallJson b) r = Json b r"
| "set_response (CallError st m) r = Error_response st m r"
| "set_response (CallRedirect url st) r = Redirect url st r"
| "set_response (CallKeepAlive b) r = KeepAlive b r"
| "set_response (CallSuppressBody b) r = SuppressBody b r"
| "set_response _ r = r"

fun send_response_call ::
  "web_env \<Rightarrow> 't transport \<Rightarrow> api_call \<Rightarrow> HttpResponse \<Rightarrow> ('t, 'h) HttpSession \<Rightarrow> HttpResponse \<times> ('t, 'h) HttpSession" where
  "send_response_call e T CallSend r s = session_Send e T r s"
| "send_response_call e T (CallSendFile path ctype c m) r s = snd (SendFile e T path ctype c m r s)"
| "send_response_call e T call r s = (set_response call r, s)"

fun apply_call :: "web_env \<Rightarrow> 't transport \<Rightarrow> api_call \<Rightarrow> ('t, 'h) RequestContext \<Rightarrow> ('t, 'h) RequestContext" where
  "apply_call e T CallDefer c = DeferResponse T c"
| "apply_call e T (CallSetPath path) c = c\<lparr>rc_request := (rc_request c)\<lparr>req_path := path\<rparr>\<rparr>"
| "apply_call e T (CallSetKeepAlive b) c = c\<lparr>rc_request := (rc_request c)\<lparr>req_keep_alive := b\<rparr>\<rparr>"
| "apply_call e T call c =
     (let (r, s) = send_response_call e T call (rc_response c) (rc_session c) in c\<lparr>rc_response := r, rc_session := s\<rparr>)"

definition run_handler ::
  "web_env \<Rightarrow> 't transport \<Rightarrow> ('t, 'h) handlers \<Rightarrow> 'h \<Rightarrow> string \<Rightarrow> ('t, 'h) RequestContext \<Rightarrow>
     bool option \<times> ('t, 'h) RequestContext" where
  "run_handler e T H h chunk c = (let (calls, result) = H h chunk c in (result, fold (apply_call e T) calls c))"

section \<open>Routes\<close>

record 'h Router =
  ro_middlewares :: "'h list"
  ro_tree :: "'h node"

definition Router_new :: "'h Router" where
  "Router_new = \<lparr>ro_middlewares = [], ro_tree = new_node []\<rparr>"

definition Route :: "HttpMethod \<Rightarrow> string \<Rightarrow> 'h option \<Rightarrow> 'h Router \<Rightarrow> 'h Router" where
  "Route m path handler r = r\<lparr>ro_tree := Insert m path (empty_entry\<lparr>re_handler := handler\<rparr>) (ro_tree r)\<rparr>"

definition RouteStream :: "HttpMethod \<Rightarrow> string \<Rightarrow> 'h HttpStreamHandler \<Rightarrow> 'h Router \<Rightarrow> 'h Router" where
  "RouteStream m path handler r = r\<lparr>ro_tree := Insert m path (empty_entry\<lparr>re_stream := handler\<rparr>) (ro_tree r)\<rparr>"

definition Use :: "'h \<Rightarrow> 'h Router \<Rightarrow> 'h Router" where
  "Use middleware r = r\<lparr>ro_middlewares := ro_middlewares r @ [middleware]\<rparr>"

record 'h RouterMatch =
  rm_handler :: "'h option"
  rm_stream_handler :: "'h HttpStreamHandler option"
  rm_params :: "(string \<times> string) list"
  rm_path_exists :: bool
  rm_allow_header :: string

definition Router_Match :: "HttpMethod \<Rightarrow> string \<Rightarrow> 'h Router \<Rightarrow> fault + 'h RouterMatch" where
  "Router_Match m path r =
     (case Match m path (ro_tree r) of
        Inl f \<Rightarrow> Inl f
      | Inr match \<Rightarrow>
          Inr \<lparr>rm_handler = (case mr_entry match of None \<Rightarrow> None | Some entry \<Rightarrow> re_handler entry),
               rm_stream_handler = (case mr_entry match of None \<Rightarrow> None
                                    | Some entry \<Rightarrow> if HasStreamHandler entry then Some (re_stream entry) else None),
               rm_params = (case mr_entry match of None \<Rightarrow> [] | Some entry \<Rightarrow> mr_params match),
               rm_path_exists = mr_path_exists match, rm_allow_header = mr_allow match\<rparr>)"

section \<open>Dispatch\<close>

text \<open>How a dispatch can fail: a middleware's exception leaves it, or matching the path is undefined.\<close>

datatype abort = Escaped | Fault fault

fun run_middlewares ::
  "web_env \<Rightarrow> 't transport \<Rightarrow> ('t, 'h) handlers \<Rightarrow> 'h list \<Rightarrow> ('t, 'h) RequestContext \<Rightarrow>
     abort + (bool \<times> ('t, 'h) RequestContext)" where
  "run_middlewares e T H [] c = Inr (False, c)"
| "run_middlewares e T H (m # rest) c =
     (case run_handler e T H m [] c of
        (None, c') \<Rightarrow> Inl Escaped
      | (Some _, c') \<Rightarrow> if IsSent (rc_response c') then Inr (True, c') else run_middlewares e T H rest c')"

text \<open>The chain \<open>Status(...).ContentType(text/plain).Body(...)\<close> followed by \<open>Send\<close>.\<close>

definition reply ::
  "web_env \<Rightarrow> 't transport \<Rightarrow> HttpStatus \<Rightarrow> string \<Rightarrow> (string \<times> string) list \<Rightarrow> ('t, 'h) RequestContext \<Rightarrow> ('t, 'h) RequestContext" where
  "reply e T st body hs c =
     (let r = fold (\<lambda>(n, v). Header n v) hs (Body body (SetContentType ''text/plain'' (SetStatus st (rc_response c))));
          (r', s') = session_Send e T r (rc_session c)
      in c\<lparr>rc_response := r', rc_session := s'\<rparr>)"

text \<open>The match of the request, for \<open>HEAD\<close> with the handler of \<open>GET\<close> as a fallback.\<close>

definition match_request :: "HttpMethod \<Rightarrow> string \<Rightarrow> 'h Router \<Rightarrow> fault + 'h RouterMatch" where
  "match_request m path r =
     (case Router_Match m path r of
        Inl f \<Rightarrow> Inl f
      | Inr result \<Rightarrow>
          if m = kHead \<and> rm_handler result = None
          then case Router_Match kGet path r of
                 Inl f \<Rightarrow> Inl f
               | Inr get_result \<Rightarrow> Inr (if rm_handler get_result \<noteq> None then get_result else result)
          else Inr result)"

definition Dispatch ::
  "web_env \<Rightarrow> 't transport \<Rightarrow> ('t, 'h) handlers \<Rightarrow> 'h Router \<Rightarrow> ('t, 'h) RequestContext \<Rightarrow> abort + ('t, 'h) RequestContext" where
  "Dispatch e T H router c0 =
     (case run_middlewares e T H (ro_middlewares router) c0 of
        Inl a \<Rightarrow> Inl a
      | Inr (True, c) \<Rightarrow> Inr c
      | Inr (False, c) \<Rightarrow>
          (case match_request (req_method (rc_request c)) (req_path (rc_request c)) router of
             Inl f \<Rightarrow> Inl (Fault f)
           | Inr result \<Rightarrow>
               (let c1 = (if req_method (rc_request c) = kHead
                          then c\<lparr>rc_response := SuppressBody True (rc_response c)\<rparr> else c)
                in case rm_handler result of
                     Some h \<Rightarrow>
                       (let c2 = c1\<lparr>rc_request := SetParams (rm_params result) (rc_request c1)\<rparr>;
                            (res, c3) = run_handler e T H h [] c2;
                            c4 = (if res = None \<and> \<not> IsSent (rc_response c3)
                                  then reply e T kInternalServerError ''Internal Server Error'' [] c3 else c3)
                        in Inr (c4\<lparr>rc_request := ClearParams (rc_request c4)\<rparr>))
                   | None \<Rightarrow>
                       Inr (if rm_path_exists result
                            then reply e T kMethodNotAllowed ''Method Not Allowed''
                                   (if rm_allow_header result \<noteq> [] then [(''Allow'', rm_allow_header result)] else []) c1
                            else reply e T kNotFoundStatus ''Not Found'' [] c1))))"

section \<open>Deferred responses\<close>

text \<open>
  A \<open>DeferredResponse\<close> is named by its index. \<open>Complete\<close>, \<open>Abort\<close> and the destructor are \<open>Reset\<close>;
  a moved-from object has no session and no response.
\<close>

definition Deferred_Reset ::
  "web_env \<Rightarrow> 't transport \<Rightarrow> bool \<Rightarrow> nat \<Rightarrow> ('t, 'h) HttpSession \<Rightarrow> ('t, 'h) HttpSession" where
  "Deferred_Reset e T send_if_open i s =
     (let d = hs_deferred s ! i; s1 = s\<lparr>hs_deferred := (hs_deferred s)[i := \<lparr>dr_session = False, dr_response = None\<rparr>]\<rparr>
      in if \<not> dr_session d then s1
         else let s2 = (case dr_response d of
                          None \<Rightarrow> s1
                        | Some r \<Rightarrow> if send_if_open \<and> \<not> IsSent r then snd (session_Send e T r s1) else s1)
              in EndDeferredResponse T s2)"

definition Deferred_Response_call ::
  "web_env \<Rightarrow> 't transport \<Rightarrow> nat \<Rightarrow> api_call \<Rightarrow> ('t, 'h) HttpSession \<Rightarrow> ('t, 'h) HttpSession" where
  "Deferred_Response_call e T i call s =
     (case dr_response (hs_deferred s ! i) of
        None \<Rightarrow> s\<lparr>hs_faulted := True\<rparr>
      | Some r \<Rightarrow>
          (let (r', s') = send_response_call e T call r s
           in s'\<lparr>hs_deferred := (hs_deferred s')[i := (hs_deferred s' ! i)\<lparr>dr_response := Some r'\<rparr>]\<rparr>))"

definition Deferred_move :: "nat \<Rightarrow> ('t, 'h) HttpSession \<Rightarrow> ('t, 'h) HttpSession" where
  "Deferred_move i s =
     s\<lparr>hs_deferred := (hs_deferred s)[i := \<lparr>dr_session = False, dr_response = None\<rparr>] @ [hs_deferred s ! i]\<rparr>"

definition Deferred_assign ::
  "web_env \<Rightarrow> 't transport \<Rightarrow> nat \<Rightarrow> nat \<Rightarrow> ('t, 'h) HttpSession \<Rightarrow> ('t, 'h) HttpSession" where
  "Deferred_assign e T i j s =
     (if i = j then s
      else let s1 = Deferred_Reset e T False i s; d = hs_deferred s1 ! j
           in s1\<lparr>hs_deferred := (hs_deferred s1)[i := d, j := \<lparr>dr_session = False, dr_response = None\<rparr>]\<rparr>)"

section \<open>Counting open deferred responses\<close>

text \<open>The connection also counts the application's pending work, which keeps it from being released.\<close>

text \<open>
  What happens to a session and its deferred responses: one is created, completed, aborted or
  destroyed, filled in, moved, assigned; other responses are sent; the socket drains. Operations
  name existing objects.
\<close>

datatype deferred_op =
    DDefer | DReset bool nat | DCall nat api_call | DMove nat | DAssign nat nat | DSend HttpResponse | DDrained

fun run_deferred_op ::
  "web_env \<Rightarrow> 't transport \<Rightarrow> deferred_op \<Rightarrow> ('t, 'h) HttpSession \<Rightarrow> ('t, 'h) HttpSession" where
  "run_deferred_op e T DDefer s = DeferredResponse_new T s"
| "run_deferred_op e T (DReset b i) s = (if i < length (hs_deferred s) then Deferred_Reset e T b i s else s)"
| "run_deferred_op e T (DCall i call) s = (if i < length (hs_deferred s) then Deferred_Response_call e T i call s else s)"
| "run_deferred_op e T (DMove i) s = (if i < length (hs_deferred s) then Deferred_move i s else s)"
| "run_deferred_op e T (DAssign i j) s =
     (if i < length (hs_deferred s) \<and> j < length (hs_deferred s) then Deferred_assign e T i j s else s)"
| "run_deferred_op e T (DSend r) s = snd (session_Send e T r s)"
| "run_deferred_op e T DDrained s = OnSocketDrained e T s"

lemma length_filter_update:
  "i < length xs \<Longrightarrow> length (filter P (xs[i := x])) + (if P (xs ! i) then 1 else 0) =
     length (filter P xs) + (if P x then 1 else 0)"
proof (induction xs arbitrary: i)
  case (Cons y ys)
  then show ?case by (cases i) auto
qed simp

locale counted_transport = http_transport +
  fixes app_io :: "'a \<Rightarrow> nat"
  assumes send_io: "app_io (snd (t_send T b t)) = app_io t"
    and disconnect_io: "app_io (t_disconnect T t) = app_io t"
    and begin_io: "app_io (t_begin_io T t) = Suc (app_io t)"
    and end_io: "app_io (t_end_io T w t) = app_io t - 1"

definition live :: "('t, 'h) HttpSession \<Rightarrow> nat" where
  "live s = length (filter dr_session (hs_deferred s))"

definition counted :: "('t \<Rightarrow> nat) \<Rightarrow> ('t, 'h) HttpSession \<Rightarrow> bool" where
  "counted io s \<longleftrightarrow> hs_async_work_count s = of_nat (live s) \<and> io (hs_base s) = live s"

definition same_work :: "('t \<Rightarrow> nat) \<Rightarrow> ('t, 'h) HttpSession \<Rightarrow> ('t, 'h) HttpSession \<Rightarrow> bool" where
  "same_work io s s' \<longleftrightarrow>
     hs_deferred s' = hs_deferred s \<and> hs_async_work_count s' = hs_async_work_count s \<and> io (hs_base s') = io (hs_base s)"

lemma same_work_refl [simp]: "same_work io s s"
  by (simp add: same_work_def)

lemma same_work_trans: "same_work io a b \<Longrightarrow> same_work io b c \<Longrightarrow> same_work io a c"
  by (simp add: same_work_def)

lemma same_work_counted: "same_work io s s' \<Longrightarrow> counted io s \<Longrightarrow> counted io s'"
  by (simp add: same_work_def counted_def live_def)

lemma same_work_update [simp]:
  "same_work io s (s'\<lparr>hs_stream := x1\<rparr>) = same_work io s s'" "same_work io s (s'\<lparr>hs_file := x2\<rparr>) = same_work io s s'"
  "same_work io s (s'\<lparr>hs_closed := x3\<rparr>) = same_work io s s'" "same_work io s (s'\<lparr>hs_asked := x4\<rparr>) = same_work io s s'"
  "same_work io s (s'\<lparr>hs_faulted := x5\<rparr>) = same_work io s s'"
  by (simp_all add: same_work_def)

lemma same_work_reset [simp]:
  "same_work io s (ResetBodyStream s') = same_work io s s'" "same_work io s (ResetFileStream s') = same_work io s s'"
  by (simp_all add: ResetBodyStream_def ResetFileStream_def SocketHandle_Reset_def)

context counted_transport
begin

lemma base_Send_work: "base_Send T b s1 = (ok, s2) \<Longrightarrow> same_work app_io s s1 \<Longrightarrow> same_work app_io s s2"
  using send_io [of b "hs_base s1"] by (auto simp: base_Send_def same_work_def split: prod.splits)

lemma base_Disconnect_work [simp]: "same_work app_io s (base_Disconnect T s1) = same_work app_io s s1"
  by (simp add: base_Disconnect_def same_work_def disconnect_io)

lemma pump_body_work: "same_work app_io s s1 \<Longrightarrow> same_work app_io s (snd (pump_body e T i s1))"
proof (induction i arbitrary: s1)
  case (Suc i)
  then show ?case
    by (auto simp: pool_Allocate_def Let_def dest: base_Send_work split: option.split prod.split)
qed simp

lemma pump_file_work: "same_work app_io s s1 \<Longrightarrow> same_work app_io s (snd (pump_file e T i s1))"
proof (induction i arbitrary: s1)
  case (Suc i)
  then show ?case
    by (auto simp: pool_Allocate_def Let_def dest: base_Send_work split: option.split prod.split)
qed simp

lemma PumpBodyStream_work: "same_work app_io s s1 \<Longrightarrow> same_work app_io s (snd (PumpBodyStream e T s1))"
  using pump_body_work [of s s1 e "unat (bs_max_chunks (hs_stream s1))"]
  by (auto simp: PumpBodyStream_def split: option.split prod.split)

lemma PumpFileStream_work: "same_work app_io s s1 \<Longrightarrow> same_work app_io s (snd (PumpFileStream e T s1))"
  using pump_file_work [of s s1 e "unat (fs_max_chunks (hs_file s1))"]
  by (auto simp: PumpFileStream_def split: option.split prod.split)

lemma StartBodyStream_work:
  assumes "same_work app_io s s1"
  shows "same_work app_io s (snd (StartBodyStream e T h b c m s1))"
proof -
  let ?s = "s1\<lparr>hs_stream := \<lparr>bs_body = b, bs_offset = 0, bs_chunk_size = max c (4 * 1024),
              bs_max_chunks = max m 1, bs_active = True\<rparr>\<rparr>"
  obtain ok s2 where sd: "base_Send T (the h) ?s = (ok, s2)" by (cases "base_Send T (the h) ?s")
  then have "same_work app_io s s2" by (rule base_Send_work) (simp add: assms)
  then show ?thesis using sd assms by (simp add: StartBodyStream_def Let_def PumpBodyStream_work)
qed

lemma StartFileStream_work:
  assumes "same_work app_io s s1"
  shows "same_work app_io s (snd (StartFileStream e T h fd n c m s1))"
proof -
  let ?s = "s1\<lparr>hs_file := \<lparr>fs_fd = fd, fs_remaining_bytes = n, fs_chunk_size = max c (4 * 1024),
                fs_max_chunks = max m 1, fs_active = True\<rparr>,
              hs_closed := hs_closed s1 @ (if fs_fd (hs_file s1) \<ge> 0 then [fs_fd (hs_file s1)] else [])\<rparr>"
  obtain ok s2 where sd: "base_Send T (the h) ?s = (ok, s2)" by (cases "base_Send T (the h) ?s")
  then have "same_work app_io s s2" by (rule base_Send_work) (simp add: assms)
  then show ?thesis using sd assms by (simp add: StartFileStream_def SocketHandle_Reset_def Let_def PumpFileStream_work)
qed

lemma session_Send_work:
  assumes "same_work app_io s s1"
  shows "same_work app_io s (snd (session_Send e T r s1))"
proof -
  let ?s = "s1\<lparr>hs_asked := hs_asked s1 + 2\<rparr>"
  have one: "same_work app_io s (SendResponse T b ?s)" for b
    using base_Send_work [of b ?s "fst (base_Send T b ?s)" "snd (base_Send T b ?s)" s] assms by (simp add: SendResponse_def)
  have many: "same_work app_io s (snd (StartBodyStream e T h b c m ?s))" for h b c m
    using assms by (intro StartBodyStream_work) simp
  show ?thesis using assms one many
    by (auto simp: session_Send_def Let_def split: sum.split prod.split send_action.split)
qed

lemma SendFile_work:
  assumes "same_work app_io s s1"
  shows "same_work app_io s (snd (snd (SendFile e T path ctype c m r s1)))"
proof -
  have one: "same_work app_io s (SendResponse T b t)" if "same_work app_io s t" for b t
    using base_Send_work [of b t "fst (base_Send T b t)" "snd (base_Send T b t)" s] that by (simp add: SendResponse_def)
  have many: "same_work app_io s s3" if "StartFileStream e T h fd n c m t = (ok, s3)" "same_work app_io s t" for h fd n t ok s3
    using StartFileStream_work [OF that(2), of e h fd n c m] that(1) by simp
  show ?thesis using assms
    by (auto simp: SendFile_def pool_Allocate_def Let_def one session_Send_work dest: many
        split: open_result.split sum.split option.split prod.split bool.split)
qed

lemma send_response_call_work:
  "same_work app_io s s1 \<Longrightarrow> same_work app_io s (snd (send_response_call e T call r s1))"
  by (cases call) (simp_all add: session_Send_work SendFile_work)

lemma OnSocketDrained_work: "same_work app_io s (OnSocketDrained e T s)"
proof -
  have f: "same_work app_io s (if fs_active (hs_file s) then snd (PumpFileStream e T s) else s)"
    by (simp add: PumpFileStream_work)
  then show ?thesis by (simp add: OnSocketDrained_def Let_def PumpBodyStream_work)
qed

lemma EndDeferred_counted:
  assumes "hs_async_work_count s = of_nat (Suc n)" "app_io (hs_base s) = Suc n" "live s = n" "Suc n < 2 ^ 32"
  shows "counted app_io (EndDeferredResponse T s)"
proof -
  have "(of_nat (Suc n) :: u32) \<noteq> 0" using assms(4) unat_u32_of_nat [of "Suc n"] by (metis nat.simps(3) unat_0)
  then have "hs_async_work_count s > 0" using assms(1) by (simp add: word_gt_0)
  then show ?thesis using assms by (simp add: EndDeferredResponse_def counted_def live_def end_io Let_def)
qed

lemma Deferred_Reset_counted:
  assumes "counted app_io s" "i < length (hs_deferred s)" "length (hs_deferred s) < 2 ^ 32"
  shows "counted app_io (Deferred_Reset e T b i s)"
proof -
  let ?s = "s\<lparr>hs_deferred := (hs_deferred s)[i := \<lparr>dr_session = False, dr_response = None\<rparr>]\<rparr>"
  note l = length_filter_update [OF assms(2), of dr_session "\<lparr>dr_session = False, dr_response = None\<rparr>"]
  show ?thesis
  proof (cases "dr_session (hs_deferred s ! i)")
    case False
    then show ?thesis using assms(1) l by (simp add: Deferred_Reset_def counted_def live_def Let_def)
  next
    case True
    let ?t = "case dr_response (hs_deferred s ! i) of None \<Rightarrow> ?s
      | Some r \<Rightarrow> if b \<and> \<not> IsSent r then snd (session_Send e T r ?s) else ?s"
    have w: "same_work app_io ?s ?t" by (auto simp: session_Send_work split: option.split)
    have n: "live s = Suc (live ?s)" using l True by (simp add: live_def)
    have "live s \<le> length (hs_deferred s)" by (simp add: live_def)
    then have b: "Suc (live ?s) < 2 ^ 32" using assms(3) n by simp
    have "hs_async_work_count ?t = of_nat (Suc (live ?s))" "app_io (hs_base ?t) = Suc (live ?s)" "live ?t = live ?s"
      using assms(1) w unfolding n [symmetric] by (simp_all add: same_work_def counted_def live_def)
    then have "counted app_io (EndDeferredResponse T ?t)" using b by (rule EndDeferred_counted)
    then show ?thesis using True by (simp add: Deferred_Reset_def Let_def)
  qed
qed

lemma Deferred_Reset_length: "length (hs_deferred (Deferred_Reset e T b i s)) = length (hs_deferred s)"
proof -
  let ?s = "s\<lparr>hs_deferred := (hs_deferred s)[i := \<lparr>dr_session = False, dr_response = None\<rparr>]\<rparr>"
  have "hs_deferred (snd (session_Send e T r ?s)) = hs_deferred ?s" for r
    using session_Send_work [of ?s ?s e r] by (simp add: same_work_def)
  then show ?thesis by (auto simp: Deferred_Reset_def EndDeferredResponse_def Let_def split: option.split)
qed

lemma Deferred_Response_call_counted:
  assumes "counted app_io s" "i < length (hs_deferred s)"
  shows "counted app_io (Deferred_Response_call e T i call s)"
proof (cases "dr_response (hs_deferred s ! i)")
  case None
  then show ?thesis using assms(1) by (simp add: Deferred_Response_call_def counted_def live_def)
next
  case (Some r)
  obtain r' s' where c: "send_response_call e T call r s = (r', s')" by (cases "send_response_call e T call r s")
  have w: "same_work app_io s s'" using send_response_call_work [of s s e call r] c by simp
  have "length (filter dr_session ((hs_deferred s)[i := (hs_deferred s ! i)\<lparr>dr_response := Some r'\<rparr>])) = live s"
    using length_filter_update [OF assms(2), of dr_session "(hs_deferred s ! i)\<lparr>dr_response := Some r'\<rparr>"]
    by (auto simp: live_def split: if_splits)
  then show ?thesis using assms(1) w c Some by (simp add: Deferred_Response_call_def counted_def same_work_def live_def)
qed

lemma Deferred_move_counted:
  assumes "counted app_io s" "i < length (hs_deferred s)"
  shows "counted app_io (Deferred_move i s)"
proof -
  have "live (Deferred_move i s) = live s"
    using length_filter_update [OF assms(2), of dr_session "\<lparr>dr_session = False, dr_response = None\<rparr>"]
    by (auto simp: Deferred_move_def live_def split: if_splits)
  then show ?thesis using assms(1) by (simp add: counted_def) (simp add: Deferred_move_def)
qed

lemma Deferred_assign_counted:
  assumes "counted app_io s" "i < length (hs_deferred s)" "j < length (hs_deferred s)" "length (hs_deferred s) < 2 ^ 32"
  shows "counted app_io (Deferred_assign e T i j s)"
proof (cases "i = j")
  case True
  then show ?thesis using assms(1) by (simp add: Deferred_assign_def)
next
  case False
  let ?s = "Deferred_Reset e T False i s" and ?null = "\<lparr>dr_session = False, dr_response = None\<rparr>"
  have c: "counted app_io ?s" using assms by (intro Deferred_Reset_counted)
  have l: "length (hs_deferred ?s) = length (hs_deferred s)" by (rule Deferred_Reset_length)
  have i: "\<not> dr_session (hs_deferred ?s ! i)"
  proof -
    have "hs_deferred ?s = (hs_deferred s)[i := ?null]"
      by (auto simp: Deferred_Reset_def EndDeferredResponse_def Let_def split: option.split)
    then show ?thesis using assms(2) by simp
  qed
  let ?d = "(hs_deferred ?s)[i := hs_deferred ?s ! j]"
  have "length (filter dr_session ?d) = live ?s + (if dr_session (hs_deferred ?s ! j) then 1 else 0)"
    using length_filter_update [of i "hs_deferred ?s" dr_session "hs_deferred ?s ! j"] assms(2) l i by (simp add: live_def)
  moreover have "?d ! j = hs_deferred ?s ! j" using False by simp
  ultimately have "length (filter dr_session (?d[j := ?null])) = live ?s"
    using length_filter_update [of j ?d dr_session ?null] assms(3) l by (auto split: if_splits)
  then show ?thesis using c False by (simp add: Deferred_assign_def counted_def live_def Let_def)
qed

lemma run_deferred_op_counted:
  assumes "counted app_io s" "length (hs_deferred s) < 2 ^ 32"
  shows "counted app_io (run_deferred_op e T op s) \<and>
     length (hs_deferred (run_deferred_op e T op s)) \<le> Suc (length (hs_deferred s))"
proof (cases op)
  case DDefer
  then show ?thesis using assms(1)
    by (simp add: DeferredResponse_new_def BeginDeferredResponse_def counted_def live_def begin_io)
next
  case (DReset b i)
  then show ?thesis using assms by (simp add: Deferred_Reset_counted Deferred_Reset_length)
next
  case (DCall i call)
  have "length (hs_deferred (Deferred_Response_call e T i call s)) = length (hs_deferred s)"
    using send_response_call_work [of s s e call]
    by (auto simp: Deferred_Response_call_def same_work_def split: option.split prod.split) (metis snd_conv)
  then show ?thesis using DCall assms by (simp add: Deferred_Response_call_counted)
next
  case (DMove i)
  then show ?thesis using assms Deferred_move_counted [of s i] by (simp add: Deferred_move_def)
next
  case (DAssign i j)
  then show ?thesis using assms Deferred_assign_counted [of s i j e] by (simp add: Deferred_assign_def Deferred_Reset_length Let_def)
next
  case (DSend r)
  then show ?thesis using assms same_work_counted [OF session_Send_work [of s s e r]] session_Send_work [of s s e r]
    by (simp add: same_work_def)
next
  case DDrained
  then show ?thesis using assms same_work_counted [OF OnSocketDrained_work [of s e]] OnSocketDrained_work [of s e]
    by (simp add: same_work_def)
qed

lemma run_deferred_ops_counted:
  "counted app_io s \<Longrightarrow> length (hs_deferred s) + length ops < 2 ^ 32 \<Longrightarrow>
     counted app_io (fold (run_deferred_op e T) ops s) \<and>
     length (hs_deferred (fold (run_deferred_op e T) ops s)) \<le> length (hs_deferred s) + length ops"
proof (induction ops arbitrary: s)
  case (Cons op ops)
  let ?s = "run_deferred_op e T op s"
  have "length (hs_deferred s) < 2 ^ 32" using Cons.prems(2) by simp
  from run_deferred_op_counted [OF Cons.prems(1) this, of e op]
  have c: "counted app_io ?s" "length (hs_deferred ?s) \<le> Suc (length (hs_deferred s))" by simp_all
  have "length (hs_deferred ?s) + length ops < 2 ^ 32" using c(2) Cons.prems(2) by simp
  from Cons.IH [OF c(1) this] c(2) show ?case by simp
qed simp

end

section \<open>The session counts deferred responses\<close>

named_theorems keeps_app_io \<open>calls of the base class that leave the count of pending application work\<close>

lemma TryRelease_app_io [keeps_app_io]: "pending_app_io (TryRelease (base_app w) s) = pending_app_io s"
  by (simp add: TryRelease_def TryMarkClosedOnOwner_def base_app_def quiet_app_def Let_def)

lemma simple_app_io [keeps_app_io]:
  "pending_app_io (CompletePendingIo s) = pending_app_io s" "pending_app_io (BeginPendingIo s) = pending_app_io s"
  "pending_app_io (MarkDrainingOnOwner s) = pending_app_io s" "pending_app_io (ask s) = pending_app_io s"
  by (simp_all add: CompletePendingIo_def BeginPendingIo_def MarkDrainingOnOwner_def ask_def)

lemma cancel_recv_app_io [keeps_app_io]: "pending_app_io (cancel_recv e s) = pending_app_io s"
  by (auto simp: cancel_recv_def new_op_def prep_def Let_def keeps_app_io split: option.split)

lemma DisconnectOnOwner_app_io [keeps_app_io]: "pending_app_io (DisconnectOnOwner e (base_app w) s) = pending_app_io s"
  by (auto simp: DisconnectOnOwner_def TryBeginDisconnectOnOwner_def new_op_def prep_def Let_def keeps_app_io)

lemma RegisterRecv_app_io [keeps_app_io]: "pending_app_io (RegisterRecv e (base_app w) s) = pending_app_io s"
  by (auto simp: RegisterRecv_def new_op_def prep_def Let_def keeps_app_io)

lemma drain_paused_app_io [keeps_app_io]: "pending_app_io (drain_paused n (base_app w) s) = pending_app_io s"
  by (induction n "base_app w" s rule: drain_paused.induct)
    (auto simp: deliver_def base_app_def quiet_app_def split: list.split)

lemma UpdateBackpressure_app_io [keeps_app_io]: "pending_app_io (UpdateBackpressure e (base_app w) st s) = pending_app_io s"
proof -
  have q: "app_OnBackpressure (base_app w) b t = t" for b t by (simp add: base_app_def quiet_app_def)
  show ?thesis
    by (auto simp: UpdateBackpressure_def enter_backpressure_def leave_backpressure_def DrainPausedRecv_def now_def q
        Let_def keeps_app_io)
qed

lemma RegisterSend_app_io [keeps_app_io]: "pending_app_io (RegisterSend e (base_app w) s) = pending_app_io s"
  by (auto simp: RegisterSend_def SendBatch_def SendInFlightBatch_def new_op_def prep_def Let_def keeps_app_io
      split: prod.split)

interpretation work: counted_transport "session_transport e" "\<lambda>s. chars_of (accepted s)" "\<lambda>s. session_state s = kOpen" pending_app_io
  for e :: env
proof
  show "pending_app_io (snd (t_send (session_transport e) b t)) = pending_app_io t" for b t
    by (auto simp: session_transport_def SendOnOwner_def Let_def keeps_app_io split: prod.split)
qed (simp_all add: session_transport_def keeps_app_io BeginAppIo_def EndAppIo_def TryDisconnectAfterFlush_def Let_def)

section \<open>Which handler serves a request\<close>

text \<open>The reference: the best pattern with a handler for the method, and for \<open>HEAD\<close> also for \<open>GET\<close>.\<close>

definition lookup_handler :: "(HttpMethod \<times> string \<times> 'h RouteEntry) list \<Rightarrow> HttpMethod \<Rightarrow> string \<Rightarrow> 'h option" where
  "lookup_handler rs m path =
     (case find (\<lambda>ps. HasAnyHandler (table rs ps m)) (candidates (SplitPath path)) of
        None \<Rightarrow> None | Some ps \<Rightarrow> re_handler (table rs ps m))"

definition served :: "(HttpMethod \<times> string \<times> 'h RouteEntry) list \<Rightarrow> HttpMethod \<Rightarrow> string \<Rightarrow> 'h option" where
  "served rs m path =
     (case lookup_handler rs m path of
        Some h \<Rightarrow> Some h | None \<Rightarrow> if m = kHead then lookup_handler rs kGet path else None)"

definition known :: "(HttpMethod \<times> string \<times> 'h RouteEntry) list \<Rightarrow> string \<Rightarrow> bool" where
  "known rs path \<longleftrightarrow> (\<exists>ps \<in> set (candidates (SplitPath path)). \<exists>m. HasAnyHandler (table rs ps m))"

lemma Router_Match_served:
  assumes "length path \<le> 1 \<or> last path \<noteq> CHR ''/''" "ro_tree router = build rs"
  shows "\<exists>result. Router_Match m path router = Inr result \<and> rm_handler result = lookup_handler rs m path \<and>
     rm_path_exists result = known rs path"
proof -
  from Match_explored [OF assms(1), of m "build rs"] obtain res where
    r: "Match m path (build rs) = Inr res" "explored (build rs) m (candidates (SplitPath path)) no_match res" by blast
  show ?thesis using r(1) explored_exact [OF r(2)] assms(2)
    by (auto simp: Router_Match_def lookup_handler_def known_def route_of_build split: option.split)
qed

lemma match_request_served:
  assumes "length path \<le> 1 \<or> last path \<noteq> CHR ''/''" "ro_tree router = build rs"
  shows "\<exists>result. match_request m path router = Inr result \<and> rm_handler result = served rs m path \<and>
     rm_path_exists result = known rs path"
proof -
  obtain r where r: "Router_Match m path router = Inr r" "rm_handler r = lookup_handler rs m path" "rm_path_exists r = known rs path"
    using Router_Match_served [OF assms, of m] by blast
  obtain g where g: "Router_Match kGet path router = Inr g" "rm_handler g = lookup_handler rs kGet path" "rm_path_exists g = known rs path"
    using Router_Match_served [OF assms, of kGet] by blast
  show ?thesis using r g by (auto simp: match_request_def served_def split: option.split)
qed

lemma Send_response_sent:
  "Send_response date oks r = Inr (a, r') \<Longrightarrow> IsSent r' \<and> rs_status r' = rs_status r"
  by (auto simp: Send_response_def Build_response_def IsSent_def Let_def split: if_splits sum.splits option.splits)

lemma session_Send_sent:
  "IsSent (fst (session_Send e T r s)) \<and> rs_status (fst (session_Send e T r s)) = rs_status r"
  by (auto simp: session_Send_def Let_def IsSent_def [of "_\<lparr>rs_state := _\<rparr>"] dest: Send_response_sent
      split: sum.split send_action.split prod.split)

lemma reply_sent:
  "IsSent (rc_response (reply e T st body hs c)) \<and> rs_status (rc_response (reply e T st body hs c)) = st"
proof -
  have "rs_status (fold (\<lambda>(n, v). Header n v) hs r) = rs_status r" for r
    by (induction hs arbitrary: r) (auto simp: Header_def)
  then show ?thesis
    by (simp add: reply_def Let_def Body_def SetContentType_def SetStatus_def session_Send_sent split_beta')
qed

text \<open>The context a handler is called with.\<close>

definition prepared :: "(string \<times> string) list \<Rightarrow> ('t, 'h) RequestContext \<Rightarrow> ('t, 'h) RequestContext" where
  "prepared params c =
     (let c1 = (if req_method (rc_request c) = kHead then c\<lparr>rc_response := SuppressBody True (rc_response c)\<rparr> else c)
      in c1\<lparr>rc_request := SetParams params (rc_request c1)\<rparr>)"

section \<open>Properties\<close>


text \<open>A handler that always throws, and a \<open>HEAD\<close> request for a page registered for \<open>GET\<close>.\<close>

definition throwing :: "(unit Session, nat) handlers" where
  "throwing h chunk c = ([CallText ''x''], None)"

definition head_request :: "(unit Session, nat) RequestContext" where
  "head_request =
     \<lparr>rc_session = web0, rc_request = HttpRequest_new\<lparr>req_method := kHead, req_path := ''/a''\<rparr>,
      rc_response = HttpResponse_new True, rc_remote_addr = [], rc_request_id = []\<rparr>"


text \<open>
  C34: Deferred responses are counted exactly. Whatever is done with them (created, completed,
  aborted, destroyed, filled in, moved, assigned) and whatever else is sent, the counter of the HTTP
  session and the count of pending application work of the base class are the number of deferred
  responses still open, and with one open the session cannot be released.
\<close>

theorem deferred_counted:
  fixes ops :: "deferred_op list" and s :: "(unit Session, 'h) HttpSession"
  assumes "length ops < 2 ^ 32"
    "s = fold (run_deferred_op e (session_transport env)) ops (HttpSession_new timeout (Session_new n ()))"
  shows "unat (hs_async_work_count s) = live s \<and> pending_app_io (hs_base s) = live s \<and>
     (0 < live s \<longrightarrow> HasPendingAppWork s \<and> TryRelease a (hs_base s) = hs_base s)"
proof -
  let ?s0 = "HttpSession_new timeout (Session_new n ()) :: (unit Session, 'h) HttpSession"
  have "counted pending_app_io ?s0" "hs_deferred ?s0 = []"
    by (simp_all add: counted_def live_def HttpSession_new_def Session_new_def)
  with work.run_deferred_ops_counted [of ?s0 ops e env] assms
  have c: "counted pending_app_io s" "length (hs_deferred s) \<le> length ops" by simp_all
  have "live s \<le> length (hs_deferred s)" by (simp add: live_def)
  then have "live s < 2 ^ 32" using c(2) assms(1) by simp
  then have "unat (hs_async_work_count s) = live s" using c(1) unat_u32_of_nat by (simp add: counted_def)
  then show ?thesis using c(1) by (auto simp: counted_def HasPendingAppWork_def TryRelease_def)
qed

definition demo_deferred :: "(unit Session, nat) HttpSession" where
  "demo_deferred = fold (run_deferred_op ready_web (session_transport ready_env)) [DDefer, DDefer, DMove 0]
     (HttpSession_new 0 (Session_new 16 ()))"

theorem deferred_counted_witness:
  "unat (hs_async_work_count demo_deferred) = 2 \<and> pending_app_io (hs_base demo_deferred) = 2"
proof -
  have "live demo_deferred = 2"
    by (simp add: demo_deferred_def live_def Deferred_move_def DeferredResponse_new_def BeginDeferredResponse_def
        HttpSession_new_def Let_def)
  then show ?thesis using deferred_counted [OF _ demo_deferred_def] by simp
qed

end
