(* ===== verification/Http_Parser.thy ===== *)
theory Http_Parser
  imports Http_Request
begin

text \<open>
  \<^verbatim>\<open>src/modules/web/HttpParser.cpp\<close>: the callbacks that assemble a request from the events of the
  HTTP tokenizer, their limits, and the loop of \<open>Feed\<close>. The tokenizer (llhttp) is a parameter: for a
  state and an input it gives the events it would fire, each with the number of bytes consumed up to
  it and the state it leaves, and how the input ends. The three hooks the session installs are
  functions on the request and a state of type \<open>'s\<close>.
\<close>

section \<open>State\<close>

datatype HttpBodyMode = kBuffer | kDiscard | kStream

datatype HttpParseStatus = kParseOk | kParseBadRequest | kUrlTooLong | kHeadersTooLarge | kBodyTooLarge

record HttpParserOptions =
  max_url_bytes :: u32
  max_header_bytes :: u32
  max_body_bytes :: u32

definition HttpParserOptions_default :: HttpParserOptions where
  "HttpParserOptions_default =
     \<lparr>max_url_bytes = 8 * 1024, max_header_bytes = 32 * 1024, max_body_bytes = 10 * 1024 * 1024\<rparr>"

record HttpParser =
  pr_request :: HttpRequest
  pr_options :: HttpParserOptions
  pr_status :: HttpParseStatus
  pr_stop_requested :: bool
  pr_body_mode :: HttpBodyMode
  pr_header_bytes_used :: u32
  pr_body_bytes_seen :: u64
  pr_field :: string
  pr_value :: string
  pr_raw_url :: string

definition HttpParser_new :: "HttpParserOptions \<Rightarrow> HttpParser" where
  "HttpParser_new opts =
     \<lparr>pr_request = HttpRequest_new, pr_options = opts, pr_status = kParseOk, pr_stop_requested = False,
      pr_body_mode = kBuffer, pr_header_bytes_used = 0, pr_body_bytes_seen = 0, pr_field = [], pr_value = [],
      pr_raw_url = []\<rparr>"

record 's hooks =
  on_request_hook :: "(HttpRequest \<Rightarrow> 's \<Rightarrow> bool \<times> HttpRequest \<times> 's) option"
  on_headers_hook :: "(HttpRequest \<Rightarrow> 's \<Rightarrow> HttpBodyMode \<times> HttpRequest \<times> 's) option"
  on_body_hook :: "(HttpRequest \<Rightarrow> string \<Rightarrow> 's \<Rightarrow> bool \<times> HttpRequest \<times> 's) option"

datatype event =
    EvMessageBegin | EvUrl string | EvUrlComplete | EvHeaderField string | EvHeaderFieldComplete
  | EvHeaderValue string | EvHeaderValueComplete | EvHeadersComplete int bool | EvBody string | EvMessageComplete

text \<open>What a callback returns: 0, \<open>HPE_USER\<close> or \<open>HPE_PAUSED\<close>.\<close>

datatype callback_result = CbOk | CbUser | CbPaused

section \<open>Callbacks\<close>

definition HasError :: "HttpParser \<Rightarrow> bool" where
  "HasError p \<longleftrightarrow> pr_status p \<noteq> kParseOk"

definition Reset_parser :: "HttpParser \<Rightarrow> HttpParser" where
  "Reset_parser p =
     p\<lparr>pr_request := Clear_request (pr_request p), pr_field := [], pr_value := [], pr_raw_url := [],
       pr_status := kParseOk, pr_stop_requested := False, pr_body_mode := kBuffer,
       pr_header_bytes_used := 0, pr_body_bytes_seen := 0\<rparr>"

definition OnMessageBegin :: "HttpParser \<Rightarrow> callback_result \<times> HttpParser" where
  "OnMessageBegin p =
     (CbOk, p\<lparr>pr_request := Clear_request (pr_request p), pr_field := [], pr_value := [], pr_raw_url := [],
              pr_stop_requested := False, pr_body_mode := kBuffer,
              pr_header_bytes_used := 0, pr_body_bytes_seen := 0\<rparr>)"

definition OnUrl :: "string \<Rightarrow> HttpParser \<Rightarrow> callback_result \<times> HttpParser" where
  "OnUrl at p =
     (if length (pr_raw_url p) + length at > unat (max_url_bytes (pr_options p))
      then (CbUser, p\<lparr>pr_status := kUrlTooLong\<rparr>)
      else (CbOk, p\<lparr>pr_raw_url := pr_raw_url p @ at\<rparr>))"

definition ParseUrl :: "string \<Rightarrow> HttpRequest \<Rightarrow> HttpRequest" where
  "ParseUrl url r =
     (case cut_at CHR ''?'' url of
        (path, None) \<Rightarrow> r\<lparr>req_path := url, req_query := []\<rparr>
      | (path, Some query) \<Rightarrow> r\<lparr>req_path := path, req_query := query\<rparr>)"

definition OnUrlComplete :: "HttpParser \<Rightarrow> callback_result \<times> HttpParser" where
  "OnUrlComplete p = (CbOk, p\<lparr>pr_request := ParseUrl (pr_raw_url p) (pr_request p)\<rparr>)"

definition OnHeaderField :: "string \<Rightarrow> HttpParser \<Rightarrow> callback_result \<times> HttpParser" where
  "OnHeaderField at p =
     (if unat (pr_header_bytes_used p) + length at > unat (max_header_bytes (pr_options p))
      then (CbUser, p\<lparr>pr_status := kHeadersTooLarge\<rparr>)
      else (CbOk, p\<lparr>pr_header_bytes_used := pr_header_bytes_used p + of_nat (length at), pr_field := pr_field p @ at\<rparr>))"

definition OnHeaderFieldComplete :: "HttpParser \<Rightarrow> callback_result \<times> HttpParser" where
  "OnHeaderFieldComplete p = (CbOk, p)"

definition OnHeaderValue :: "string \<Rightarrow> HttpParser \<Rightarrow> callback_result \<times> HttpParser" where
  "OnHeaderValue at p =
     (if unat (pr_header_bytes_used p) + length at > unat (max_header_bytes (pr_options p))
      then (CbUser, p\<lparr>pr_status := kHeadersTooLarge\<rparr>)
      else (CbOk, p\<lparr>pr_header_bytes_used := pr_header_bytes_used p + of_nat (length at), pr_value := pr_value p @ at\<rparr>))"

definition OnHeaderValueComplete :: "HttpParser \<Rightarrow> callback_result \<times> HttpParser" where
  "OnHeaderValueComplete p =
     (CbOk, p\<lparr>pr_request := AddHeader (pr_field p) (pr_value p) (pr_request p), pr_field := [], pr_value := []\<rparr>)"

definition OnHeadersComplete ::
  "'s hooks \<Rightarrow> int \<Rightarrow> bool \<Rightarrow> HttpParser \<Rightarrow> 's \<Rightarrow> callback_result \<times> HttpParser \<times> 's" where
  "OnHeadersComplete h method keep_alive p s =
     (let r = (pr_request p)\<lparr>req_method := HttpMethodFromLlhttp method, req_keep_alive := keep_alive\<rparr>;
          (mode, r', s') = (case on_headers_hook h of None \<Rightarrow> (kBuffer, r, s) | Some f \<Rightarrow> f r s);
          p' = p\<lparr>pr_request := r', pr_body_mode := mode\<rparr>
      in if unat (ContentLength r') > unat (max_body_bytes (pr_options p'))
         then (CbUser, p'\<lparr>pr_status := kBodyTooLarge\<rparr>, s')
         else (CbOk, p', s'))"

definition OnBody :: "'s hooks \<Rightarrow> string \<Rightarrow> HttpParser \<Rightarrow> 's \<Rightarrow> callback_result \<times> HttpParser \<times> 's" where
  "OnBody h at p s =
     (if unat (pr_body_bytes_seen p) + length at > unat (max_body_bytes (pr_options p))
      then (CbUser, p\<lparr>pr_status := kBodyTooLarge\<rparr>, s)
      else let p1 = p\<lparr>pr_body_bytes_seen := pr_body_bytes_seen p + ucast (of_nat (length at) :: u32)\<rparr>
           in if pr_body_mode p1 = kBuffer
              then (CbOk, p1\<lparr>pr_request := (pr_request p1)\<lparr>req_body := req_body (pr_request p1) @ at\<rparr>\<rparr>, s)
              else case (if pr_body_mode p1 = kStream then on_body_hook h else None) of
                     None \<Rightarrow> (CbOk, p1, s)
                   | Some f \<Rightarrow>
                       (let (ok, r', s') = f (pr_request p1) at s; p2 = p1\<lparr>pr_request := r'\<rparr>
                        in if ok then (CbOk, p2, s') else (CbUser, p2\<lparr>pr_status := kParseBadRequest\<rparr>, s')))"

definition OnMessageComplete :: "'s hooks \<Rightarrow> HttpParser \<Rightarrow> 's \<Rightarrow> callback_result \<times> HttpParser \<times> 's" where
  "OnMessageComplete h p s =
     (case on_request_hook h of
        None \<Rightarrow> (CbPaused, p, s)
      | Some f \<Rightarrow>
          (let (should_continue, r', s') = f (pr_request p) s; p1 = p\<lparr>pr_request := r'\<rparr>
           in (CbPaused, if should_continue then p1 else p1\<lparr>pr_stop_requested := True\<rparr>, s')))"

fun callback :: "'s hooks \<Rightarrow> event \<Rightarrow> HttpParser \<Rightarrow> 's \<Rightarrow> callback_result \<times> HttpParser \<times> 's" where
  "callback h EvMessageBegin p s = (let (c, p') = OnMessageBegin p in (c, p', s))"
| "callback h (EvUrl at) p s = (let (c, p') = OnUrl at p in (c, p', s))"
| "callback h EvUrlComplete p s = (let (c, p') = OnUrlComplete p in (c, p', s))"
| "callback h (EvHeaderField at) p s = (let (c, p') = OnHeaderField at p in (c, p', s))"
| "callback h EvHeaderFieldComplete p s = (let (c, p') = OnHeaderFieldComplete p in (c, p', s))"
| "callback h (EvHeaderValue at) p s = (let (c, p') = OnHeaderValue at p in (c, p', s))"
| "callback h EvHeaderValueComplete p s = (let (c, p') = OnHeaderValueComplete p in (c, p', s))"
| "callback h (EvHeadersComplete m k) p s = OnHeadersComplete h m k p s"
| "callback h (EvBody at) p s = OnBody h at p s"
| "callback h EvMessageComplete p s = OnMessageComplete h p s"

section \<open>Feed\<close>

text \<open>
  \<open>llhttp_execute\<close> on one input: the callbacks run in order until one does not return 0. The result
  says where and in which tokenizer state that was.
\<close>

type_synonym 'l llhttp = "'l \<Rightarrow> string \<Rightarrow> (event \<times> nat \<times> 'l) list \<times> ('l + nat)"

datatype 'l exec_result = ExecOk 'l | ExecPaused nat 'l | ExecFailed nat

fun run_events ::
  "'s hooks \<Rightarrow> (event \<times> nat \<times> 'l) list \<Rightarrow> ('l + nat) \<Rightarrow> HttpParser \<Rightarrow> 's \<Rightarrow> 'l exec_result \<times> HttpParser \<times> 's" where
  "run_events h [] fin p s = (case fin of Inl l \<Rightarrow> ExecOk l | Inr pos \<Rightarrow> ExecFailed pos, p, s)"
| "run_events h ((ev, pos, l) # evs) fin p s =
     (case callback h ev p s of
        (CbOk, p', s') \<Rightarrow> run_events h evs fin p' s'
      | (CbPaused, p', s') \<Rightarrow> (ExecPaused pos l, p', s')
      | (CbUser, p', s') \<Rightarrow> (ExecFailed pos, p', s'))"

text \<open>The result of \<open>Feed\<close>: the number of bytes consumed and the new states. One unit of fuel per round.\<close>

fun Feed ::
  "nat \<Rightarrow> 'l llhttp \<Rightarrow> 's hooks \<Rightarrow> nat \<Rightarrow> string \<Rightarrow> 'l \<Rightarrow> HttpParser \<Rightarrow> 's \<Rightarrow> (nat \<times> 'l \<times> HttpParser \<times> 's) option" where
  "Feed 0 ll h consumed remaining l p s = None"
| "Feed (Suc fuel) ll h consumed remaining l p s =
     (if remaining = [] \<or> pr_status p \<noteq> kParseOk then Some (consumed, l, p, s)
      else let (evs, fin) = ll l remaining
           in case run_events h evs fin p s of
                (ExecOk l', p', s') \<Rightarrow> Some (consumed + length remaining, l', p', s')
              | (ExecPaused pos l', p', s') \<Rightarrow>
                  if pr_stop_requested p' then Some (consumed + pos, l', p', s')
                  else Feed fuel ll h (consumed + pos) (drop pos remaining) l' p' s'
              | (ExecFailed pos, p', s') \<Rightarrow>
                  Some (consumed + pos, l,
                        if pr_status p' = kParseOk then p'\<lparr>pr_status := kParseBadRequest\<rparr> else p', s'))"

section \<open>Limits\<close>

text \<open>Hooks may set the request id and the parameters, and nothing else of the request.\<close>

definition same_message :: "HttpRequest \<Rightarrow> HttpRequest \<Rightarrow> bool" where
  "same_message r r' \<longleftrightarrow> req_headers r' = req_headers r \<and> req_body r' = req_body r"

definition hooks_keep :: "'s hooks \<Rightarrow> bool" where
  "hooks_keep h \<longleftrightarrow>
     (\<forall>f r s. on_request_hook h = Some f \<longrightarrow> same_message r (fst (snd (f r s)))) \<and>
     (\<forall>f r s. on_headers_hook h = Some f \<longrightarrow> same_message r (fst (snd (f r s)))) \<and>
     (\<forall>f r a s. on_body_hook h = Some f \<longrightarrow> same_message r (fst (snd (f r a s))))"

definition header_size :: "(string \<times> string) list \<Rightarrow> nat" where
  "header_size hs = sum_list (map (\<lambda>(n, v). length n + length v) hs)"

definition within_limits :: "HttpParser \<Rightarrow> bool" where
  "within_limits p \<longleftrightarrow>
     length (pr_raw_url p) \<le> unat (max_url_bytes (pr_options p)) \<and>
     unat (pr_header_bytes_used p) =
       header_size (req_headers (pr_request p)) + length (pr_field p) + length (pr_value p) \<and>
     unat (pr_header_bytes_used p) \<le> unat (max_header_bytes (pr_options p)) \<and>
     length (req_body (pr_request p)) \<le> unat (pr_body_bytes_seen p) \<and>
     unat (pr_body_bytes_seen p) \<le> unat (max_body_bytes (pr_options p))"

lemma unat_add_small32:
  "unat (a :: u32) + n \<le> unat (b :: u32) \<Longrightarrow> unat (a + of_nat n) = unat a + n"
proof -
  assume "unat a + n \<le> unat b"
  then have "unat a + n < 2 ^ 32" using unat_u32_lt [of b] by simp
  then have "unat (of_nat n :: u32) = n" by (simp add: unat_u32_of_nat)
  with \<open>unat a + n < 2 ^ 32\<close> show ?thesis by (simp add: unat_u32_plus)
qed

lemma unat_add_small64:
  assumes "unat (a :: u64) + n \<le> unat (b :: u32)"
  shows "unat (a + ucast (of_nat n :: u32)) = unat a + n"
proof -
  have "unat a + n < 2 ^ 32" using assms unat_u32_lt [of b] by simp
  then have n: "unat (of_nat n :: u32) = n" "unat a + n < 2 ^ 64" by (simp_all add: unat_u32_of_nat)
  then show ?thesis unfolding unat_word_ariths unat_ucast_u32_u64 by simp
qed

lemma OnHeadersComplete_keeps:
  assumes "hooks_keep h" "OnHeadersComplete h m k p s = (c, p', s')"
  shows "same_message (pr_request p) (pr_request p')"
    "pr_options p' = pr_options p" "pr_raw_url p' = pr_raw_url p" "pr_header_bytes_used p' = pr_header_bytes_used p"
    "pr_body_bytes_seen p' = pr_body_bytes_seen p" "pr_field p' = pr_field p" "pr_value p' = pr_value p"
proof -
  let ?r = "(pr_request p)\<lparr>req_method := HttpMethodFromLlhttp m, req_keep_alive := k\<rparr>"
  obtain mode r' s'' where
    f: "(case on_headers_hook h of None \<Rightarrow> (kBuffer, ?r, s) | Some f \<Rightarrow> f ?r s) = (mode, r', s'')"
    by (metis prod_cases3)
  have "same_message ?r r'"
  proof (cases "on_headers_hook h")
    case None
    then show ?thesis using f by (simp add: same_message_def)
  next
    case (Some g)
    then have "g ?r s = (mode, r', s'')" using f by simp
    moreover have "same_message ?r (fst (snd (g ?r s)))" using assms(1) Some unfolding hooks_keep_def by blast
    ultimately show ?thesis by simp
  qed
  then have r: "same_message (pr_request p) r'" by (simp add: same_message_def)
  have "p' = p\<lparr>pr_request := r', pr_body_mode := mode\<rparr> \<or>
        p' = p\<lparr>pr_request := r', pr_body_mode := mode, pr_status := kBodyTooLarge\<rparr>"
    using assms(2) unfolding OnHeadersComplete_def Let_def f by (auto split: if_splits)
  then show "same_message (pr_request p) (pr_request p')"
    "pr_options p' = pr_options p" "pr_raw_url p' = pr_raw_url p" "pr_header_bytes_used p' = pr_header_bytes_used p"
    "pr_body_bytes_seen p' = pr_body_bytes_seen p" "pr_field p' = pr_field p" "pr_value p' = pr_value p"
    using r by auto
qed

lemma OnMessageComplete_keeps:
  assumes "hooks_keep h" "OnMessageComplete h p s = (c, p', s')"
  shows "\<exists>r b. p' = p\<lparr>pr_request := r, pr_stop_requested := b\<rparr> \<and> same_message (pr_request p) r \<and> c = CbPaused"
proof (cases "on_request_hook h")
  case None
  then have "p' = p\<lparr>pr_request := pr_request p, pr_stop_requested := pr_stop_requested p\<rparr> \<and> c = CbPaused"
    using assms(2) by (simp add: OnMessageComplete_def)
  moreover have "same_message (pr_request p) (pr_request p)" by (simp add: same_message_def)
  ultimately show ?thesis by blast
next
  case (Some f)
  obtain ok r s'' where f: "f (pr_request p) s = (ok, r, s'')" by (metis prod_cases3)
  have "same_message (pr_request p) (fst (snd (f (pr_request p) s)))" using assms(1) Some unfolding hooks_keep_def by blast
  then have "same_message (pr_request p) r" using f by simp
  moreover have "p' = p\<lparr>pr_request := r, pr_stop_requested := (if ok then pr_stop_requested p else True)\<rparr> \<and> c = CbPaused"
    using assms(2) Some f by (auto simp: OnMessageComplete_def)
  ultimately show ?thesis by blast
qed

lemma OnBody_limits:
  assumes "hooks_keep h" "within_limits p" "OnBody h at p s = (c, p', s')"
  shows "within_limits p' \<and> pr_options p' = pr_options p"
proof (cases "unat (pr_body_bytes_seen p) + length at > unat (max_body_bytes (pr_options p))")
  case True
  then show ?thesis using assms(2,3) by (auto simp: OnBody_def within_limits_def)
next
  case False
  let ?p1 = "p\<lparr>pr_body_bytes_seen := pr_body_bytes_seen p + ucast (of_nat (length at) :: u32)\<rparr>"
  have seen: "unat (pr_body_bytes_seen ?p1) = unat (pr_body_bytes_seen p) + length at"
    using False unat_add_small64 [of "pr_body_bytes_seen p" "length at" "max_body_bytes (pr_options p)"] by simp
  have w1: "within_limits ?p1" using assms(2) False seen by (auto simp: within_limits_def)
  show ?thesis
  proof (cases "pr_body_mode p = kBuffer \<or> on_body_hook h = None \<or> pr_body_mode p \<noteq> kStream")
    case True
    then have "p' = ?p1 \<or> p' = ?p1\<lparr>pr_request := (pr_request ?p1)\<lparr>req_body := req_body (pr_request ?p1) @ at\<rparr>\<rparr>"
      using assms(3) False by (auto simp: OnBody_def Let_def split: if_splits)
    then show ?thesis using w1 assms(2) seen False by (auto simp: within_limits_def)
  next
    case nb: False
    then obtain f where f: "on_body_hook h = Some f" by auto
    obtain ok r s'' where g: "f (pr_request p) at s = (ok, r, s'')" by (metis prod_cases3)
    have "same_message (pr_request p) (fst (snd (f (pr_request p) at s)))" using assms(1) f unfolding hooks_keep_def by blast
    then have r: "same_message (pr_request p) r" using g by simp
    have "p' = ?p1\<lparr>pr_request := r\<rparr> \<or> p' = ?p1\<lparr>pr_request := r, pr_status := kParseBadRequest\<rparr>"
      using assms(3) False nb f g by (auto simp: OnBody_def Let_def split: if_splits)
    then show ?thesis using w1 r by (auto simp: within_limits_def same_message_def)
  qed
qed

lemma callback_limits:
  assumes "hooks_keep h" "within_limits p" "callback h ev p s = (c, p', s')"
  shows "within_limits p' \<and> pr_options p' = pr_options p"
proof (cases ev)
  case EvMessageBegin
  then show ?thesis using assms(2,3)
    by (auto simp: OnMessageBegin_def Let_def within_limits_def Clear_request_def header_size_def)
next
  case (EvUrl at)
  then show ?thesis using assms(2,3) by (auto simp: OnUrl_def within_limits_def split: if_splits)
next
  case EvUrlComplete
  then show ?thesis using assms(2,3)
    by (auto simp: OnUrlComplete_def Let_def within_limits_def ParseUrl_def split: prod.splits option.splits)
next
  case (EvHeaderField at)
  then show ?thesis using assms(2,3)
    by (auto simp: OnHeaderField_def within_limits_def unat_add_small32 not_less split: if_splits)
next
  case EvHeaderFieldComplete
  then show ?thesis using assms(2,3) by (auto simp: OnHeaderFieldComplete_def)
next
  case (EvHeaderValue at)
  then show ?thesis using assms(2,3)
    by (auto simp: OnHeaderValue_def within_limits_def unat_add_small32 not_less split: if_splits)
next
  case EvHeaderValueComplete
  then show ?thesis using assms(2,3)
    by (auto simp: OnHeaderValueComplete_def within_limits_def AddHeader_def header_size_def)
next
  case (EvHeadersComplete m k)
  then have "OnHeadersComplete h m k p s = (c, p', s')" using assms(3) by simp
  from OnHeadersComplete_keeps [OF assms(1) this] show ?thesis
    using assms(2) by (simp add: within_limits_def same_message_def)
next
  case (EvBody at)
  then show ?thesis using assms(3) OnBody_limits [OF assms(1,2)] by simp
next
  case EvMessageComplete
  then have "OnMessageComplete h p s = (c, p', s')" using assms(3) by simp
  from OnMessageComplete_keeps [OF assms(1) this] show ?thesis
    using assms(2) by (auto simp: within_limits_def same_message_def)
qed

section \<open>Assembling a message\<close>

text \<open>
  A message as the tokenizer cuts it: every text in pieces. Its events in order, and the request
  head and body they stand for, in which the cuts do not matter.
\<close>

record message =
  m_method :: int
  m_keep_alive :: bool
  m_url :: "string list"
  m_headers :: "(string list \<times> string list) list"
  m_body :: "string list"

definition header_events :: "string list \<times> string list \<Rightarrow> event list" where
  "header_events f =
     map EvHeaderField (fst f) @ EvHeaderFieldComplete # map EvHeaderValue (snd f) @ [EvHeaderValueComplete]"

definition message_events :: "message \<Rightarrow> event list" where
  "message_events m =
     EvMessageBegin # map EvUrl (m_url m) @ EvUrlComplete # concat (map header_events (m_headers m)) @
     EvHeadersComplete (m_method m) (m_keep_alive m) # map EvBody (m_body m) @ [EvMessageComplete]"

definition header_of :: "string list \<times> string list \<Rightarrow> string \<times> string" where
  "header_of f = (concat (fst f), concat (snd f))"

definition head_of :: "message \<Rightarrow> HttpRequest" where
  "head_of m =
     (ParseUrl (concat (m_url m)) HttpRequest_new)
       \<lparr>req_headers := map header_of (m_headers m), req_method := HttpMethodFromLlhttp (m_method m),
        req_keep_alive := m_keep_alive m\<rparr>"

definition headers_hook :: "'s hooks \<Rightarrow> HttpRequest \<Rightarrow> 's \<Rightarrow> HttpBodyMode \<times> HttpRequest \<times> 's" where
  "headers_hook h r s = (case on_headers_hook h of None \<Rightarrow> (kBuffer, r, s) | Some f \<Rightarrow> f r s)"

text \<open>The callbacks of a list of events, without the tokenizer's positions.\<close>

fun run_cb :: "'s hooks \<Rightarrow> event list \<Rightarrow> HttpParser \<Rightarrow> 's \<Rightarrow> callback_result \<times> HttpParser \<times> 's" where
  "run_cb h [] p s = (CbOk, p, s)"
| "run_cb h (ev # evs) p s =
     (case callback h ev p s of (CbOk, p', s') \<Rightarrow> run_cb h evs p' s' | x \<Rightarrow> x)"

lemma run_cb_append:
  "run_cb h (xs @ ys) p s = (case run_cb h xs p s of (CbOk, p', s') \<Rightarrow> run_cb h ys p' s' | x \<Rightarrow> x)"
  by (induction h xs p s rule: run_cb.induct) (auto split: prod.splits callback_result.splits)

lemma run_events_run_cb:
  "run_cb h (map fst evs) p s = (c, p', s') \<Longrightarrow>
     \<exists>res. run_events h evs fin p s = (res, p', s') \<and>
       (c = CbPaused \<longrightarrow> (\<exists>pos l. res = ExecPaused pos l)) \<and> (c = CbUser \<longrightarrow> (\<exists>pos. res = ExecFailed pos))"
  by (induction evs arbitrary: p s) (auto split: prod.splits callback_result.splits sum.splits)

definition rejected :: "HttpParseStatus \<Rightarrow> 's \<Rightarrow> callback_result \<times> HttpParser \<times> 's \<Rightarrow> bool" where
  "rejected st s x \<longleftrightarrow> fst x = CbUser \<and> pr_status (fst (snd x)) = st \<and> snd (snd x) = s"

lemma rejected_append: "rejected st s (run_cb h xs p t) \<Longrightarrow> rejected st s (run_cb h (xs @ ys) p t)"
  by (auto simp: rejected_def run_cb_append split: prod.splits callback_result.splits)

lemma run_urls:
  "length (pr_raw_url p) + length (concat xs) \<le> unat (max_url_bytes (pr_options p)) \<Longrightarrow>
     run_cb h (map EvUrl xs) p s = (CbOk, p\<lparr>pr_raw_url := pr_raw_url p @ concat xs\<rparr>, s)"
  by (induction xs arbitrary: p) (auto simp: OnUrl_def)

lemma run_urls_reject:
  "length (pr_raw_url p) \<le> unat (max_url_bytes (pr_options p)) \<Longrightarrow>
   length (pr_raw_url p) + length (concat xs) > unat (max_url_bytes (pr_options p)) \<Longrightarrow>
     rejected kUrlTooLong s (run_cb h (map EvUrl xs) p s)"
  by (induction xs arbitrary: p) (auto simp: OnUrl_def rejected_def)

abbreviation header_room :: "nat \<Rightarrow> HttpParser \<Rightarrow> bool" where
  "header_room n p \<equiv> unat (pr_header_bytes_used p) + n \<le> unat (max_header_bytes (pr_options p))"

lemma run_fields:
  "header_room (length (concat xs)) p \<Longrightarrow>
     run_cb h (map EvHeaderField xs) p s =
       (CbOk, p\<lparr>pr_header_bytes_used := pr_header_bytes_used p + of_nat (length (concat xs)), pr_field := pr_field p @ concat xs\<rparr>, s)"
proof (induction xs arbitrary: p)
  case (Cons x xs)
  have "header_room (length x) p" using Cons.prems by simp
  from unat_add_small32 [OF this] show ?case using Cons.prems
    by (auto simp: OnHeaderField_def Cons.IH add.assoc)
qed simp

lemma run_values:
  "header_room (length (concat xs)) p \<Longrightarrow>
     run_cb h (map EvHeaderValue xs) p s =
       (CbOk, p\<lparr>pr_header_bytes_used := pr_header_bytes_used p + of_nat (length (concat xs)), pr_value := pr_value p @ concat xs\<rparr>, s)"
proof (induction xs arbitrary: p)
  case (Cons x xs)
  have "header_room (length x) p" using Cons.prems by simp
  from unat_add_small32 [OF this] show ?case using Cons.prems
    by (auto simp: OnHeaderValue_def Cons.IH add.assoc)
qed simp

lemma run_fields_reject:
  "header_room 0 p \<Longrightarrow> \<not> header_room (length (concat xs)) p \<Longrightarrow>
     rejected kHeadersTooLarge s (run_cb h (map EvHeaderField xs) p s)"
proof (induction xs arbitrary: p)
  case (Cons x xs)
  show ?case
  proof (cases "header_room (length x) p")
    case True
    from unat_add_small32 [OF this] True show ?thesis using Cons.prems by (simp add: OnHeaderField_def Cons.IH)
  qed (simp add: OnHeaderField_def rejected_def)
qed simp

lemma run_values_reject:
  "header_room 0 p \<Longrightarrow> \<not> header_room (length (concat xs)) p \<Longrightarrow>
     rejected kHeadersTooLarge s (run_cb h (map EvHeaderValue xs) p s)"
proof (induction xs arbitrary: p)
  case (Cons x xs)
  show ?case
  proof (cases "header_room (length x) p")
    case True
    from unat_add_small32 [OF this] True show ?thesis using Cons.prems by (simp add: OnHeaderValue_def Cons.IH)
  qed (simp add: OnHeaderValue_def rejected_def)
qed simp

definition field_size :: "string list \<times> string list \<Rightarrow> nat" where
  "field_size f = length (concat (fst f)) + length (concat (snd f))"

definition with_headers :: "(string list \<times> string list) list \<Rightarrow> HttpParser \<Rightarrow> HttpParser" where
  "with_headers fs p =
     p\<lparr>pr_header_bytes_used := pr_header_bytes_used p + of_nat (sum_list (map field_size fs)),
       pr_request := (pr_request p)\<lparr>req_headers := req_headers (pr_request p) @ map header_of fs\<rparr>\<rparr>"

lemma run_header:
  assumes "header_room (field_size f) p" "pr_field p = []" "pr_value p = []"
  shows "run_cb h (header_events f) p s = (CbOk, with_headers [f] p, s)"
proof -
  let ?a = "length (concat (fst f))" and ?b = "length (concat (snd f))"
  let ?p = "p\<lparr>pr_header_bytes_used := pr_header_bytes_used p + of_nat ?a, pr_field := concat (fst f)\<rparr>"
  have a: "header_room ?a p" using assms(1) by (simp add: field_size_def)
  have b: "header_room ?b ?p" using assms(1) unat_add_small32 [OF a] by (simp add: field_size_def)
  have e: "p\<lparr>pr_field := [], pr_value := []\<rparr> = p" using assms(2,3) by (cases p) simp
  have "run_cb h (header_events f) p s =
      (CbOk, (p\<lparr>pr_field := [], pr_value := []\<rparr>)\<lparr>pr_header_bytes_used := pr_header_bytes_used p + of_nat (?a + ?b),
        pr_request := AddHeader (concat (fst f)) (concat (snd f)) (pr_request p)\<rparr>, s)"
    using run_fields [OF a, of h s] run_values [OF b, of h s] assms(2,3)
    by (simp add: header_events_def run_cb_append OnHeaderFieldComplete_def OnHeaderValueComplete_def add.assoc)
  then show ?thesis unfolding e by (simp add: with_headers_def field_size_def header_of_def AddHeader_def)
qed

lemma run_header_reject:
  assumes "header_room 0 p" "\<not> header_room (field_size f) p"
  shows "rejected kHeadersTooLarge s (run_cb h (header_events f) p s)"
proof (cases "header_room (length (concat (fst f))) p")
  case True
  let ?p = "p\<lparr>pr_header_bytes_used := pr_header_bytes_used p + of_nat (length (concat (fst f))),
              pr_field := pr_field p @ concat (fst f)\<rparr>"
  have "header_room 0 ?p" "\<not> header_room (length (concat (snd f))) ?p"
    using assms unat_add_small32 [OF True] True by (simp_all add: field_size_def)
  from rejected_append [OF run_values_reject [OF this, of s h]] show ?thesis
    using run_fields [OF True, of h s] by (simp add: header_events_def run_cb_append OnHeaderFieldComplete_def)
next
  case False
  from rejected_append [OF run_fields_reject [OF assms(1) False]] show ?thesis by (simp add: header_events_def)
qed

lemma run_headers:
  "header_room (sum_list (map field_size fs)) p \<Longrightarrow> pr_field p = [] \<Longrightarrow> pr_value p = [] \<Longrightarrow>
     run_cb h (concat (map header_events fs)) p s = (CbOk, with_headers fs p, s)"
proof (induction fs arbitrary: p)
  case Nil
  then show ?case by (simp add: with_headers_def)
next
  case (Cons f fs)
  have f: "header_room (field_size f) p" using Cons.prems by simp
  have "header_room (sum_list (map field_size fs)) (with_headers [f] p)"
    "pr_field (with_headers [f] p) = []" "pr_value (with_headers [f] p) = []"
    using Cons.prems unat_add_small32 [OF f] by (simp_all add: with_headers_def)
  from Cons.IH [OF this] have "run_cb h (concat (map header_events (f # fs))) p s = (CbOk, with_headers fs (with_headers [f] p), s)"
    using run_header [OF f Cons.prems(2,3), of h s] by (simp add: run_cb_append)
  then show ?case by (simp add: with_headers_def add.assoc)
qed

lemma run_headers_reject:
  "header_room 0 p \<Longrightarrow> pr_field p = [] \<Longrightarrow> pr_value p = [] \<Longrightarrow> \<not> header_room (sum_list (map field_size fs)) p \<Longrightarrow>
     rejected kHeadersTooLarge s (run_cb h (concat (map header_events fs)) p s)"
proof (induction fs arbitrary: p)
  case (Cons f fs)
  show ?case
  proof (cases "header_room (field_size f) p")
    case True
    have "header_room 0 (with_headers [f] p)" "pr_field (with_headers [f] p) = []" "pr_value (with_headers [f] p) = []"
      "\<not> header_room (sum_list (map field_size fs)) (with_headers [f] p)"
      using Cons.prems unat_add_small32 [OF True] True by (simp_all add: with_headers_def)
    from Cons.IH [OF this] show ?thesis
      using run_header [OF True Cons.prems(2,3), of h s] by (simp add: run_cb_append)
  next
    case False
    from rejected_append [OF run_header_reject [OF Cons.prems(1) False]] show ?thesis by simp
  qed
qed simp

abbreviation body_room :: "nat \<Rightarrow> HttpParser \<Rightarrow> bool" where
  "body_room n p \<equiv> unat (pr_body_bytes_seen p) + n \<le> unat (max_body_bytes (pr_options p))"

lemma run_body:
  "body_room (length (concat xs)) p \<Longrightarrow> pr_body_mode p = kBuffer \<Longrightarrow>
     \<exists>n. run_cb h (map EvBody xs) p s =
       (CbOk, p\<lparr>pr_body_bytes_seen := n, pr_request := (pr_request p)\<lparr>req_body := req_body (pr_request p) @ concat xs\<rparr>\<rparr>, s)"
proof (induction xs arbitrary: p)
  case Nil
  have "p = p\<lparr>pr_body_bytes_seen := pr_body_bytes_seen p, pr_request := (pr_request p)\<lparr>req_body := req_body (pr_request p)\<rparr>\<rparr>"
    by simp
  then show ?case unfolding list.map run_cb.simps concat.simps append_Nil2 by blast
next
  case (Cons x xs)
  let ?p = "p\<lparr>pr_body_bytes_seen := pr_body_bytes_seen p + ucast (of_nat (length x) :: u32),
              pr_request := (pr_request p)\<lparr>req_body := req_body (pr_request p) @ x\<rparr>\<rparr>"
  have x: "body_room (length x) p" using Cons.prems(1) by simp
  have "body_room (length (concat xs)) ?p" "pr_body_mode ?p = kBuffer"
    using Cons.prems unat_add_small64 [OF x] by simp_all
  from Cons.IH [OF this] obtain n where "run_cb h (map EvBody xs) ?p s =
      (CbOk, ?p\<lparr>pr_body_bytes_seen := n, pr_request := (pr_request ?p)\<lparr>req_body := req_body (pr_request ?p) @ concat xs\<rparr>\<rparr>, s)"
    by blast
  then show ?case using x Cons.prems(2) by (auto simp: OnBody_def not_less)
qed

lemma run_body_reject:
  "body_room 0 p \<Longrightarrow> pr_body_mode p = kBuffer \<Longrightarrow> \<not> body_room (length (concat xs)) p \<Longrightarrow>
     rejected kBodyTooLarge s (run_cb h (map EvBody xs) p s)"
proof (induction xs arbitrary: p)
  case (Cons x xs)
  show ?case
  proof (cases "body_room (length x) p")
    case True
    from unat_add_small64 [OF True] True show ?thesis using Cons.prems by (simp add: OnBody_def Cons.IH)
  qed (simp add: OnBody_def rejected_def)
qed simp

lemma Clear_request_new: "Clear_request r = HttpRequest_new"
  by (simp add: Clear_request_def HttpRequest_new_def)

text \<open>The parser after the start of a message, after the request line and after the header fields.\<close>

definition started :: "HttpParser \<Rightarrow> HttpParser" where
  "started p = snd (OnMessageBegin p)"

definition at_headers :: "message \<Rightarrow> HttpParser \<Rightarrow> HttpParser" where
  "at_headers m p =
     (started p)\<lparr>pr_raw_url := concat (m_url m), pr_request := ParseUrl (concat (m_url m)) HttpRequest_new\<rparr>"

lemma started_simps [simp]:
  "pr_options (started p) = pr_options p" "pr_raw_url (started p) = []" "pr_field (started p) = []"
  "pr_value (started p) = []" "pr_header_bytes_used (started p) = 0" "pr_body_bytes_seen (started p) = 0"
  "pr_status (started p) = pr_status p" "pr_request (started p) = HttpRequest_new" "\<not> pr_stop_requested (started p)"
  by (simp_all add: started_def OnMessageBegin_def Clear_request_new)

lemma ParseUrl_new [simp]: "req_headers (ParseUrl u HttpRequest_new) = []"
  by (auto simp: ParseUrl_def HttpRequest_new_def split: prod.split option.split)

lemma run_message_head:
  assumes "length (concat (m_url m)) \<le> unat (max_url_bytes (pr_options p))"
    "sum_list (map field_size (m_headers m)) \<le> unat (max_header_bytes (pr_options p))"
  shows "run_cb h (message_events m) p s =
     run_cb h (EvHeadersComplete (m_method m) (m_keep_alive m) # map EvBody (m_body m) @ [EvMessageComplete])
       (with_headers (m_headers m) (at_headers m p)) s"
proof -
  have u: "run_cb h (map EvUrl (m_url m)) (started p) s = (CbOk, (started p)\<lparr>pr_raw_url := concat (m_url m)\<rparr>, s)"
    using run_urls [of "started p" "m_url m" h s] assms(1) by simp
  have f: "run_cb h (concat (map header_events (m_headers m))) (at_headers m p) s =
      (CbOk, with_headers (m_headers m) (at_headers m p), s)"
    by (rule run_headers) (use assms(2) in \<open>simp_all add: at_headers_def\<close>)
  have "callback h EvMessageBegin p s = (CbOk, started p, s)" by (simp add: started_def OnMessageBegin_def)
  moreover have "callback h EvUrlComplete ((started p)\<lparr>pr_raw_url := concat (m_url m)\<rparr>) s = (CbOk, at_headers m p, s)"
    by (simp add: OnUrlComplete_def at_headers_def)
  ultimately show ?thesis
    by (simp add: message_events_def run_cb_append u f del: callback.simps)
qed

lemma run_message_head_reject:
  assumes "length (concat (m_url m)) \<le> unat (max_url_bytes (pr_options p)) \<Longrightarrow>
      st = kHeadersTooLarge \<and> sum_list (map field_size (m_headers m)) > unat (max_header_bytes (pr_options p))"
    "length (concat (m_url m)) > unat (max_url_bytes (pr_options p)) \<Longrightarrow> st = kUrlTooLong"
  shows "rejected st s (run_cb h (message_events m) p s)"
proof (cases "length (concat (m_url m)) > unat (max_url_bytes (pr_options p))")
  case True
  then have "rejected kUrlTooLong s (run_cb h (map EvUrl (m_url m)) (started p) s)"
    using run_urls_reject [of "started p" "m_url m" s h] by simp
  from rejected_append [OF this] True assms(2) show ?thesis
    by (simp add: message_events_def started_def OnMessageBegin_def)
next
  case False
  have u: "run_cb h (map EvUrl (m_url m)) (started p) s = (CbOk, (started p)\<lparr>pr_raw_url := concat (m_url m)\<rparr>, s)"
    using run_urls [of "started p" "m_url m" h s] False by simp
  have "rejected kHeadersTooLarge s (run_cb h (concat (map header_events (m_headers m))) (at_headers m p) s)"
    by (rule run_headers_reject) (use False assms(1) in \<open>simp_all add: at_headers_def\<close>)
  note f = rejected_append [OF this]
  have "callback h EvMessageBegin p s = (CbOk, started p, s)" by (simp add: started_def OnMessageBegin_def)
  moreover have "callback h EvUrlComplete ((started p)\<lparr>pr_raw_url := concat (m_url m)\<rparr>) s = (CbOk, at_headers m p, s)"
    by (simp add: OnUrlComplete_def at_headers_def)
  moreover have "run_cb h (map EvUrl (m_url m) @ ys) (started p) s = run_cb h ys ((started p)\<lparr>pr_raw_url := concat (m_url m)\<rparr>) s" for ys
    by (simp add: run_cb_append u)
  ultimately show ?thesis using False assms(1) f by (simp add: message_events_def del: callback.simps)
qed

lemma run_message_complete: "run_cb h [EvMessageComplete] p s = OnMessageComplete h p s"
  by (auto split: prod.splits callback_result.splits)

lemma run_message_body:
  assumes "headers_hook h (head_of m) s = (kBuffer, r, s1)" "q = with_headers (m_headers m) (at_headers m p)"
  shows "if unat (ContentLength r) > unat (max_body_bytes (pr_options p)) \<or>
            length (concat (m_body m)) > unat (max_body_bytes (pr_options p))
         then rejected kBodyTooLarge s1
           (run_cb h (EvHeadersComplete (m_method m) (m_keep_alive m) # map EvBody (m_body m) @ [EvMessageComplete]) q s)
         else \<exists>n. run_cb h (EvHeadersComplete (m_method m) (m_keep_alive m) # map EvBody (m_body m) @ [EvMessageComplete]) q s =
           OnMessageComplete h (q\<lparr>pr_body_mode := kBuffer, pr_body_bytes_seen := n,
             pr_request := r\<lparr>req_body := req_body r @ concat (m_body m)\<rparr>\<rparr>) s1"
proof -
  let ?q = "q\<lparr>pr_body_mode := kBuffer, pr_request := r\<rparr>"
  have q: "(pr_request q)\<lparr>req_method := HttpMethodFromLlhttp (m_method m), req_keep_alive := m_keep_alive m\<rparr> = head_of m"
    "pr_options q = pr_options p" "pr_body_bytes_seen q = 0"
    by (simp_all add: assms(2) with_headers_def at_headers_def head_of_def)
  have c: "callback h (EvHeadersComplete (m_method m) (m_keep_alive m)) q s =
      (if unat (ContentLength r) > unat (max_body_bytes (pr_options p))
       then (CbUser, ?q\<lparr>pr_status := kBodyTooLarge\<rparr>, s1) else (CbOk, ?q, s1))"
    using assms(1) unfolding headers_hook_def callback.simps OnHeadersComplete_def Let_def q by (simp add: q)
  show ?thesis
  proof (cases "unat (ContentLength r) > unat (max_body_bytes (pr_options p))")
    case True
    then show ?thesis by (simp add: c rejected_def del: callback.simps)
  next
    case False
    then have c: "callback h (EvHeadersComplete (m_method m) (m_keep_alive m)) q s = (CbOk, ?q, s1)" using c by simp
    show ?thesis
    proof (cases "length (concat (m_body m)) > unat (max_body_bytes (pr_options p))")
      case True
      then have "rejected kBodyTooLarge s1 (run_cb h (map EvBody (m_body m)) ?q s1)"
        using q by (intro run_body_reject) simp_all
      from rejected_append [OF this] True show ?thesis by (simp add: c del: callback.simps(8))
    next
      case small: False
      then have "body_room (length (concat (m_body m))) ?q" "pr_body_mode ?q = kBuffer" using q by simp_all
      from run_body [OF this, of h s1] obtain n where "run_cb h (map EvBody (m_body m)) ?q s1 =
          (CbOk, q\<lparr>pr_body_mode := kBuffer, pr_body_bytes_seen := n,
             pr_request := r\<lparr>req_body := req_body r @ concat (m_body m)\<rparr>\<rparr>, s1)" by auto
      then have "run_cb h (map EvBody (m_body m) @ [EvMessageComplete]) ?q s1 =
          OnMessageComplete h (q\<lparr>pr_body_mode := kBuffer, pr_body_bytes_seen := n,
             pr_request := r\<lparr>req_body := req_body r @ concat (m_body m)\<rparr>\<rparr>) s1"
        by (simp add: run_cb_append run_message_complete del: run_cb.simps)
      then show ?thesis using small False by (auto simp add: c simp del: callback.simps(8))
    qed
  qed
qed

section \<open>Feed\<close>

lemma run_events_limits:
  "hooks_keep h \<Longrightarrow> within_limits p \<Longrightarrow> run_events h evs fin p s = (res, p', s') \<Longrightarrow>
     within_limits p' \<and> pr_options p' = pr_options p"
proof (induction h evs fin p s rule: run_events.induct)
  case (1 h fin p s)
  then show ?case by simp
next
  case (2 h ev pos l evs fin p s)
  obtain c q t where cb: "callback h ev p s = (c, q, t)" by (metis prod_cases3)
  from callback_limits [OF 2(2,3) cb] have q: "within_limits q" "pr_options q = pr_options p" by simp_all
  show ?case
  proof (cases c)
    case CbOk
    then show ?thesis using 2(1) [OF cb [symmetric, unfolded CbOk] refl refl 2(2) q(1)] 2(4) cb q(2) by simp
  qed (use 2(4) cb q in simp_all)
qed

lemma Feed_limits:
  "hooks_keep h \<Longrightarrow> within_limits p \<Longrightarrow> Feed fuel ll h n inp l p s = Some (n', l', p', s') \<Longrightarrow>
     within_limits p' \<and> pr_options p' = pr_options p"
proof (induction fuel arbitrary: n inp l p s)
  case (Suc fuel)
  obtain evs e where ll: "ll l inp = (evs, e)" by (cases "ll l inp")
  obtain res q t where r: "run_events h evs e p s = (res, q, t)" by (metis prod_cases3)
  from run_events_limits [OF Suc.prems(1,2) r] have q: "within_limits q" "pr_options q = pr_options p" by simp_all
  have q': "within_limits (q\<lparr>pr_status := st\<rparr>)" for st using q(1) by (simp add: within_limits_def)
  show ?case
  proof (cases "inp = [] \<or> pr_status p \<noteq> kParseOk")
    case True
    then show ?thesis using Suc.prems by simp
  next
    case False
    then show ?thesis using Suc.prems(1,3) Suc.IH [OF Suc.prems(1) q(1)] ll r q q'
      by (cases res) (auto split: if_splits)
  qed
qed simp

text \<open>
  The tokenizer makes progress: it reports the end of a message only after at least one byte, and
  never beyond the input.
\<close>

definition progresses :: "'l llhttp \<Rightarrow> bool" where
  "progresses ll \<longleftrightarrow>
     (\<forall>l inp ev pos l'. inp \<noteq> [] \<longrightarrow> (ev, pos, l') \<in> set (fst (ll l inp)) \<longrightarrow>
        pos \<le> length inp \<and> (ev = EvMessageComplete \<longrightarrow> 0 < pos)) \<and>
     (\<forall>l inp pos. snd (ll l inp) = Inr pos \<longrightarrow> pos \<le> length inp)"

lemma callback_paused: "callback h ev p s = (CbPaused, p', s') \<Longrightarrow> ev = EvMessageComplete"
  by (cases ev)
    (auto simp: OnMessageBegin_def OnUrl_def OnUrlComplete_def OnHeaderField_def OnHeaderFieldComplete_def OnHeaderValue_def
      OnHeaderValueComplete_def OnHeadersComplete_def OnBody_def Let_def split: if_splits prod.splits option.splits)

lemma run_events_position:
  "run_events h evs fin p s = (res, p', s') \<Longrightarrow>
     (\<forall>pos l. res = ExecPaused pos l \<longrightarrow> (EvMessageComplete, pos, l) \<in> set evs) \<and>
     (\<forall>pos. res = ExecFailed pos \<longrightarrow> fin = Inr pos \<or> (\<exists>ev l. (ev, pos, l) \<in> set evs))"
proof (induction h evs fin p s rule: run_events.induct)
  case (1 h fin p s)
  then show ?case by (auto split: sum.splits)
next
  case (2 h ev pos l evs fin p s)
  obtain c q t where cb: "callback h ev p s = (c, q, t)" by (metis prod_cases3)
  show ?case
  proof (cases c)
    case CbOk
    then show ?thesis using 2(1) [OF cb [symmetric, unfolded CbOk] refl refl] 2(2) cb by auto
  next
    case CbPaused
    then show ?thesis using 2(2) cb callback_paused [of h ev p s q t] by auto
  next
    case CbUser
    then show ?thesis using 2(2) cb by auto
  qed
qed

lemma Feed_terminates:
  assumes "progresses ll"
  shows "length inp < fuel \<Longrightarrow>
     \<exists>n' l' p' s'. Feed fuel ll h n inp l p s = Some (n', l', p', s') \<and> n \<le> n' \<and> n' \<le> n + length inp"
proof (induction fuel arbitrary: n inp l p s)
  case (Suc fuel)
  obtain evs e where ll: "ll l inp = (evs, e)" by (cases "ll l inp")
  obtain res q t where r: "run_events h evs e p s = (res, q, t)" by (metis prod_cases3)
  show ?case
  proof (cases "inp = [] \<or> pr_status p \<noteq> kParseOk")
    case True
    then show ?thesis by auto
  next
    case False
    note pos = run_events_position [OF r]
    show ?thesis
    proof (cases res)
      case (ExecOk l')
      then show ?thesis using False ll r by simp
    next
      case (ExecPaused k l')
      then have "(EvMessageComplete, k, l') \<in> set (fst (ll l inp))" using pos ll by simp
      then have k: "0 < k" "k \<le> length inp" using assms False unfolding progresses_def by blast+
      then have "length (drop k inp) < fuel" using Suc.prems by simp
      from Suc.IH [OF this, of "n + k" l' q t] show ?thesis using k False ll r ExecPaused by auto
    next
      case (ExecFailed k)
      then have "k \<le> length inp" using pos ll assms False unfolding progresses_def by (metis fst_conv snd_conv)
      then show ?thesis using False ll r ExecFailed by simp
    qed
  qed
qed simp

section \<open>Properties\<close>


definition recorder :: "HttpRequest list hooks" where
  "recorder = \<lparr>on_request_hook = Some (\<lambda>r log. (True, r, log @ [r])), on_headers_hook = None, on_body_hook = None\<rparr>"

definition demo_message :: message where
  "demo_message = \<lparr>m_method = 3, m_keep_alive = True, m_url = [''/a'', ''?b'', ''=c''],
     m_headers = [([''Ho'', ''st''], [''x''])], m_body = [''h'', ''i'']\<rparr>"

definition demo_options :: HttpParserOptions where
  "demo_options = \<lparr>max_url_bytes = 6, max_header_bytes = 5, max_body_bytes = 2\<rparr>"

lemma demo_message_sizes:
  "length (concat (m_url demo_message)) = 6" "sum_list (map field_size (m_headers demo_message)) = 5"
  "length (concat (m_body demo_message)) = 2"
  "head_of demo_message = \<lparr>req_method = kPost, req_path = ''/a'', req_query = ''b=c'', req_body = [], req_keep_alive = True,
     req_request_id = [], req_headers = [(''Host'', ''x'')], req_params = []\<rparr>"
  by (simp_all add: demo_message_def field_size_def head_of_def ParseUrl_def cut_at_def HttpRequest_new_def
      header_of_def HttpMethodFromLlhttp_def)


text \<open>
  \<open>Feed\<close> returns for every input, has then consumed no more than it was given, and the parser
  stays within its limits: the URL, the header fields and the buffered body never grow beyond the
  configured sizes, whatever the tokenizer reports. The tokenizer reports the end of a message only
  after consuming a byte, and the hooks leave the header fields and the body alone.
\<close>

theorem Feed_safe:
  assumes "progresses ll" "hooks_keep h" "within_limits p"
  shows "\<exists>n l' p' s'. Feed (Suc (length inp)) ll h 0 inp l p s = Some (n, l', p', s') \<and> n \<le> length inp \<and>
     within_limits p' \<and> within_limits (Reset_parser p') \<and> pr_options p' = pr_options p \<and>
     within_limits (HttpParser_new opts)"
proof -
  from Feed_terminates [OF assms(1), of inp "Suc (length inp)" h 0 l p s] obtain n l' p' s' where
    f: "Feed (Suc (length inp)) ll h 0 inp l p s = Some (n, l', p', s')" "n \<le> length inp" by auto
  have "within_limits (Reset_parser q)" for q
    by (simp add: within_limits_def Reset_parser_def header_size_def Clear_request_def)
  moreover have "within_limits (HttpParser_new opts)"
    by (simp add: within_limits_def HttpParser_new_def header_size_def HttpRequest_new_def)
  ultimately show ?thesis using Feed_limits [OF assms(2,3) f(1)] f by blast
qed

text \<open>A tokenizer for which every byte is a message.\<close>

definition byte_messages :: "unit llhttp" where
  "byte_messages l inp = ([(EvMessageBegin, 0, ()), (EvMessageComplete, 1, ())], Inl ())"

theorem Feed_safe_witness:
  "\<exists>n l' p' s'. Feed 4 byte_messages recorder 0 ''abc'' () (HttpParser_new demo_options) [] = Some (n, l', p', s') \<and>
     n \<le> 3 \<and> within_limits p'"
proof -
  have "progresses byte_messages" by (auto simp: progresses_def byte_messages_def Suc_le_eq)
  moreover have "hooks_keep recorder" by (simp add: hooks_keep_def recorder_def same_message_def)
  moreover have "within_limits (HttpParser_new demo_options)"
    by (simp add: within_limits_def HttpParser_new_def header_size_def HttpRequest_new_def)
  moreover have "Suc (length ''abc'') = 4" "length ''abc'' = 3" by simp_all
  ultimately show ?thesis
    using Feed_safe [of byte_messages recorder "HttpParser_new demo_options" "''abc''" "()" "[]" demo_options] by metis
qed

end
