(* ===== verification/Http_Session.thy ===== *)
theory Http_Session
  imports Http_Router Http_Parser Recv_Buffer
begin

text \<open>
  \<^verbatim>\<open>HttpSession.cpp\<close>, \<^verbatim>\<open>HttpSessionRecv.cpp\<close>, \<^verbatim>\<open>HttpSessionRequest.cpp\<close>, \<^verbatim>\<open>HttpSessionStream.cpp\<close> and
  \<^verbatim>\<open>HttpSessionTimeout.cpp\<close>: the hooks the session installs in the parser, streamed request bodies,
  deadlines, and the receive path over the parser and the reassembly buffer. The pointer to the
  request of an active stream always names the parser's request, which is passed along.
\<close>

section \<open>Request ids\<close>

definition hex_char :: "nat \<Rightarrow> char" where
  "hex_char n = ''0123456789abcdef'' ! n"

function to_hex :: "nat \<Rightarrow> string" where
  "to_hex n = (if n < 16 then [hex_char n] else to_hex (n div 16) @ [hex_char (n mod 16)])"
  by pat_completeness auto
termination by (relation "measure id") auto

declare to_hex.simps [simp del]

definition pad_zero :: "nat \<Rightarrow> string \<Rightarrow> string" where
  "pad_zero width s = replicate (width - length s) CHR ''0'' @ s"

definition GenerateRequestId :: "u64 \<Rightarrow> string \<times> u64" where
  "GenerateRequestId counter = (''req-'' @ pad_zero 13 (to_hex (unat counter)), counter + 1)"

definition next_request_id :: "('t, 'h) HttpSession \<Rightarrow> string \<times> ('t, 'h) HttpSession" where
  "next_request_id s = (let (rid, n) = GenerateRequestId (hs_request_ids s) in (rid, s\<lparr>hs_request_ids := n\<rparr>))"

section \<open>Streamed request bodies\<close>

definition no_stream :: "'h StreamingRequestState" where
  "no_stream = \<lparr>as_handler = None, as_response = None, as_rejected = False\<rparr>"

definition ActiveStreamResponseSent :: "('t, 'h) HttpSession \<Rightarrow> bool" where
  "ActiveStreamResponseSent s \<longleftrightarrow> (case as_response (hs_active s) of None \<Rightarrow> False | Some r \<Rightarrow> IsSent r)"

text \<open>The context on the response of the active stream, and writing that response back.\<close>

definition stream_context :: "web_env \<Rightarrow> HttpResponse \<Rightarrow> HttpRequest \<Rightarrow> ('t, 'h) HttpSession \<Rightarrow> ('t, 'h) RequestContext" where
  "stream_context e r request s =
     \<lparr>rc_session = s, rc_request = request, rc_response = r, rc_remote_addr = peer_addr e, rc_request_id = req_request_id request\<rparr>"

definition put_response :: "('t, 'h) RequestContext \<Rightarrow> ('t, 'h) HttpSession" where
  "put_response c = (rc_session c)\<lparr>hs_active := (hs_active (rc_session c))\<lparr>as_response := Some (rc_response c)\<rparr>\<rparr>"

definition PrepareRequestBody ::
  "web_env \<Rightarrow> 't transport \<Rightarrow> ('t, 'h) handlers \<Rightarrow> 'h Router \<Rightarrow> HttpRequest \<Rightarrow> ('t, 'h) HttpSession \<Rightarrow>
     HttpBodyMode \<times> HttpRequest \<times> ('t, 'h) HttpSession" where
  "PrepareRequestBody e T H router request s =
     (case Router_Match (req_method request) (req_path request) router of
        Inl f \<Rightarrow> (kBuffer, request, s\<lparr>hs_faulted := True\<rparr>)
      | Inr result \<Rightarrow>
          (case rm_stream_handler result of
             None \<Rightarrow> (kBuffer, request, s)
           | Some handler \<Rightarrow>
               (let (rid, s1) = next_request_id s;
                    request1 = SetParams (rm_params result) (request\<lparr>req_request_id := rid\<rparr>);
                    response = KeepAlive (req_keep_alive request1) (HttpResponse_new True);
                    s2 = s1\<lparr>hs_active := \<lparr>as_handler = Some handler, as_response = Some response, as_rejected = False\<rparr>\<rparr>;
                    c = stream_context e response request1 s2
                in case on_headers handler of
                     None \<Rightarrow> (kStream, request1, s2)
                   | Some h \<Rightarrow>
                       (case run_handler e T H h [] c of
                          (Some True, c1) \<Rightarrow> (kStream, rc_request c1, put_response c1)
                        | (Some False, c1) \<Rightarrow>
                            (let c2 = (if \<not> IsSent (rc_response c1) then reply e T kBadRequest ''Bad Request'' [] c1 else c1);
                                 s3 = put_response c2
                             in (kDiscard, rc_request c2, s3\<lparr>hs_active := (hs_active s3)\<lparr>as_rejected := True\<rparr>\<rparr>))
                        | (None, c1) \<Rightarrow>
                            (let c2 = reply e T kInternalServerError ''Internal Server Error'' [] c1; s3 = put_response c2
                             in (kDiscard, rc_request c2, s3\<lparr>hs_active := (hs_active s3)\<lparr>as_rejected := True\<rparr>\<rparr>))))))"

definition HandleBodyChunk ::
  "web_env \<Rightarrow> 't transport \<Rightarrow> ('t, 'h) handlers \<Rightarrow> HttpRequest \<Rightarrow> string \<Rightarrow> ('t, 'h) HttpSession \<Rightarrow>
     bool \<times> HttpRequest \<times> ('t, 'h) HttpSession" where
  "HandleBodyChunk e T H request chunk s =
     (case as_handler (hs_active s) of
        None \<Rightarrow> (True, request, s)
      | Some handler \<Rightarrow>
          (case as_response (hs_active s) of
             None \<Rightarrow> (False, request, s\<lparr>hs_faulted := True\<rparr>)
           | Some r \<Rightarrow>
               (case on_body handler of
                  None \<Rightarrow> (True, request, s)
                | Some h \<Rightarrow>
                    (case run_handler e T H h chunk (stream_context e r request s) of
                       (Some True, c) \<Rightarrow> (True, rc_request c, put_response c)
                     | (Some False, c) \<Rightarrow>
                         (let c1 = (if \<not> IsSent (rc_response c) then reply e T kBadRequest ''Bad Request'' [] c else c)
                          in (False, rc_request c1, put_response c1))
                     | (None, c) \<Rightarrow>
                         (let c1 = (if \<not> IsSent (rc_response c)
                                    then reply e T kInternalServerError ''Internal Server Error'' [] c else c)
                          in (False, rc_request c1, put_response c1))))))"

definition CompleteStreamingRequest ::
  "web_env \<Rightarrow> 't transport \<Rightarrow> ('t, 'h) handlers \<Rightarrow> 'h HttpStreamHandler \<Rightarrow> HttpRequest \<Rightarrow> ('t, 'h) HttpSession \<Rightarrow>
     bool \<times> HttpRequest \<times> ('t, 'h) HttpSession" where
  "CompleteStreamingRequest e T H handler request s0 =
     (let s = s0\<lparr>hs_request_in_progress := False\<rparr>
      in case as_response (hs_active s) of
           None \<Rightarrow> (False, request, s\<lparr>hs_faulted := True\<rparr>)
         | Some r \<Rightarrow>
             (let c = stream_context e r request s;
                  c1 = (if as_rejected (hs_active s) then c
                        else case on_complete handler of
                               None \<Rightarrow> c
                             | Some h \<Rightarrow>
                                 (case run_handler e T H h [] c of
                                    (Some _, c') \<Rightarrow> c'
                                  | (None, c') \<Rightarrow>
                                      if \<not> IsSent (rc_response c') \<and> \<not> IsDeferred (rc_response c')
                                      then reply e T kInternalServerError ''Internal Server Error'' [] c' else c'));
                  deferred = IsDeferred (rc_response c1);
                  s2 = (if \<not> IsSent (rc_response c1) \<and> \<not> deferred
                        then snd (session_Send e T (rc_response c1) (rc_session c1)) else rc_session c1);
                  request2 = ClearParams (rc_request c1);
                  s3 = s2\<lparr>hs_active := no_stream\<rparr>
              in if deferred then (False, request2, s3)
                 else if \<not> req_keep_alive request2 then (False, request2, base_DisconnectAfterFlush T s3)
                 else (True, request2, s3)))"

definition AbortStreamingRequest ::
  "web_env \<Rightarrow> 't transport \<Rightarrow> ('t, 'h) handlers \<Rightarrow> HttpRequest \<Rightarrow> ('t, 'h) HttpSession \<Rightarrow> HttpRequest \<times> ('t, 'h) HttpSession" where
  "AbortStreamingRequest e T H request s =
     (case (as_handler (hs_active s), as_response (hs_active s)) of
        (Some handler, Some r) \<Rightarrow>
          (let c = stream_context e r request s;
               c1 = (case on_abort handler of None \<Rightarrow> c | Some h \<Rightarrow> snd (run_handler e T H h [] c))
           in (ClearParams (rc_request c1), (rc_session c1)\<lparr>hs_active := no_stream\<rparr>))
      | _ \<Rightarrow> (request, s))"

section \<open>Buffered requests\<close>

definition HandleRequest ::
  "web_env \<Rightarrow> 't transport \<Rightarrow> ('t, 'h) handlers \<Rightarrow> 'h Router \<Rightarrow> HttpRequest \<Rightarrow> ('t, 'h) HttpSession \<Rightarrow>
     bool \<times> HttpRequest \<times> ('t, 'h) HttpSession" where
  "HandleRequest e T H router request s =
     (case as_handler (hs_active s) of
        Some handler \<Rightarrow> CompleteStreamingRequest e T H handler request s
      | None \<Rightarrow>
          (let s1 = s\<lparr>hs_request_in_progress := False\<rparr>;
               log_slow_request = hs_slow_request_threshold s1 > 0 \<and> log_warn e;
               measure_request = log_info e \<or> log_slow_request;
               (rid, s2) = (if measure_request then next_request_id s1 else ([], s1));
               request1 = request\<lparr>req_request_id := rid\<rparr>;
               c = \<lparr>rc_session = s2, rc_request = request1,
                    rc_response = KeepAlive (req_keep_alive request1) (HttpResponse_new True),
                    rc_remote_addr = (if log_info e then peer_addr e else []), rc_request_id = rid\<rparr>
           in case Dispatch e T H router c of
                Inl a \<Rightarrow> (False, request1, s2\<lparr>hs_faulted := True\<rparr>)
              | Inr c1 \<Rightarrow>
                  (let s3 = (if \<not> IsSent (rc_response c1) \<and> \<not> IsDeferred (rc_response c1)
                             then snd (session_Send e T (rc_response c1) (rc_session c1)) else rc_session c1)
                   in if \<not> req_keep_alive (rc_request c1)
                      then (False, rc_request c1, base_DisconnectAfterFlush T s3)
                      else (True, rc_request c1, s3))))"

definition http_hooks ::
  "web_env \<Rightarrow> 't transport \<Rightarrow> ('t, 'h) handlers \<Rightarrow> 'h Router \<Rightarrow> ('t, 'h) HttpSession hooks" where
  "http_hooks e T H router =
     \<lparr>on_request_hook = Some (HandleRequest e T H router),
      on_headers_hook = Some (PrepareRequestBody e T H router),
      on_body_hook = Some (HandleBodyChunk e T H)\<rparr>"

section \<open>Deadlines\<close>

text \<open>Clock values are nanoseconds; \<open>duration_cast\<close> to milliseconds truncates towards zero.\<close>

definition to_ms :: "int \<Rightarrow> int" where
  "to_ms d = (if d \<ge> 0 then d div 1000000 else - ((- d) div 1000000))"

text \<open>A plain-text response with \<open>Connection: close\<close>, built and sent without a response object.\<close>

definition send_plain ::
  "web_env \<Rightarrow> 't transport \<Rightarrow> HttpStatus \<Rightarrow> string \<Rightarrow> ('t, 'h) HttpSession \<Rightarrow> ('t, 'h) HttpSession" where
  "send_plain e T st body s =
     (let r = KeepAlive False (Body body (SetContentType ''text/plain'' (SetStatus st (HttpResponse_new False))));
          (ok, s1) = pool_Allocate e s
      in case Build_response (http_date e (hs_asked s)) ok r of
           Inl f \<Rightarrow> s1\<lparr>hs_faulted := True\<rparr>
         | Inr (None, _) \<Rightarrow> s1
         | Inr (Some b, _) \<Rightarrow> snd (base_Send T b s1))"

definition SendRequestTimeoutResponse :: "web_env \<Rightarrow> 't transport \<Rightarrow> ('t, 'h) HttpSession \<Rightarrow> ('t, 'h) HttpSession" where
  "SendRequestTimeoutResponse e T s = send_plain e T kRequestTimeout ''Request Timeout'' s"

definition FailRequestDeadlineIfExpired ::
  "web_env \<Rightarrow> 't transport \<Rightarrow> ('t, 'h) handlers \<Rightarrow> int \<Rightarrow> HttpRequest \<Rightarrow> ('t, 'h) HttpSession \<Rightarrow>
     bool \<times> HttpRequest \<times> ('t, 'h) HttpSession" where
  "FailRequestDeadlineIfExpired e T H t request s =
     (if hs_request_timeout s = 0 \<or> \<not> hs_request_in_progress s then (False, request, s)
      else if to_ms (t - hs_request_started_at s) < hs_request_timeout s then (False, request, s)
      else let (request1, s1) = AbortStreamingRequest e T H request s
           in (True, request1, base_Disconnect T (SendRequestTimeoutResponse e T s1)))"

definition StartOrFailRequestDeadline ::
  "web_env \<Rightarrow> 't transport \<Rightarrow> ('t, 'h) handlers \<Rightarrow> HttpRequest \<Rightarrow> ('t, 'h) HttpSession \<Rightarrow>
     bool \<times> HttpRequest \<times> ('t, 'h) HttpSession" where
  "StartOrFailRequestDeadline e T H request s =
     (if hs_request_timeout s = 0 then (False, request, s)
      else let t = steady_now e (hs_asked s); s1 = s\<lparr>hs_asked := Suc (hs_asked s)\<rparr>
           in if hs_request_in_progress s1 then FailRequestDeadlineIfExpired e T H t request s1
              else (False, request, s1\<lparr>hs_request_in_progress := True, hs_request_started_at := t\<rparr>))"

section \<open>Receiving\<close>

fun MapParseError :: "HttpParseStatus \<Rightarrow> HttpStatus \<times> string" where
  "MapParseError kUrlTooLong = (kUriTooLong, ''URI Too Long'')"
| "MapParseError kHeadersTooLarge = (kRequestHeaderFieldsTooLarge, ''Request Header Fields Too Large'')"
| "MapParseError kBodyTooLarge = (kPayloadTooLarge, ''Payload Too Large'')"
| "MapParseError kParseBadRequest = (kBadRequest, ''Bad Request'')"
| "MapParseError kParseOk = (kBadRequest, ''Bad Request'')"

record ('l, 't, 'h) HttpConnection =
  hc_session :: "('t, 'h) HttpSession"
  hc_parser :: HttpParser
  hc_llhttp :: 'l
  hc_recv :: RecvBuffer

definition HttpConnection_new :: "HttpParserOptions \<Rightarrow> int \<Rightarrow> 'l \<Rightarrow> 't \<Rightarrow> ('l, 't, 'h) HttpConnection" where
  "HttpConnection_new opts request_timeout l t =
     \<lparr>hc_session = HttpSession_new request_timeout t, hc_parser = HttpParser_new opts, hc_llhttp = l,
      hc_recv = RecvBuffer_new 65536\<rparr>"

text \<open>What follows a parse error, on both paths of the receive handler.\<close>

definition fail_parse ::
  "web_env \<Rightarrow> 't transport \<Rightarrow> ('t, 'h) handlers \<Rightarrow> ('l, 't, 'h) HttpConnection \<Rightarrow> ('l, 't, 'h) HttpConnection" where
  "fail_parse e T H k =
     (let p = hc_parser k; sent = ActiveStreamResponseSent (hc_session k);
          (request, s) = AbortStreamingRequest e T H (pr_request p) (hc_session k);
          (st, body) = MapParseError (pr_status p);
          s1 = (if sent then s else send_plain e T st body s)
      in k\<lparr>hc_parser := p\<lparr>pr_request := request\<rparr>, hc_session := base_Disconnect T s1\<rparr>)"

definition feed ::
  "web_env \<Rightarrow> 't transport \<Rightarrow> ('t, 'h) handlers \<Rightarrow> 'h Router \<Rightarrow> 'l llhttp \<Rightarrow> string \<Rightarrow> ('l, 't, 'h) HttpConnection \<Rightarrow>
     (nat \<times> ('l, 't, 'h) HttpConnection) option" where
  "feed e T H router ll chars k =
     map_option (\<lambda>(n, l, p, s). (n, k\<lparr>hc_llhttp := l, hc_parser := p, hc_session := s\<rparr>))
       (Feed (Suc (length chars)) ll (http_hooks e T H router) 0 chars (hc_llhttp k) (hc_parser k) (hc_session k))"

definition overflow :: "'t transport \<Rightarrow> ('l, 't, 'h) HttpConnection \<Rightarrow> ('l, 't, 'h) HttpConnection" where
  "overflow T k = k\<lparr>hc_session := base_Disconnect T (hc_session k)\<rparr>"

definition HandleHttpRecv ::
  "web_env \<Rightarrow> 't transport \<Rightarrow> ('t, 'h) handlers \<Rightarrow> 'h Router \<Rightarrow> 'l llhttp \<Rightarrow> byte list \<Rightarrow> ('l, 't, 'h) HttpConnection \<Rightarrow>
     (fault + ('l, 't, 'h) HttpConnection) option" where
  "HandleHttpRecv e T H router ll data k0 =
     (let (failed, request, s) = StartOrFailRequestDeadline e T H (pr_request (hc_parser k0)) (hc_session k0);
          k = k0\<lparr>hc_session := s, hc_parser := (hc_parser k0)\<lparr>pr_request := request\<rparr>\<rparr>
      in if failed then Some (Inr k)
         else if IsEmpty (hc_recv k)
         then (case feed e T H router ll (chars_of data) k of
                 None \<Rightarrow> None
               | Some (consumed, k1) \<Rightarrow>
                   if HasError (hc_parser k1) then Some (Inr (fail_parse e T H k1))
                   else if consumed < length data
                   then (case Append (drop consumed data) (hc_recv k1) of
                           Inl f \<Rightarrow> Some (Inl f)
                         | Inr (None, b) \<Rightarrow> Some (Inr (k1\<lparr>hc_recv := b\<rparr>))
                         | Inr (Some _, b) \<Rightarrow> Some (Inr (overflow T (k1\<lparr>hc_recv := b\<rparr>))))
                   else Some (Inr k1))
         else (case Append data (hc_recv k) of
                 Inl f \<Rightarrow> Some (Inl f)
               | Inr (Some _, b) \<Rightarrow> Some (Inr (overflow T (k\<lparr>hc_recv := b\<rparr>)))
               | Inr (None, b) \<Rightarrow>
                   (case feed e T H router ll (chars_of (ReadRegion b)) (k\<lparr>hc_recv := b\<rparr>) of
                      None \<Rightarrow> None
                    | Some (consumed, k1) \<Rightarrow>
                        if HasError (hc_parser k1) then Some (Inr (fail_parse e T H k1))
                        else let b1 = OnRead (of_nat consumed) (hc_recv k1)
                             in Some (Inr (k1\<lparr>hc_recv := (if ShouldCompact b1 then Compact b1 else b1)\<rparr>)))))"

section \<open>Disconnecting and ticking\<close>

definition Http_OnDisconnected ::
  "web_env \<Rightarrow> 't transport \<Rightarrow> ('t, 'h) handlers \<Rightarrow> ('l, 't, 'h) HttpConnection \<Rightarrow> ('l, 't, 'h) HttpConnection" where
  "Http_OnDisconnected e T H k =
     (let (request, s) = AbortStreamingRequest e T H (pr_request (hc_parser k)) (ResetBodyStream (ResetFileStream (hc_session k)))
      in k\<lparr>hc_session := s, hc_parser := (hc_parser k)\<lparr>pr_request := request\<rparr>\<rparr>)"

definition Http_OnTimeoutTick ::
  "web_env \<Rightarrow> 't transport \<Rightarrow> ('t, 'h) handlers \<Rightarrow> int \<Rightarrow> ('l, 't, 'h) HttpConnection \<Rightarrow> bool \<times> ('l, 't, 'h) HttpConnection" where
  "Http_OnTimeoutTick e T H t k =
     (let (failed, request, s) = FailRequestDeadlineIfExpired e T H t (pr_request (hc_parser k)) (hc_session k)
      in (failed, k\<lparr>hc_session := s, hc_parser := (hc_parser k)\<lparr>pr_request := request\<rparr>\<rparr>))"

section \<open>The hooks leave the message alone\<close>

lemma same_message_refl [simp]: "same_message r r"
  by (simp add: same_message_def)

lemma same_message_update [simp]:
  "same_message r (r'\<lparr>req_path := x1\<rparr>) = same_message r r'" "same_message r (r'\<lparr>req_keep_alive := x2\<rparr>) = same_message r r'"
  "same_message r (r'\<lparr>req_request_id := x3\<rparr>) = same_message r r'" "same_message r (SetParams x4 r') = same_message r r'"
  "same_message r (ClearParams r') = same_message r r'"
  by (simp_all add: same_message_def SetParams_def ClearParams_def)

lemma apply_call_message: "same_message r (rc_request c) \<Longrightarrow> same_message r (rc_request (apply_call e T call c))"
  by (cases call) (simp_all add: DeferResponse_def split: prod.split)

lemma fold_calls_message: "same_message r (rc_request c) \<Longrightarrow> same_message r (rc_request (fold (apply_call e T) calls c))"
  by (induction calls arbitrary: c) (simp_all add: apply_call_message)

lemma run_handler_message:
  "run_handler e T H h chunk c = (res, c') \<Longrightarrow> same_message r (rc_request c) \<Longrightarrow> same_message r (rc_request c')"
  by (auto simp: run_handler_def fold_calls_message split: prod.splits)

lemma reply_request [simp]: "rc_request (reply e T st body hs c) = rc_request c"
  by (simp add: reply_def Let_def split: prod.split)

lemma stream_context_simps [simp]:
  "rc_request (stream_context e r request s) = request" "rc_response (stream_context e r request s) = r"
  "rc_session (stream_context e r request s) = s"
  by (simp_all add: stream_context_def)

lemma run_middlewares_message:
  "run_middlewares e T H hs c = Inr (b, c') \<Longrightarrow> same_message r (rc_request c) \<Longrightarrow> same_message r (rc_request c')"
  by (induction e T H hs c rule: run_middlewares.induct)
    (auto dest: run_handler_message split: prod.splits option.splits if_splits)

lemma Dispatch_message:
  assumes "Dispatch e T H router c = Inr c'" "same_message r (rc_request c)"
  shows "same_message r (rc_request c')"
proof -
  obtain b c0 where m: "run_middlewares e T H (ro_middlewares router) c = Inr (b, c0)"
    using assms(1) by (cases "run_middlewares e T H (ro_middlewares router) c") (auto simp: Dispatch_def)
  from run_middlewares_message [OF m assms(2)] have r: "same_message r (rc_request c0)" .
  show ?thesis
  proof (cases b)
    case True
    then show ?thesis using m r assms(1) by (simp add: Dispatch_def)
  next
    case False
    then show ?thesis using m r assms(1)
      by (auto simp: Dispatch_def Let_def dest!: run_handler_message [where r = r]
          split: sum.splits option.splits prod.splits if_splits)
  qed
qed

lemma HandleBodyChunk_message: "same_message r (fst (snd (HandleBodyChunk e T H r chunk s)))"
  by (auto simp: HandleBodyChunk_def Let_def dest: run_handler_message [where r = r] split: option.split prod.split bool.split)

lemma PrepareRequestBody_message: "same_message r (fst (snd (PrepareRequestBody e T H router r s)))"
  by (auto simp: PrepareRequestBody_def Let_def dest: run_handler_message [where r = r]
      split: sum.split option.split prod.split bool.split)

lemma CompleteStreamingRequest_message: "same_message r (fst (snd (CompleteStreamingRequest e T H handler r s)))"
  by (auto simp: CompleteStreamingRequest_def Let_def dest: run_handler_message [where r = r]
      split: option.split prod.split)

lemma HandleRequest_message: "same_message r (fst (snd (HandleRequest e T H router r s)))"
  by (auto simp: HandleRequest_def CompleteStreamingRequest_message Let_def dest: Dispatch_message [where r = r]
      split: option.split prod.split sum.split)

lemma AbortStreamingRequest_message: "same_message r (fst (AbortStreamingRequest e T H r s))"
  by (auto simp: AbortStreamingRequest_def Let_def split: option.split)
    (metis run_handler_message prod.collapse same_message_refl stream_context_simps(1))

lemma http_hooks_keep: "hooks_keep (http_hooks e T H router)"
  by (auto simp: hooks_keep_def http_hooks_def HandleRequest_message PrepareRequestBody_message HandleBodyChunk_message)

section \<open>The receive path keeps its limits\<close>

definition conn_ok :: "HttpParserOptions \<Rightarrow> ('l, 't, 'h) HttpConnection \<Rightarrow> bool" where
  "conn_ok opts k \<longleftrightarrow> within_limits (hc_parser k) \<and> pr_options (hc_parser k) = opts \<and> rb_inv (hc_recv k)"

lemma within_limits_request:
  "within_limits p \<Longrightarrow> same_message (pr_request p) r \<Longrightarrow> within_limits (p\<lparr>pr_request := r\<rparr>)"
  by (simp add: within_limits_def same_message_def)

lemma FailRequestDeadline_message: "same_message r (fst (snd (FailRequestDeadlineIfExpired e T H t r s)))"
  using AbortStreamingRequest_message [of r e T H s] by (auto simp: FailRequestDeadlineIfExpired_def split: prod.split)

lemma StartOrFailRequestDeadline_message: "same_message r (fst (snd (StartOrFailRequestDeadline e T H r s)))"
  by (simp add: StartOrFailRequestDeadline_def FailRequestDeadline_message Let_def)

lemma fail_parse_ok:
  assumes "conn_ok opts k"
  shows "conn_ok opts (fail_parse e T H k)"
proof -
  obtain request s where a: "AbortStreamingRequest e T H (pr_request (hc_parser k)) (hc_session k) = (request, s)"
    by (cases "AbortStreamingRequest e T H (pr_request (hc_parser k)) (hc_session k)")
  have "same_message (pr_request (hc_parser k)) request"
    using AbortStreamingRequest_message [of "pr_request (hc_parser k)" e T H "hc_session k"] a by simp
  then show ?thesis using assms a within_limits_request
    by (simp add: fail_parse_def conn_ok_def Let_def split: prod.split)
qed

lemma overflow_ok: "conn_ok opts k \<Longrightarrow> conn_ok opts (overflow T k)"
  by (simp add: overflow_def conn_ok_def)

lemma feed_ok:
  assumes "progresses ll" "conn_ok opts k"
  obtains n k1 where "feed e T H router ll chars k = Some (n, k1)" "n \<le> length chars" "conn_ok opts k1" "hc_recv k1 = hc_recv k"
proof -
  let ?h = "http_hooks e T H router"
  from Feed_terminates [OF assms(1), of chars "Suc (length chars)" ?h 0 "hc_llhttp k" "hc_parser k" "hc_session k"]
  obtain n l p s where f: "Feed (Suc (length chars)) ll ?h 0 chars (hc_llhttp k) (hc_parser k) (hc_session k) = Some (n, l, p, s)"
    "n \<le> length chars" by auto
  from Feed_limits [OF http_hooks_keep _ f(1)] assms(2) show ?thesis
    using f by (intro that [of n "k\<lparr>hc_llhttp := l, hc_parser := p, hc_session := s\<rparr>"]) (simp_all add: feed_def conn_ok_def)
qed

lemma HandleHttpRecv_ok:
  assumes "progresses ll" "conn_ok opts k0" "length data < 2 ^ 32"
  shows "\<exists>k'. HandleHttpRecv e T H router ll data k0 = Some (Inr k') \<and> conn_ok opts k'"
proof -
  obtain failed request s where d: "StartOrFailRequestDeadline e T H (pr_request (hc_parser k0)) (hc_session k0) = (failed, request, s)"
    by (metis prod_cases3)
  let ?k = "k0\<lparr>hc_session := s, hc_parser := (hc_parser k0)\<lparr>pr_request := request\<rparr>\<rparr>"
  have "same_message (pr_request (hc_parser k0)) request"
    using StartOrFailRequestDeadline_message [of "pr_request (hc_parser k0)" e T H "hc_session k0"] d by simp
  then have k: "conn_ok opts ?k" using assms(2) within_limits_request by (simp add: conn_ok_def)
  show ?thesis
  proof (cases "\<not> failed \<and> IsEmpty (hc_recv k0)")
    case True
    obtain n k1 where f: "feed e T H router ll (chars_of data) ?k = Some (n, k1)" "conn_ok opts k1" "hc_recv k1 = hc_recv ?k"
      using feed_ok [OF assms(1) k] by metis
    have b: "rb_inv (hc_recv k1)" and l: "length (drop n data) < 2 ^ 32" using f(2) assms(3) by (simp_all add: conn_ok_def)
    obtain err b' where a: "Append (drop n data) (hc_recv k1) = Inr (err, b')" "rb_inv b'" by (rule Append_refines [OF b l])
    have k': "conn_ok opts (k1\<lparr>hc_recv := b'\<rparr>)" using f(2) a(2) by (simp add: conn_ok_def)
    show ?thesis using True d f(1,2) a(1) k'
      by (cases err) (simp_all add: HandleHttpRecv_def overflow_ok fail_parse_ok)
  next
    case False
    have b: "rb_inv (hc_recv ?k)" using k by (simp add: conn_ok_def)
    obtain err b' where a: "Append data (hc_recv ?k) = Inr (err, b')" "rb_inv b'" by (rule Append_refines [OF b assms(3)])
    have k': "conn_ok opts (?k\<lparr>hc_recv := b'\<rparr>)" using k a(2) by (simp add: conn_ok_def)
    obtain n k1 where f: "feed e T H router ll (chars_of (ReadRegion b')) (?k\<lparr>hc_recv := b'\<rparr>) = Some (n, k1)"
      "n \<le> length (chars_of (ReadRegion b'))" "conn_ok opts k1" "hc_recv k1 = b'"
      using feed_ok [OF assms(1) k'] by (metis HttpConnection.select_convs(4) HttpConnection.surjective HttpConnection.update_convs(4))
    have n: "unat (of_nat n :: u32) \<le> length (ReadRegion b')"
      using f(2) by (simp add: chars_of_def unat_of_nat take_bit_eq_mod)
    have r: "conn_ok opts (k1\<lparr>hc_recv := OnRead (of_nat n) b'\<rparr>)" "conn_ok opts (k1\<lparr>hc_recv := Compact (OnRead (of_nat n) b')\<rparr>)"
      using f(3) OnRead_inv(1) [OF a(2) n] rb_inv_Compact by (simp_all add: conn_ok_def)
    show ?thesis using False d k a(1) f(1,3,4) r k'
      by (cases err; cases failed) (simp_all add: HandleHttpRecv_def Let_def overflow_ok fail_parse_ok)
  qed
qed

text \<open>Any sequence of received chunks.\<close>

fun recv_all ::
  "web_env \<Rightarrow> 't transport \<Rightarrow> ('t, 'h) handlers \<Rightarrow> 'h Router \<Rightarrow> 'l llhttp \<Rightarrow> byte list list \<Rightarrow> ('l, 't, 'h) HttpConnection \<Rightarrow>
     (fault + ('l, 't, 'h) HttpConnection) option" where
  "recv_all e T H router ll [] k = Some (Inr k)"
| "recv_all e T H router ll (d # ds) k =
     (case HandleHttpRecv e T H router ll d k of Some (Inr k') \<Rightarrow> recv_all e T H router ll ds k' | r \<Rightarrow> r)"

lemma recv_all_ok:
  "progresses ll \<Longrightarrow> conn_ok opts k \<Longrightarrow> list_all (\<lambda>d. length d < 2 ^ 32) ds \<Longrightarrow>
     \<exists>k'. recv_all e T H router ll ds k = Some (Inr k') \<and> conn_ok opts k'"
proof (induction ds arbitrary: k)
  case (Cons d ds)
  obtain k1 where "HandleHttpRecv e T H router ll d k = Some (Inr k1)" "conn_ok opts k1"
    using HandleHttpRecv_ok [OF Cons.prems(1,2), of d e T H router] Cons.prems(3) by auto
  then show ?case using Cons by simp
qed simp

section \<open>What is sent\<close>

definition plain_response :: "HttpStatus \<Rightarrow> string \<Rightarrow> HttpResponse" where
  "plain_response st body =
     KeepAlive False (Body body (SetContentType ''text/plain'' (SetStatus st (HttpResponse_new False))))"

fun is_setter :: "api_call \<Rightarrow> bool" where
  "is_setter CallSend \<longleftrightarrow> False"
| "is_setter (CallSendFile _ _ _ _) \<longleftrightarrow> False"
| "is_setter CallDefer \<longleftrightarrow> False"
| "is_setter (CallSetPath _) \<longleftrightarrow> False"
| "is_setter (CallSetKeepAlive _) \<longleftrightarrow> False"
| "is_setter _ \<longleftrightarrow> True"

lemma apply_setter: "is_setter call \<Longrightarrow> apply_call e T call c = c\<lparr>rc_response := set_response call (rc_response c)\<rparr>"
  by (cases call) simp_all

lemma fold_setters:
  "list_all is_setter calls \<Longrightarrow>
     fold (apply_call e T) calls c = c\<lparr>rc_response := fold set_response calls (rc_response c)\<rparr>"
  by (induction calls arbitrary: c) (simp_all add: apply_setter)

lemma set_response_state:
  "rs_state (set_response call r) = rs_state r \<and> rs_attached (set_response call r) = rs_attached r"
  by (cases call)
    (simp_all add: SetStatus_def Header_def RemoveHeader_def SetContentType_def Body_def Text_def Json_def Error_response_def
      Redirect_def KeepAlive_def SuppressBody_def Let_def)

lemma fold_set_response_state:
  "rs_state (fold set_response calls r) = rs_state r \<and> rs_attached (fold set_response calls r) = rs_attached r"
  by (induction calls arbitrary: r) (simp_all add: set_response_state)

lemma send_plain_eq:
  assumes "length (wire_bytes (http_date e (hs_asked s)) (plain_response st body)) < 2 ^ 32"
  shows "send_plain e T st body s =
     (if pool_ok e (hs_asked s)
      then snd (base_Send T (wire_bytes (http_date e (hs_asked s)) (plain_response st body)) (s\<lparr>hs_asked := Suc (hs_asked s)\<rparr>))
      else s\<lparr>hs_asked := Suc (hs_asked s)\<rparr>)"
proof -
  have "Build_response (http_date e (hs_asked s)) ok (plain_response st body) =
      (if \<not> ok then Inr (None, plain_response st body)
       else Inr (Some (wire_bytes (http_date e (hs_asked s)) (plain_response st body)),
         plain_response st body\<lparr>rs_last_built := length (wire_bytes (http_date e (hs_asked s)) (plain_response st body))\<rparr>))" for ok
    using assms by (cases "no_body (plain_response st body)") (simp_all add: Build_response_eq wire_bytes_def)
  then show ?thesis by (simp add: send_plain_def pool_Allocate_def plain_response_def [symmetric])
qed

lemma Dispatch_setters:
  assumes "length (req_path (rc_request c)) \<le> 1 \<or> last (req_path (rc_request c)) \<noteq> CHR ''/''"
    "served rs (req_method (rc_request c)) (req_path (rc_request c)) = Some h"
    "\<forall>c. H h [] c = (calls, Some b)" "list_all is_setter calls"
  shows "\<exists>c'. Dispatch e T H \<lparr>ro_middlewares = [], ro_tree = build rs\<rparr> c = Inr c' \<and> rc_session c' = rc_session c \<and>
     rc_response c' = fold set_response calls
       (if req_method (rc_request c) = kHead then SuppressBody True (rc_response c) else rc_response c) \<and>
     req_keep_alive (rc_request c') = req_keep_alive (rc_request c)"
proof -
  let ?router = "\<lparr>ro_middlewares = [], ro_tree = build rs\<rparr>"
  obtain result where r: "match_request (req_method (rc_request c)) (req_path (rc_request c)) ?router = Inr result"
    "rm_handler result = Some h"
    using match_request_served [OF assms(1), of ?router rs "req_method (rc_request c)"] assms(2) by auto
  have "run_handler e T H h [] c2 = (Some b, c2\<lparr>rc_response := fold set_response calls (rc_response c2)\<rparr>)" for c2
    using assms(3,4) by (simp add: run_handler_def fold_setters)
  then show ?thesis using r by (simp add: Dispatch_def Let_def SetParams_def ClearParams_def)
qed

context http_transport
begin

lemma send_plain_sent:
  assumes "b = wire_bytes (http_date e (hs_asked s)) (plain_response st body)" "length b < 2 ^ 32"
  shows "sent (hs_base (send_plain e T st body s)) =
     sent (hs_base s) @ (if pool_ok e (hs_asked s) \<and> fst (t_send T b (hs_base s)) then b else [])"
proof -
  obtain ok t where t: "t_send T b (hs_base s) = (ok, t)" by (cases "t_send T b (hs_base s)")
  then have "sent t = sent (hs_base s) @ (if ok then b else [])"
    using send_accepted send_refused by (cases ok) auto
  then show ?thesis using t assms by (simp add: send_plain_eq base_Send_def)
qed

lemma base_Disconnect_sent [simp]:
  "sent (hs_base (base_Disconnect T s)) = sent (hs_base s)" "\<not> open_conn (hs_base (base_Disconnect T s))"
  by (simp_all add: base_Disconnect_def disconnect_sent disconnect_closes)

lemma session_Send_whole:
  assumes "rs_state r \<noteq> kSentState" "rs_attached r" "pool_ok e = (\<lambda>_. True)" "http_date e = (\<lambda>_. d)"
    "length (wire_bytes d r) \<le> kInlineResponseMaxBytes" "fst (t_send T (wire_bytes d r) (hs_base s))"
  shows "sent (hs_base (snd (session_Send e T r s))) = sent (hs_base s) @ wire_bytes d r"
proof -
  obtain t where t: "t_send T (wire_bytes d r) (hs_base s) = (True, t)" using assms(6) by (cases "t_send T (wire_bytes d r) (hs_base s)") auto
  have "length (SerializeHeaders d (length (rs_body r)) r) < 2 ^ 32"
    using assms(5) by (simp add: wire_bytes_def kInlineResponseMaxBytes_def)
  from Send_response_eq [OF assms(1,2) _ _ this, of "\<lambda>_. True"] assms(5)
  have "Send_response d (\<lambda>_. True) r = Inr (SendOne (wire_bytes d r), r\<lparr>rs_state := kSentState, rs_last_built := length (wire_bytes d r)\<rparr>)"
    by (simp add: Let_def)
  then show ?thesis using t assms(3,4) send_accepted [OF t]
    by (simp add: session_Send_def Let_def SendResponse_def base_Send_def)
qed

end

section \<open>Properties\<close>




text \<open>A page that says "hi", asked for with \<open>GET\<close> on a fresh session.\<close>

definition greeting :: "(unit Session, nat) handlers" where
  "greeting h chunk c = ([CallText ''hi'', CallHeader ''X-Id'' ''7''], Some True)"


text \<open>
  The deadline of a request is exact. The check fails the request exactly when a timeout is
  configured, a request is in progress and as many whole milliseconds have passed since it began;
  it then sends the 408 response if a buffer is available and the connection takes it, and closes
  the connection. Otherwise it changes nothing.
\<close>

theorem deadline_exact:
  fixes s :: "(unit Session, 'h) HttpSession"
  assumes "as_handler (hs_active s) = None"
    "b = wire_bytes (http_date e (hs_asked s)) (plain_response kRequestTimeout ''Request Timeout'')" "length b < 2 ^ 32"
    "FailRequestDeadlineIfExpired e (session_transport env) H t r s = (failed, r', s')"
  shows "(failed \<longleftrightarrow> hs_request_timeout s \<noteq> 0 \<and> hs_request_in_progress s \<and>
       hs_request_timeout s \<le> to_ms (t - hs_request_started_at s)) \<and>
     (if failed
      then session_state (hs_base s') \<noteq> kOpen \<and>
           chars_of (accepted (hs_base s')) = chars_of (accepted (hs_base s)) @
             (if pool_ok e (hs_asked s) \<and> fst (t_send (session_transport env) b (hs_base s)) then b else [])
      else s' = s \<and> r' = r)"
proof -
  have a: "AbortStreamingRequest e (session_transport env) H r s = (r, s)"
    using assms(1) by (simp add: AbortStreamingRequest_def)
  have p: "chars_of (accepted (hs_base (SendRequestTimeoutResponse e (session_transport env) s))) =
      chars_of (accepted (hs_base s)) @
        (if pool_ok e (hs_asked s) \<and> fst (t_send (session_transport env) b (hs_base s)) then b else [])"
    unfolding SendRequestTimeoutResponse_def by (rule conn.send_plain_sent [OF assms(2,3)])
  show ?thesis using assms(4) a conn.base_Disconnect_sent p
    by (auto simp: FailRequestDeadlineIfExpired_def split: if_splits)
qed

lemma plain_small:
  "length (wire_bytes ''today'' (plain_response kRequestTimeout ''Request Timeout'')) < 2 ^ 32"
  "length (wire_bytes ''today'' (plain_response kUriTooLong ''URI Too Long'')) < 2 ^ 32"
  by (simp_all add: wire_bytes_def SerializeHeaders_lines head_fields_def status_line_def caller_has_def plain_response_def
      KeepAlive_def Body_def SetContentType_def SetStatus_def HttpResponse_new_def StatusMustNotHaveBody_def no_body_def
      field_line_def crlf_def write_lines_def to_string_nat.simps)

theorem deadline_exact_witness:
  "fst (FailRequestDeadlineIfExpired ready_web (session_transport ready_env) greeting 5000000 HttpRequest_new
     (web0\<lparr>hs_request_timeout := 5, hs_request_in_progress := True\<rparr>)) \<and>
   \<not> fst (FailRequestDeadlineIfExpired ready_web (session_transport ready_env) greeting 4999999 HttpRequest_new
     (web0\<lparr>hs_request_timeout := 5, hs_request_in_progress := True\<rparr>))"
proof -
  let ?s = "web0\<lparr>hs_request_timeout := 5, hs_request_in_progress := True\<rparr>"
  let ?f = "\<lambda>t. FailRequestDeadlineIfExpired ready_web (session_transport ready_env) greeting t HttpRequest_new ?s"
  have h: "as_handler (hs_active ?s) = None" "hs_request_started_at ?s = 0" by (simp_all add: web0_def HttpSession_new_def)
  have l: "length (wire_bytes (http_date ready_web (hs_asked ?s)) (plain_response kRequestTimeout ''Request Timeout'')) < 2 ^ 32"
    using plain_small(1) by (simp add: ready_web_def)
  have "fst (?f t) \<longleftrightarrow> 5 \<le> to_ms t" for t
    using deadline_exact [OF h(1) refl l, of ready_env greeting t HttpRequest_new "fst (?f t)" "fst (snd (?f t))" "snd (snd (?f t))"] h(2)
    by simp
  then show ?thesis by (simp add: to_ms_def)
qed

text \<open>
  A parse error is answered and ends the connection. Unless the handler of a streamed body has
  already responded, the response names the limit that was broken (414, 431 or 413) or is 400; it
  is sent if a buffer is available and the connection takes it, and the connection closes.
\<close>

theorem parse_error_answered:
  fixes k :: "('l, unit Session, 'h) HttpConnection"
  assumes "as_handler (hs_active (hc_session k)) = None" "as_response (hs_active (hc_session k)) = None"
    "MapParseError (pr_status (hc_parser k)) = (st, body)"
    "b = wire_bytes (http_date e (hs_asked (hc_session k))) (plain_response st body)" "length b < 2 ^ 32"
    "k' = fail_parse e (session_transport env) H k"
  shows "session_state (hs_base (hc_session k')) \<noteq> kOpen \<and>
     chars_of (accepted (hs_base (hc_session k'))) = chars_of (accepted (hs_base (hc_session k))) @
       (if pool_ok e (hs_asked (hc_session k)) \<and> fst (t_send (session_transport env) b (hs_base (hc_session k))) then b else []) \<and>
     (status_code st, pr_status (hc_parser k)) \<in>
       {(414, kUrlTooLong), (431, kHeadersTooLarge), (413, kBodyTooLarge), (400, kParseBadRequest), (400, kParseOk)}"
proof -
  have "AbortStreamingRequest e (session_transport env) H (pr_request (hc_parser k)) (hc_session k) =
      (pr_request (hc_parser k), hc_session k)"
    using assms(1) by (simp add: AbortStreamingRequest_def)
  then have "hc_session k' = base_Disconnect (session_transport env) (send_plain e (session_transport env) st body (hc_session k))"
    using assms(2,3,6) by (simp add: fail_parse_def ActiveStreamResponseSent_def)
  moreover have "(status_code st, pr_status (hc_parser k)) \<in>
       {(414, kUrlTooLong), (431, kHeadersTooLarge), (413, kBodyTooLarge), (400, kParseBadRequest), (400, kParseOk)}"
    using assms(3) by (cases "pr_status (hc_parser k)") auto
  ultimately show ?thesis
    using conn.base_Disconnect_sent conn.send_plain_sent [OF assms(4,5), of env] by simp
qed

definition long_url :: "(unit, unit Session, nat) HttpConnection" where
  "long_url = \<lparr>hc_session = web0, hc_parser = (HttpParser_new demo_options)\<lparr>pr_status := kUrlTooLong\<rparr>, hc_llhttp = (),
     hc_recv = RecvBuffer_new 65536\<rparr>"

theorem parse_error_answered_witness:
  "chars_of (accepted (hs_base (hc_session (fail_parse ready_web (session_transport ready_env) greeting long_url)))) =
     wire_bytes ''today'' (plain_response kUriTooLong ''URI Too Long'')"
proof -
  have h: "as_handler (hs_active (hc_session long_url)) = None" "as_response (hs_active (hc_session long_url)) = None"
    "MapParseError (pr_status (hc_parser long_url)) = (kUriTooLong, ''URI Too Long'')"
    "accepted (hs_base (hc_session long_url)) = []" "hs_base (hc_session long_url) = hs_base web0"
    by (simp_all add: long_url_def web0_def HttpSession_new_def Session_new_def)
  have l: "length (wire_bytes (http_date ready_web (hs_asked (hc_session long_url))) (plain_response kUriTooLong ''URI Too Long'')) < 2 ^ 32"
    using plain_small(2) by (simp add: ready_web_def)
  have "fst (t_send (session_transport ready_env) b (hs_base web0))" for b
    using roomy_send [of 15 "hs_base web0" b] web0_simps(2) by auto
  then show ?thesis
    using parse_error_answered [OF h(1-3) refl l refl, of ready_env greeting] h(4,5) by (simp add: ready_web_def chars_of_def)
qed

end
