(* ===== verification/Ring_Buffer.thy ===== *)
theory Ring_Buffer
  imports Runtime_Prelude
begin

text \<open>
  The provided-buffer ring of \<^verbatim>\<open>src/runtime/ring/RingBuffer.cpp\<close>: one mapping that holds the ring's
  metadata and, behind it, the buffers. liburing is a parameter: the mapping, the answer to the
  registration and the mask are arguments, and the calls the class makes on the ring are recorded
  in the order it makes them.
\<close>

unbundle bit_operations_syntax

section \<open>Powers of two\<close>

definition is_power_of_two :: "u32 \<Rightarrow> bool" where
  "is_power_of_two v \<longleftrightarrow> v > 0 \<and> v AND (v - 1) = 0"

text \<open>\<open>std::bit_width\<close>: the number of bits up to and including the highest one.\<close>

fun bit_width :: "nat \<Rightarrow> nat" where
  "bit_width n = (if n = 0 then 0 else Suc (bit_width (n div 2)))"

declare bit_width.simps [simp del]

definition log2u :: "u32 \<Rightarrow> nat" where
  "log2u v = bit_width (unat v) - 1"

lemma bit_width_power: "bit_width (2 ^ k) = Suc k"
  by (induction k) (simp_all add: bit_width.simps [of "2 ^ _"] bit_width.simps [of "2 * 2 ^ _"]
      bit_width.simps [of "Suc 0"] bit_width.simps [of 0])

lemma and_pred_even: "(2 * m) AND (2 * m - 1) = 2 * (m AND (m - 1))" if "m > 0" for m :: nat
proof -
  have "2 * m - 1 = Suc (2 * (m - 1))" using that by simp
  then show ?thesis by (simp add: and_nat_rec [of "2 * m"])
qed

lemma and_pred_odd: "Suc (2 * m) AND (2 * m) = 2 * m" for m :: nat
  by (simp add: and_nat_rec [of "Suc (2 * m)"])

lemma and_pred_power: "n > 0 \<Longrightarrow> n AND (n - 1) = 0 \<longleftrightarrow> (\<exists>k. n = 2 ^ k)" for n :: nat
proof (induction n rule: less_induct)
  case (less n)
  show ?case
  proof (cases "even n")
    case True
    then obtain m where m: "n = 2 * m" by blast
    then have "m > 0" "m < n" using less.prems by simp_all
    have "(\<exists>k. n = 2 ^ k) \<longleftrightarrow> (\<exists>k. m = 2 ^ k)"
    proof
      assume "\<exists>k. n = 2 ^ k"
      then obtain k where k: "n = 2 ^ k" by blast
      with m have "k \<noteq> 0" by (intro notI) simp
      with k m show "\<exists>k. m = 2 ^ k" by (cases k) auto
    next
      assume "\<exists>k. m = 2 ^ k"
      with m show "\<exists>k. n = 2 ^ k" by (metis power_Suc)
    qed
    then show ?thesis using less.IH [OF \<open>m < n\<close> \<open>m > 0\<close>] and_pred_even [OF \<open>m > 0\<close>] m by simp
  next
    case False
    then obtain m where m: "n = Suc (2 * m)" by (metis oddE Suc_eq_plus1)
    have "m = 0 \<longleftrightarrow> (\<exists>k. n = 2 ^ k)"
    proof
      assume "m = 0"
      with m show "\<exists>k. n = 2 ^ k" by (intro exI [of _ 0]) simp
    next
      assume "\<exists>k. n = 2 ^ k"
      then obtain k where k: "n = 2 ^ k" by blast
      with False have "k = 0" by simp
      with k m show "m = 0" by simp
    qed
    then show ?thesis using m by (simp add: and_pred_odd)
  qed
qed

lemma is_power_of_two_iff: "is_power_of_two v \<longleftrightarrow> (\<exists>k<32. unat v = 2 ^ k)"
proof (cases "v = 0")
  case False
  then have pos: "unat v > 0" by (simp add: unat_gt_0)
  have "unat (v - 1) = unat v - 1" using False by (simp add: unat_minus_one)
  then have "v AND (v - 1) = 0 \<longleftrightarrow> unat v AND (unat v - 1) = 0"
    by (metis unsigned_and_eq unat_eq_zero)
  also have "\<dots> \<longleftrightarrow> (\<exists>k. unat v = 2 ^ k)" by (rule and_pred_power [OF pos])
  also have "\<dots> \<longleftrightarrow> (\<exists>k<32. unat v = 2 ^ k)"
  proof -
    have "k < 32" if "unat v = 2 ^ k" for k
      using unat_u32_lt [of v] power_less_imp_less_exp [of "2 :: nat" k 32] that by simp
    then show ?thesis by blast
  qed
  finally show ?thesis using False by (simp add: is_power_of_two_def word_gt_0)
qed (simp add: is_power_of_two_def)

lemma log2u_power: "unat v = 2 ^ k \<Longrightarrow> log2u v = k"
  by (simp add: log2u_def bit_width_power)

section \<open>The class\<close>

record RingBufferConfig =
  buf_count :: u32
  buf_size :: u32
  group_id :: u16

text \<open>
  The calls on the kernel and on liburing. \<open>BufRingAdd addr len bid mask offset\<close> writes an entry
  \<open>offset\<close> places behind the tail, \<open>BufRingAdvance n\<close> moves the tail.
\<close>

datatype buf_call =
    MapMemory nat
  | UnmapMemory u64 nat
  | BufRingInit u64
  | RegisterBufRing u64 u32 u16
  | UnregisterBufRing u16
  | BufRingAdd u64 u32 u16 u32 int
  | BufRingAdvance int

text \<open>
  What the class asks of its surroundings: the address of the mapping (\<open>None\<close> for \<open>MAP_FAILED\<close>), the
  result of the registration, and \<open>io_uring_buf_ring_mask\<close>.
\<close>

record buf_env =
  mapping_at :: "u64 option"
  register_ret :: int
  ring_mask :: "u32 \<Rightarrow> u32"

record RingBuffer =
  rbuf_cfg :: RingBufferConfig
  rbuf_mmap :: u64
  rbuf_size_shift :: nat
  rbuf_data_base :: u64
  rbuf_available :: u32
  rbuf_calls :: "buf_call list"

definition sizeof_io_uring_buf :: u64 where
  "sizeof_io_uring_buf = 16"

definition meta_size :: "RingBufferConfig \<Rightarrow> u64" where
  "meta_size cfg = sizeof_io_uring_buf * ucast (buf_count cfg)"

definition data_size :: "RingBufferConfig \<Rightarrow> u64" where
  "data_size cfg = ucast (buf_size cfg) * ucast (buf_count cfg)"

definition fill_ring :: "buf_env \<Rightarrow> RingBufferConfig \<Rightarrow> u64 \<Rightarrow> nat \<Rightarrow> buf_call list" where
  "fill_ring e cfg data_base shift =
     map (\<lambda>i. BufRingAdd (data_base + push_bit shift (of_nat i)) (buf_size cfg) (of_nat i)
                (ring_mask e (buf_count cfg)) (int i))
       [0..<unat (ucast (buf_count cfg) :: u16)]"

definition RingBuffer_Create ::
    "buf_env \<Rightarrow> bool \<Rightarrow> RingBufferConfig \<Rightarrow> (RingError + RingBuffer) \<times> buf_call list" where
  "RingBuffer_Create e has_ring cfg =
     (if \<not> has_ring then (Inl kBufferRegistrationFailed, [])
      else if \<not> is_power_of_two (buf_count cfg) \<or> \<not> is_power_of_two (buf_size cfg)
      then (Inl kBufferRegistrationFailed, [])
      else let total = unat (meta_size cfg + data_size cfg)
           in case mapping_at e of
                None \<Rightarrow> (Inl kBufferRegistrationFailed, [MapMemory total])
              | Some p \<Rightarrow>
                  let calls = [MapMemory total, BufRingInit p,
                               RegisterBufRing p (buf_count cfg) (group_id cfg)]
                  in if register_ret e < 0
                     then (Inl kBufferRegistrationFailed, calls @ [UnmapMemory p total])
                     else let shift = log2u (buf_size cfg);
                              data_base = p + meta_size cfg;
                              calls1 = calls @ fill_ring e cfg data_base shift
                                         @ [BufRingAdvance (sint (buf_count cfg))]
                          in (Inr \<lparr>rbuf_cfg = cfg, rbuf_mmap = p, rbuf_size_shift = shift,
                                   rbuf_data_base = data_base, rbuf_available = buf_count cfg,
                                   rbuf_calls = calls1\<rparr>, calls1))"

definition buf_addr :: "RingBuffer \<Rightarrow> u16 \<Rightarrow> u64" where
  "buf_addr r buf_id = rbuf_data_base r + push_bit (rbuf_size_shift r) (ucast buf_id)"

text \<open>A span is its address and its length; the empty span has neither.\<close>

definition View :: "RingBuffer \<Rightarrow> u16 \<Rightarrow> u32 \<Rightarrow> (u64 \<times> u32) option" where
  "View r buf_id len =
     (if ucast buf_id \<ge> buf_count (rbuf_cfg r) then None
      else Some (buf_addr r buf_id, min len (buf_size (rbuf_cfg r))))"

definition Return :: "buf_env \<Rightarrow> u16 \<Rightarrow> RingBuffer \<Rightarrow> RingBuffer" where
  "Return e buf_id r =
     (if ucast buf_id \<ge> buf_count (rbuf_cfg r) then r
      else r\<lparr>rbuf_calls := rbuf_calls r @
                [BufRingAdd (buf_addr r buf_id) (buf_size (rbuf_cfg r)) buf_id
                   (ring_mask e (buf_count (rbuf_cfg r))) 0,
                 BufRingAdvance 1],
             rbuf_available := rbuf_available r + 1\<rparr>)"

definition RingBuffer_destroy :: "RingBuffer \<Rightarrow> buf_call list" where
  "RingBuffer_destroy r =
     rbuf_calls r @ [UnregisterBufRing (group_id (rbuf_cfg r)),
       UnmapMemory (rbuf_mmap r) (unat (meta_size (rbuf_cfg r) + data_size (rbuf_cfg r)))]"

section \<open>Layout\<close>

definition mapped :: "RingBuffer \<Rightarrow> nat" where
  "mapped r = 16 * unat (buf_count (rbuf_cfg r)) +
              unat (buf_size (rbuf_cfg r)) * unat (buf_count (rbuf_cfg r))"

text \<open>
  \<open>rbuf_ok\<close>: the sizes are powers of two, the ids are 16-bit, the mapping ends inside the address
  space, and every entry ever put on the ring is the slot of its id.
\<close>

definition entry_ok :: "RingBuffer \<Rightarrow> buf_call \<Rightarrow> bool" where
  "entry_ok r c =
     (case c of
        BufRingAdd addr len bid msk off \<Rightarrow>
          addr = buf_addr r bid \<and> len = buf_size (rbuf_cfg r) \<and>
          unat bid < unat (buf_count (rbuf_cfg r))
      | _ \<Rightarrow> True)"

definition rbuf_ok :: "RingBuffer \<Rightarrow> bool" where
  "rbuf_ok r \<longleftrightarrow>
     unat (buf_count (rbuf_cfg r)) \<le> 2 ^ 15 \<and>
     unat (buf_size (rbuf_cfg r)) = 2 ^ rbuf_size_shift r \<and>
     unat (rbuf_data_base r) = unat (rbuf_mmap r) + 16 * unat (buf_count (rbuf_cfg r)) \<and>
     unat (rbuf_mmap r) + mapped r < 2 ^ 64 \<and>
     list_all (entry_ok r) (rbuf_calls r)"

lemma ucast_of_nat_u16: "i < 2 ^ 16 \<Longrightarrow> (ucast (of_nat i :: u16) :: u64) = of_nat i"
  by (simp add: word_unat_eq_iff unat_ucast_u16_u64 unat_of_nat)

lemma buf_addr_slot:
  assumes ok: "rbuf_ok r" and id: "unat bid < unat (buf_count (rbuf_cfg r))"
  shows "unat (buf_addr r bid) =
           unat (rbuf_mmap r) + 16 * unat (buf_count (rbuf_cfg r)) +
           unat bid * unat (buf_size (rbuf_cfg r))"
    and "unat (buf_addr r bid) + unat (buf_size (rbuf_cfg r)) \<le> unat (rbuf_mmap r) + mapped r"
proof -
  let ?n = "unat (buf_count (rbuf_cfg r))" and ?z = "unat (buf_size (rbuf_cfg r))"
  have z: "?z = 2 ^ rbuf_size_shift r" and fit: "unat (rbuf_mmap r) + mapped r < 2 ^ 64"
    and base: "unat (rbuf_data_base r) = unat (rbuf_mmap r) + 16 * ?n"
    using ok by (simp_all add: rbuf_ok_def)
  have le: "unat bid * ?z + ?z \<le> ?z * ?n"
    using mult_le_mono1 [of "Suc (unat bid)" ?n ?z] id by (simp add: algebra_simps)
  then have bound: "unat (rbuf_data_base r) + unat bid * ?z < 2 ^ 64"
    using fit base by (simp add: mapped_def)
  then have "unat bid * ?z < 2 ^ 64" by linarith
  moreover have "unat (push_bit (rbuf_size_shift r) (ucast bid :: u64)) =
      take_bit 64 (push_bit (rbuf_size_shift r) (unat (ucast bid :: u64)))"
    by (simp only: unsigned_push_bit_eq) simp
  ultimately have "unat (push_bit (rbuf_size_shift r) (ucast bid :: u64)) = unat bid * ?z"
    by (simp add: push_bit_nat_def take_bit_nat_eq_self z unat_ucast_u16_u64)
  then show slot: "unat (buf_addr r bid) = unat (rbuf_mmap r) + 16 * ?n + unat bid * ?z"
    using bound base by (simp add: buf_addr_def unat_word_ariths(1))
  show "unat (buf_addr r bid) + ?z \<le> unat (rbuf_mmap r) + mapped r"
    using slot le by (simp add: mapped_def)
qed

lemma buf_addr_apart:
  assumes "rbuf_ok r" "unat i < unat (buf_count (rbuf_cfg r))" "unat j < unat (buf_count (rbuf_cfg r))"
    "unat i < unat j"
  shows "unat (buf_addr r i) + unat (buf_size (rbuf_cfg r)) \<le> unat (buf_addr r j)"
  using buf_addr_slot(1) [OF assms(1,2)] buf_addr_slot(1) [OF assms(1,3)]
    mult_le_mono1 [of "Suc (unat i)" "unat j" "unat (buf_size (rbuf_cfg r))"] assms(4)
  by simp

lemma id_in_range:
  "\<not> ucast bid \<ge> buf_count c \<longleftrightarrow> unat (bid :: u16) < unat (buf_count c)"
  by (simp add: not_le word_less_nat_alt unat_ucast_u16_u32)

lemma rbuf_ok_Create:
  assumes create: "RingBuffer_Create e b cfg = (Inr r, calls)"
    and count: "unat (buf_count cfg) \<le> 2 ^ 15"
    and fit: "unat (rbuf_mmap r) + mapped r < 2 ^ 64"
  shows "rbuf_ok r"
proof -
  from create have cfg [simp]: "rbuf_cfg r = cfg"
    and base: "rbuf_data_base r = rbuf_mmap r + meta_size cfg"
    and shift: "rbuf_size_shift r = log2u (buf_size cfg)"
    and calls: "\<exists>p t. rbuf_calls r = [MapMemory t, BufRingInit p, RegisterBufRing p (buf_count cfg) (group_id cfg)]
       @ fill_ring e cfg (rbuf_data_base r) (rbuf_size_shift r) @ [BufRingAdvance (sint (buf_count cfg))]"
    and pow: "is_power_of_two (buf_size cfg)"
    by (auto simp: RingBuffer_Create_def Let_def split: if_splits option.splits)
  have "unat (meta_size cfg) = 16 * unat (buf_count cfg)"
    using count by (simp add: meta_size_def sizeof_io_uring_buf_def unat_word_ariths(2)
        unat_ucast_u32_u64)
  then have "unat (rbuf_data_base r) = unat (rbuf_mmap r) + 16 * unat (buf_count cfg)"
    using fit by (simp add: base unat_word_ariths(1) mapped_def)
  moreover have "unat (buf_size cfg) = 2 ^ rbuf_size_shift r"
    using pow by (auto simp: is_power_of_two_iff shift log2u_power)
  moreover have "list_all (entry_ok r) (fill_ring e cfg (rbuf_data_base r) (rbuf_size_shift r))"
    using count by (auto simp: list_all_iff fill_ring_def entry_ok_def buf_addr_def
        unsigned_ucast_eq take_bit_nat_eq_self unat_of_nat ucast_of_nat_u16)
  ultimately show ?thesis
    using calls count fit by (auto simp: rbuf_ok_def entry_ok_def)
qed

lemma entry_ok_cong:
  "rbuf_cfg r' = rbuf_cfg r \<Longrightarrow> rbuf_data_base r' = rbuf_data_base r \<Longrightarrow>
   rbuf_size_shift r' = rbuf_size_shift r \<Longrightarrow> entry_ok r' = entry_ok r"
  by (auto simp: fun_eq_iff entry_ok_def buf_addr_def split: buf_call.splits)

lemma rbuf_ok_Return: "rbuf_ok r \<Longrightarrow> rbuf_ok (Return e bid r)"
proof (cases "ucast bid \<ge> buf_count (rbuf_cfg r)")
  case False
  assume ok: "rbuf_ok r"
  have "entry_ok (Return e bid r) = entry_ok r"
    by (rule entry_ok_cong) (simp_all add: Return_def)
  then show ?thesis
    using ok False id_in_range [of "rbuf_cfg r" bid]
    by (auto simp: rbuf_ok_def Return_def mapped_def) (simp_all add: entry_ok_def)
qed (simp add: Return_def)

definition return_all :: "buf_env \<Rightarrow> u16 list \<Rightarrow> RingBuffer \<Rightarrow> RingBuffer" where
  "return_all e ids r = foldl (\<lambda>r i. Return e i r) r ids"

lemma return_all_keeps:
  "rbuf_ok r \<Longrightarrow> rbuf_ok (return_all e ids r) \<and>
     rbuf_cfg (return_all e ids r) = rbuf_cfg r \<and> rbuf_mmap (return_all e ids r) = rbuf_mmap r"
proof (induction ids arbitrary: r)
  case (Cons i ids)
  then show ?case
    using rbuf_ok_Return [of r e i] by (simp add: return_all_def) (simp add: Return_def)
qed (simp add: return_all_def)

text \<open>
  C27: Once a buffer ring of at most 32768 buffers is created on a mapping that lies in the address
  space, and after any sequence of returns, every entry put on the ring is the slot of a valid id
  with the full buffer size, slots of different ids do not overlap, and a view of a buffer lies
  behind the metadata, inside the mapping, whatever length the kernel reported.
\<close>

theorem ring_slots:
  assumes "RingBuffer_Create e True cfg = (Inr r0, calls)" "unat (buf_count cfg) \<le> 2 ^ 15"
    and "unat (rbuf_mmap r0) + mapped r0 < 2 ^ 64"
    and r: "r = return_all e ids r0"
  shows "(BufRingAdd addr len bid msk off \<in> set (rbuf_calls r) \<longrightarrow>
            addr = buf_addr r bid \<and> len = buf_size cfg \<and> unat bid < unat (buf_count cfg)) \<and>
         (unat i < unat j \<and> unat j < unat (buf_count cfg) \<longrightarrow>
            unat (buf_addr r i) + unat (buf_size cfg) \<le> unat (buf_addr r j)) \<and>
         (View r i n = Some (a, l) \<longrightarrow>
            unat (rbuf_mmap r0) + 16 * unat (buf_count cfg) \<le> unat a \<and>
            unat a + unat l \<le> unat (rbuf_mmap r0) + mapped r0)"
proof -
  have cfg: "rbuf_cfg r0 = cfg"
    using assms(1) by (auto simp: RingBuffer_Create_def Let_def split: if_splits option.splits)
  note keeps = return_all_keeps [OF rbuf_ok_Create [OF assms(1-3)], of e ids, folded r]
  have ok: "rbuf_ok r" and c: "rbuf_cfg r = cfg" and m: "rbuf_mmap r = rbuf_mmap r0"
    using keeps cfg by simp_all
  have "mapped r = mapped r0" by (simp add: mapped_def c cfg)
  moreover have "View r i n = Some (a, l) \<Longrightarrow> unat i < unat (buf_count cfg) \<and> a = buf_addr r i \<and>
      unat l \<le> unat (buf_size cfg)"
    using id_in_range [of cfg i] by (auto simp: View_def c word_le_nat_alt min_def split: if_splits)
  ultimately have "View r i n = Some (a, l) \<longrightarrow>
      unat (rbuf_mmap r0) + 16 * unat (buf_count cfg) \<le> unat a \<and>
      unat a + unat l \<le> unat (rbuf_mmap r0) + mapped r0"
    using buf_addr_slot [OF ok, of i] by (auto simp: c m)
  moreover have "BufRingAdd addr len bid msk off \<in> set (rbuf_calls r) \<longrightarrow>
      addr = buf_addr r bid \<and> len = buf_size cfg \<and> unat bid < unat (buf_count cfg)"
    using ok by (auto simp: rbuf_ok_def list_all_iff entry_ok_def c)
  ultimately show ?thesis using buf_addr_apart [OF ok, of i j] by (simp add: c)
qed

definition cfg4 :: RingBufferConfig where
  "cfg4 = \<lparr>buf_count = 4, buf_size = 8, group_id = 1\<rparr>"

definition buf_env4 :: buf_env where
  "buf_env4 = \<lparr>mapping_at = Some 4096, register_ret = 0, ring_mask = (\<lambda>n. n - 1)\<rparr>"

definition rbuf4 :: RingBuffer where
  "rbuf4 = (case fst (RingBuffer_Create buf_env4 True cfg4) of Inr r \<Rightarrow> r)"

lemma rbuf4_Create:
  "\<exists>calls. RingBuffer_Create buf_env4 True cfg4 = (Inr rbuf4, calls)"
  "rbuf_mmap rbuf4 = 4096" "rbuf_cfg rbuf4 = cfg4" "rbuf_available rbuf4 = 4"
  by (simp_all add: rbuf4_def RingBuffer_Create_def cfg4_def buf_env4_def is_power_of_two_def Let_def)

theorem ring_slots_witness:
  "unat (buf_addr (return_all buf_env4 [2, 0, 9] rbuf4) 1) + 8 \<le>
     unat (buf_addr (return_all buf_env4 [2, 0, 9] rbuf4) 3)"
proof -
  obtain calls where c: "RingBuffer_Create buf_env4 True cfg4 = (Inr rbuf4, calls)"
    using rbuf4_Create(1) by blast
  show ?thesis
    using ring_slots [OF c _ _ refl, where ids = "[2, 0, 9]" and i = 1 and j = 3]
    by (simp add: cfg4_def mapped_def rbuf4_Create(2,3))
qed

text \<open>
  \<open>Available()\<close> starts at the number of buffers and no operation lowers it: after \<open>k\<close> returns
  of buffers the kernel had filled it reports \<open>k\<close> more buffers than exist.
\<close>

theorem Available_grows:
  assumes "RingBuffer_Create e True cfg = (Inr r, calls)"
    and "\<forall>i\<in>set ids. unat i < unat (buf_count cfg)"
  shows "rbuf_available (return_all e ids r) = buf_count cfg + of_nat (length ids)"
proof -
  have r: "rbuf_cfg r = cfg" "rbuf_available r = buf_count cfg"
    using assms(1) by (auto simp: RingBuffer_Create_def Let_def split: if_splits option.splits)
  have "rbuf_cfg r = cfg \<Longrightarrow> \<forall>i\<in>set ids. unat i < unat (buf_count cfg) \<Longrightarrow>
      rbuf_available (return_all e ids r) = rbuf_available r + of_nat (length ids)"
  proof (induction ids arbitrary: r)
    case (Cons i ids)
    have "rbuf_available (Return e i r) = rbuf_available r + 1" "rbuf_cfg (Return e i r) = cfg"
      using Cons.prems id_in_range [of cfg i] by (simp_all add: Return_def)
    then show ?case using Cons.IH [of "Return e i r"] Cons.prems by (simp add: return_all_def)
  qed (simp add: return_all_def)
  then show ?thesis using r assms(2) by simp
qed

theorem Available_grows_witness:
  "rbuf_available (return_all buf_env4 [2, 0] rbuf4) = 6"
proof -
  obtain calls where c: "RingBuffer_Create buf_env4 True cfg4 = (Inr rbuf4, calls)"
    using rbuf4_Create(1) by blast
  show ?thesis using Available_grows [OF c, of "[2, 0]"] by (simp add: cfg4_def)
qed

end
