(* ===== verification/Io_Ring.thy ===== *)
theory Io_Ring
  imports Ring_Buffer Session_Model Unordered_Map "HOL-Library.Signed_Division"
begin

text \<open>
  The ring of \<^verbatim>\<open>src/runtime/ring/IoRing.cpp\<close> with the events of \<^verbatim>\<open>core/RingEvent.h\<close> and the session
  table of \<^verbatim>\<open>src/runtime/io/SessionManager.cpp\<close>: preparing and submitting requests, dispatching
  completions, and tasks handed over from other threads. liburing and the kernel are a record of
  answers, asked by number; tasks and completion handlers are a parameter too, each call of one
  being the list of the ring operations it performs.
\<close>

section \<open>The session table\<close>

text \<open>A \<open>SessionRef\<close> is the address it points at, 0 for null.\<close>

type_synonym addr = u64
type_synonym SessionManager = "(addr, addr) umap"

definition SessionManager_Add :: "addr \<Rightarrow> SessionManager \<Rightarrow> bool \<times> SessionManager" where
  "SessionManager_Add session m = (if session = 0 then (False, m) else um_emplace session session m)"

definition SessionManager_Release :: "addr \<Rightarrow> SessionManager \<Rightarrow> SessionManager" where
  "SessionManager_Release session m = (if session = 0 then m else um_erase session m)"

definition SessionManager_Snapshot :: "SessionManager \<Rightarrow> addr list" where
  "SessionManager_Snapshot m = map snd m"

definition SessionManager_Count :: "SessionManager \<Rightarrow> nat" where
  "SessionManager_Count m = length m"

definition SessionManager_Clear :: "SessionManager \<Rightarrow> SessionManager" where
  "SessionManager_Clear m = []"

section \<open>Events\<close>

datatype EventType =
    kAccept | kRecv | kRead | kWrite | kSend | kConnect | kDisconnect | kCancel | kPoll | kTimeoutEv

datatype event_data =
    NoData
  | RecvData u16 nat
  | SendData u64
  | CancelData addr
  | TimeoutData int int

text \<open>
  An event is its type, its handler (\<open>None\<close> when no completion is set), whether the dispatcher
  deletes it, and what its class adds: the id and the size of a receive buffer, the bytes a send
  asked for, the target of a cancellation, a timespec.
\<close>

record 'k IoEvent =
  ev_type :: EventType
  ev_completion :: "'k option"
  ev_keep_alive :: "addr option"
  ev_auto_delete :: bool
  ev_data :: event_data

definition IoEvent_new :: "EventType \<Rightarrow> 'k IoEvent" where
  "IoEvent_new t =
     \<lparr>ev_type = t, ev_completion = None, ev_keep_alive = None, ev_auto_delete = False,
      ev_data = (case t of kRecv \<Rightarrow> RecvData 0 0 | kSend \<Rightarrow> SendData 0 | kCancel \<Rightarrow> CancelData 0
                 | kTimeoutEv \<Rightarrow> TimeoutData 0 0 | _ \<Rightarrow> NoData)\<rparr>"

definition MultishotDispatchResult :: "u32 \<Rightarrow> DispatchResult" where
  "MultishotDispatchResult flags =
     (if flags AND IORING_CQE_F_MORE \<noteq> 0 then kPending else kComplete)"

definition DefaultDispatchResult :: "'k IoEvent \<Rightarrow> u32 \<Rightarrow> DispatchResult" where
  "DefaultDispatchResult ev flags =
     (case ev_type ev of
        kAccept \<Rightarrow> MultishotDispatchResult flags
      | kRecv \<Rightarrow> MultishotDispatchResult flags
      | _ \<Rightarrow> kComplete)"

definition ShouldDeleteAfterDispatch :: "'k IoEvent \<Rightarrow> DispatchResult \<Rightarrow> bool" where
  "ShouldDeleteAfterDispatch ev res \<longleftrightarrow> ev_auto_delete ev \<and> res = kComplete"

definition BindCompletion :: "addr \<Rightarrow> 'k \<Rightarrow> 'k IoEvent \<Rightarrow> 'k IoEvent" where
  "BindCompletion own handler ev = ev\<lparr>ev_keep_alive := Some own, ev_completion := Some handler\<rparr>"

definition EnsureBuffer :: "nat \<Rightarrow> 'k IoEvent \<Rightarrow> 'k IoEvent" where
  "EnsureBuffer n ev =
     (case ev_data ev of
        RecvData i size' \<Rightarrow> if size' < n then ev\<lparr>ev_data := RecvData i n\<rparr> else ev
      | _ \<Rightarrow> ev)"

definition BufferCapacity :: "'k IoEvent \<Rightarrow> nat" where
  "BufferCapacity ev = (case ev_data ev of RecvData i size' \<Rightarrow> size' | _ \<Rightarrow> 0)"

section \<open>Requests and completions\<close>

text \<open>
  A request is the operation with its arguments, the buffer group it selects from, whether a
  success posts no completion, and the word the completion carries back.
\<close>

datatype sqe_op =
    OpRecv int nat
  | OpRecvMultishot int
  | OpRead int addr u32 u64
  | OpWrite int addr u32 u64
  | OpSendMsg int u32
  | OpAccept int
  | OpAcceptMultishot int
  | OpShutdown int
  | OpTimeout int int
  | OpCancel addr
  | OpConnect int
  | OpPollAdd int u32
  | OpPollRemove addr
  | OpMsgRing int u64

record sqe =
  sqe_op :: sqe_op
  sqe_buf_group :: "u16 option"
  sqe_skip_success :: bool
  sqe_user_data :: u64

record cqe =
  cqe_user_data :: u64
  cqe_res :: int
  cqe_flags :: u32

definition plain_sqe :: "sqe_op \<Rightarrow> u64 \<Rightarrow> sqe" where
  "plain_sqe op data =
     \<lparr>sqe_op = op, sqe_buf_group = None, sqe_skip_success = False, sqe_user_data = data\<rparr>"

text \<open>
  The surroundings of a ring. \<open>submit_taken\<close> is how many of the queued requests the kernel takes at
  a call of \<open>io_uring_submit\<close>, \<open>arrivals\<close> the completions that become visible while one dispatch
  drains the completion queue, \<open>new_task\<close> the address of a new task object, and \<open>stale_data\<close> the
  \<open>user_data\<close> a request has when it is handed out, which \<open>io_uring_get_sqe\<close> does not clear.
\<close>

record uring =
  get_sqe_ok :: "nat \<Rightarrow> bool"
  submit_ret :: "nat \<Rightarrow> int"
  submit_taken :: "nat \<Rightarrow> nat \<Rightarrow> nat"
  wait_ret :: "nat \<Rightarrow> int \<times> int \<Rightarrow> int"
  arrivals :: "nat \<Rightarrow> cqe list"
  new_task :: "nat \<Rightarrow> addr option"
  stale_data :: "nat \<Rightarrow> u64"

text \<open>
  The ring. The flag of a posted task says whether another thread posted it; the fields from
  \<open>ior_sq\<close> on are the kernel's side and history: requests prepared and requests taken, completions
  not yet consumed, the counter of the wake-up descriptor, the tasks ever posted and those that
  have run, and the messages of other rings that have run.
\<close>

record 't IoRing =
  ior_buf_ring :: "RingBuffer option"
  ior_sessions :: SessionManager
  ior_submit_batch_size :: u32
  ior_cqe_batch_budget :: u32
  ior_pending_submissions :: u32
  ior_posted :: "(bool \<times> 't) list"
  ior_wake_fd :: int
  ior_wake_poll_armed :: bool
  ior_fd :: int
  ior_sq :: "sqe list"
  ior_submitted :: "sqe list"
  ior_cq :: "cqe list"
  ior_wake_count :: nat
  ior_ever :: "'t list"
  ior_ran :: "'t list"
  ior_messages :: "'t list"
  ior_asked :: nat

definition GetSqe :: "uring \<Rightarrow> 't IoRing \<Rightarrow> bool \<times> 't IoRing" where
  "GetSqe u r = (get_sqe_ok u (ior_asked r), r\<lparr>ior_asked := Suc (ior_asked r)\<rparr>)"

definition put_sqe :: "sqe \<Rightarrow> 't IoRing \<Rightarrow> 't IoRing" where
  "put_sqe q r = r\<lparr>ior_sq := ior_sq r @ [q]\<rparr>"

definition io_uring_submit :: "uring \<Rightarrow> 't IoRing \<Rightarrow> int \<times> 't IoRing" where
  "io_uring_submit u r =
     (let n = ior_asked r; k = submit_taken u n (length (ior_sq r))
      in (submit_ret u n,
          r\<lparr>ior_asked := Suc n, ior_submitted := ior_submitted r @ take k (ior_sq r),
            ior_sq := drop k (ior_sq r)\<rparr>))"

definition FlushSubmissions :: "uring \<Rightarrow> 't IoRing \<Rightarrow> int \<times> 't IoRing" where
  "FlushSubmissions u r =
     (if ior_pending_submissions r = 0 then (0, r)
      else io_uring_submit u (r\<lparr>ior_pending_submissions := 0\<rparr>))"

definition Submit :: "uring \<Rightarrow> 't IoRing \<Rightarrow> int \<times> 't IoRing" where
  "Submit u r =
     (let r1 = r\<lparr>ior_pending_submissions := ior_pending_submissions r + 1\<rparr>
      in if ior_pending_submissions r1 < ior_submit_batch_size r1 then (0, r1)
         else FlushSubmissions u r1)"

definition kWakeUserData :: u64 where
  "kWakeUserData = 2"

definition POLLIN :: u32 where
  "POLLIN = 1"

definition ArmWakePoll :: "uring \<Rightarrow> 't IoRing \<Rightarrow> 't IoRing" where
  "ArmWakePoll u r =
     (if ior_wake_fd r < 0 \<or> ior_wake_poll_armed r then r
      else let (ok, r1) = GetSqe u r
           in if \<not> ok then r1
              else let (ret, r2) = io_uring_submit u
                         (put_sqe (plain_sqe (OpPollAdd (ior_wake_fd r1) POLLIN) kWakeUserData) r1)
                   in if ret < 0 then r2 else r2\<lparr>ior_wake_poll_armed := True\<rparr>)"

text \<open>The descriptor is an \<open>eventfd\<close>: a read takes the whole counter, a write adds to it.\<close>

definition DrainWakeFd :: "'t IoRing \<Rightarrow> 't IoRing" where
  "DrainWakeFd r = (if ior_wake_fd r < 0 then r else r\<lparr>ior_wake_count := 0\<rparr>)"

definition Wake :: "'t IoRing \<Rightarrow> 't IoRing" where
  "Wake r = (if ior_wake_fd r < 0 then r else r\<lparr>ior_wake_count := Suc (ior_wake_count r)\<rparr>)"

section \<open>Creating a ring\<close>

record IoRingConfig =
  queue_depth :: nat
  cfg_buf_ring :: RingBufferConfig
  submit_batch_size :: u32
  cqe_batch_budget :: u32
  single_issuer :: bool
  sqpoll :: bool
  sq_thread_idle :: u32
  sq_thread_cpu :: int

record io_uring_params =
  par_single_issuer :: bool
  par_sqpoll :: bool
  par_sq_aff :: bool
  par_sq_thread_idle :: u32
  par_sq_thread_cpu :: u32

text \<open>
  \<open>queue_init\<close> answers \<open>io_uring_queue_init_params\<close>; the list is the parameters it was called with.
\<close>

record ring_setup =
  alloc_ring :: bool
  queue_init :: "nat \<Rightarrow> io_uring_params \<Rightarrow> int"
  setup_fd :: int
  setup_eventfd :: int
  setup_buf :: buf_env

definition EPERM :: int where "EPERM = 1"

definition ring_params :: "IoRingConfig \<Rightarrow> io_uring_params" where
  "ring_params cfg =
     (let p0 = \<lparr>par_single_issuer = single_issuer cfg, par_sqpoll = False, par_sq_aff = False,
                par_sq_thread_idle = 0, par_sq_thread_cpu = 0\<rparr>
      in if \<not> sqpoll cfg then p0
         else let p1 = p0\<lparr>par_sqpoll := True, par_sq_thread_idle := sq_thread_idle cfg\<rparr>
              in if sq_thread_cpu cfg \<ge> 0
                 then p1\<lparr>par_sq_aff := True, par_sq_thread_cpu := word_of_int (sq_thread_cpu cfg)\<rparr>
                 else p1)"

definition without_sqpoll :: "io_uring_params \<Rightarrow> io_uring_params" where
  "without_sqpoll p =
     p\<lparr>par_sqpoll := False, par_sq_aff := False, par_sq_thread_idle := 0, par_sq_thread_cpu := 0\<rparr>"

definition init_queue :: "ring_setup \<Rightarrow> IoRingConfig \<Rightarrow> int \<times> io_uring_params list" where
  "init_queue z cfg =
     (let p = ring_params cfg; ret = queue_init z 0 p
      in if ret < 0 \<and> sqpoll cfg \<and> ret = - EPERM
         then (queue_init z 1 (without_sqpoll p), [p, without_sqpoll p])
         else (ret, [p]))"

definition IoRing_new ::
    "uring \<Rightarrow> ring_setup \<Rightarrow> RingBuffer option \<Rightarrow> u32 \<Rightarrow> u32 \<Rightarrow> 't IoRing" where
  "IoRing_new u z br batch budget =
     (let r = \<lparr>ior_buf_ring = br, ior_sessions = [], ior_submit_batch_size = batch,
               ior_cqe_batch_budget = budget, ior_pending_submissions = 0, ior_posted = [],
               ior_wake_fd = setup_eventfd z, ior_wake_poll_armed = False, ior_fd = setup_fd z,
               ior_sq = [], ior_submitted = [], ior_cq = [], ior_wake_count = 0, ior_ever = [],
               ior_ran = [], ior_messages = [], ior_asked = 0\<rparr>
      in if ior_wake_fd r < 0 then r else ArmWakePoll u r)"

definition IoRing_Create ::
    "uring \<Rightarrow> ring_setup \<Rightarrow> IoRingConfig \<Rightarrow> RingError + 't IoRing" where
  "IoRing_Create u z cfg =
     (if \<not> alloc_ring z then Inl kSetupFailed
      else if fst (init_queue z cfg) < 0 then Inl kSetupFailed
      else Inr (IoRing_new u z
                 (case fst (RingBuffer_Create (setup_buf z) True (cfg_buf_ring cfg)) of
                    Inl _ \<Rightarrow> None
                  | Inr b \<Rightarrow> Some b)
                 (max 1 (submit_batch_size cfg)) (cqe_batch_budget cfg)))"

section \<open>Preparing requests\<close>

definition prep_plain :: "uring \<Rightarrow> sqe_op \<Rightarrow> u64 \<Rightarrow> 't IoRing \<Rightarrow> bool \<times> 't IoRing" where
  "prep_plain u op data r =
     (let (ok, r1) = GetSqe u r in if \<not> ok then (False, r1) else (True, put_sqe (plain_sqe op data) r1))"

definition PrepRecv ::
    "uring \<Rightarrow> addr \<Rightarrow> int \<Rightarrow> 'k IoEvent \<Rightarrow> 't IoRing \<Rightarrow> bool \<times> 'k IoEvent \<times> 't IoRing" where
  "PrepRecv u p fd ev r =
     (let (ok, r1) = GetSqe u r
      in if \<not> ok then (False, ev, r1)
         else case ior_buf_ring r1 of
                Some b \<Rightarrow>
                  (True, ev, put_sqe ((plain_sqe (OpRecv fd 0) p)
                                        \<lparr>sqe_buf_group := Some (group_id (rbuf_cfg b))\<rparr>) r1)
              | None \<Rightarrow>
                  let ev1 = EnsureBuffer 8192 ev
                  in (True, ev1, put_sqe (plain_sqe (OpRecv fd (BufferCapacity ev1)) p) r1))"

definition PrepRecvMultishot ::
    "uring \<Rightarrow> addr \<Rightarrow> int \<Rightarrow> 'k IoEvent \<Rightarrow> 't IoRing \<Rightarrow> bool \<times> 'k IoEvent \<times> 't IoRing" where
  "PrepRecvMultishot u p fd ev r =
     (case ior_buf_ring r of
        None \<Rightarrow> PrepRecv u p fd ev r
      | Some b \<Rightarrow>
          let (ok, r1) = GetSqe u r
          in if \<not> ok then (False, ev, r1)
             else (True, ev, put_sqe ((plain_sqe (OpRecvMultishot fd) p)
                                        \<lparr>sqe_buf_group := Some (group_id (rbuf_cfg b))\<rparr>) r1))"

definition PrepRead :: "uring \<Rightarrow> addr \<Rightarrow> int \<Rightarrow> addr \<Rightarrow> u32 \<Rightarrow> u64 \<Rightarrow> 't IoRing \<Rightarrow> bool \<times> 't IoRing" where
  "PrepRead u p fd buf nbytes off = prep_plain u (OpRead fd buf nbytes off) p"

definition PrepWrite :: "uring \<Rightarrow> addr \<Rightarrow> int \<Rightarrow> addr \<Rightarrow> u32 \<Rightarrow> u64 \<Rightarrow> 't IoRing \<Rightarrow> bool \<times> 't IoRing" where
  "PrepWrite u p fd buf nbytes off = prep_plain u (OpWrite fd buf nbytes off) p"

definition PrepSendMsg ::
    "uring \<Rightarrow> addr \<Rightarrow> int \<Rightarrow> u64 list \<Rightarrow> u32 \<Rightarrow> 'k IoEvent \<Rightarrow> 't IoRing \<Rightarrow>
       bool \<times> 'k IoEvent \<times> 't IoRing" where
  "PrepSendMsg u p fd iov_lens flags ev r =
     (let (ok, r1) = GetSqe u r
      in if \<not> ok then (False, ev, r1)
         else let total = foldl (+) 0 iov_lens
              in (True, ev\<lparr>ev_data := SendData total\<rparr>,
                  put_sqe (plain_sqe (OpSendMsg fd flags) p) r1))"

definition PrepAcceptMultishot :: "uring \<Rightarrow> addr \<Rightarrow> int \<Rightarrow> 't IoRing \<Rightarrow> bool \<times> 't IoRing" where
  "PrepAcceptMultishot u p listen_fd r =
     prep_plain u (if ior_buf_ring r \<noteq> None then OpAcceptMultishot listen_fd else OpAccept listen_fd) p r"

definition PrepDisconnect :: "uring \<Rightarrow> addr \<Rightarrow> int \<Rightarrow> 't IoRing \<Rightarrow> bool \<times> 't IoRing" where
  "PrepDisconnect u p fd = prep_plain u (OpShutdown fd) p"

text \<open>Durations are nanoseconds; \<open>duration_cast\<close> truncates towards zero.\<close>

definition PrepTimeout ::
    "uring \<Rightarrow> addr \<Rightarrow> int \<Rightarrow> 'k IoEvent \<Rightarrow> 't IoRing \<Rightarrow> bool \<times> 'k IoEvent \<times> 't IoRing" where
  "PrepTimeout u p duration ev r =
     (let (ok, r1) = GetSqe u r
      in if \<not> ok then (False, ev, r1)
         else let secs = duration sdiv 1000000000;
                  rest = duration - secs * 1000000000
              in (True, ev\<lparr>ev_data := TimeoutData secs rest\<rparr>,
                  put_sqe (plain_sqe (OpTimeout secs rest) p) r1))"

definition PrepCancel :: "uring \<Rightarrow> addr \<Rightarrow> addr option \<Rightarrow> 't IoRing \<Rightarrow> bool \<times> 't IoRing" where
  "PrepCancel u target_ev cancel_ev =
     prep_plain u (OpCancel target_ev) (case cancel_ev of None \<Rightarrow> 0 | Some p \<Rightarrow> p)"

definition PrepConnect :: "uring \<Rightarrow> addr \<Rightarrow> int \<Rightarrow> 't IoRing \<Rightarrow> bool \<times> 't IoRing" where
  "PrepConnect u p fd = prep_plain u (OpConnect fd) p"

definition PrepPollAdd :: "uring \<Rightarrow> addr \<Rightarrow> int \<Rightarrow> u32 \<Rightarrow> 't IoRing \<Rightarrow> bool \<times> 't IoRing" where
  "PrepPollAdd u p fd poll_mask = prep_plain u (OpPollAdd fd poll_mask) p"

definition PrepPollRemove :: "uring \<Rightarrow> addr \<Rightarrow> 't IoRing \<Rightarrow> bool \<times> 't IoRing" where
  "PrepPollRemove u p = prep_plain u (OpPollRemove p) 0"

section \<open>Tasks, handlers and dispatch\<close>

text \<open>What a task or a completion handler does to the ring it runs on.\<close>

datatype ('t, 'k) ring_call =
    CPost 't
  | CSubmit
  | CNewEvent addr "'k IoEvent"
  | CDeleteEvent addr
  | CRecv addr int
  | CRecvMultishot addr int
  | CRead addr int addr u32 u64
  | CWrite addr int addr u32 u64
  | CSendMsg addr int "u64 list" u32
  | CAccept addr int
  | CDisconnect addr int
  | CTimeout addr int
  | CCancel addr "addr option"
  | CConnect addr int
  | CPollAdd addr int u32
  | CPollRemove addr
  | CAddSession addr
  | CReleaseSession addr
  | CReturnBuffer u16

record ('t, 'k) host =
  task_calls :: "nat \<Rightarrow> 't \<Rightarrow> ('t, 'k) ring_call list"
  handler_calls :: "nat \<Rightarrow> 'k \<Rightarrow> int \<Rightarrow> u32 \<Rightarrow> ('t, 'k) ring_call list \<times> DispatchResult"
  host_buf :: buf_env

record ('t, 'k) heap =
  hp_tasks :: "addr \<Rightarrow> 't option"
  hp_events :: "addr \<Rightarrow> 'k IoEvent option"

type_synonym ('t, 'k) sys = "('t, 'k) heap \<times> 't IoRing"

definition push_posted :: "bool \<Rightarrow> 't \<Rightarrow> 't IoRing \<Rightarrow> 't IoRing" where
  "push_posted foreign t r =
     r\<lparr>ior_posted := ior_posted r @ [(foreign, t)], ior_ever := ior_ever r @ [t]\<rparr>"

definition Post :: "bool \<Rightarrow> 't \<Rightarrow> 't IoRing \<Rightarrow> 't IoRing" where
  "Post on_ring t r =
     (let r1 = push_posted (\<not> on_ring) t r in if \<not> on_ring then Wake r1 else r1)"

definition on_event ::
    "addr \<Rightarrow> ('k IoEvent \<Rightarrow> 't IoRing \<Rightarrow> bool \<times> 'k IoEvent \<times> 't IoRing) \<Rightarrow>
     ('t, 'k) sys \<Rightarrow> fault + ('t, 'k) sys" where
  "on_event p f s =
     (case hp_events (fst s) p of
        None \<Rightarrow> Inl UseAfterFree
      | Some ev \<Rightarrow>
          let (ok, ev1, r1) = f ev (snd s)
          in Inr ((fst s)\<lparr>hp_events := (hp_events (fst s))(p \<mapsto> ev1)\<rparr>, r1))"

fun run_call ::
    "uring \<Rightarrow> ('t, 'k) host \<Rightarrow> ('t, 'k) ring_call \<Rightarrow> ('t, 'k) sys \<Rightarrow> fault + ('t, 'k) sys" where
  "run_call u H (CPost t) (h, r) = Inr (h, Post True t r)"
| "run_call u H CSubmit (h, r) = Inr (h, snd (Submit u r))"
| "run_call u H (CNewEvent p ev) (h, r) = Inr (h\<lparr>hp_events := (hp_events h)(p \<mapsto> ev)\<rparr>, r)"
| "run_call u H (CDeleteEvent p) (h, r) =
     (if hp_events h p = None then Inl UseAfterFree
      else Inr (h\<lparr>hp_events := (hp_events h)(p := None)\<rparr>, r))"
| "run_call u H (CRecv p fd) s = on_event p (PrepRecv u p fd) s"
| "run_call u H (CRecvMultishot p fd) s = on_event p (PrepRecvMultishot u p fd) s"
| "run_call u H (CRead p fd buf n off) (h, r) = Inr (h, snd (PrepRead u p fd buf n off r))"
| "run_call u H (CWrite p fd buf n off) (h, r) = Inr (h, snd (PrepWrite u p fd buf n off r))"
| "run_call u H (CSendMsg p fd lens flags) s = on_event p (PrepSendMsg u p fd lens flags) s"
| "run_call u H (CAccept p fd) (h, r) = Inr (h, snd (PrepAcceptMultishot u p fd r))"
| "run_call u H (CDisconnect p fd) (h, r) = Inr (h, snd (PrepDisconnect u p fd r))"
| "run_call u H (CTimeout p d) s = on_event p (PrepTimeout u p d) s"
| "run_call u H (CCancel p c) (h, r) = Inr (h, snd (PrepCancel u p c r))"
| "run_call u H (CConnect p fd) (h, r) = Inr (h, snd (PrepConnect u p fd r))"
| "run_call u H (CPollAdd p fd m) (h, r) = Inr (h, snd (PrepPollAdd u p fd m r))"
| "run_call u H (CPollRemove p) (h, r) = Inr (h, snd (PrepPollRemove u p r))"
| "run_call u H (CAddSession p) (h, r) =
     Inr (h, r\<lparr>ior_sessions := snd (SessionManager_Add p (ior_sessions r))\<rparr>)"
| "run_call u H (CReleaseSession p) (h, r) =
     Inr (h, r\<lparr>ior_sessions := SessionManager_Release p (ior_sessions r)\<rparr>)"
| "run_call u H (CReturnBuffer i) (h, r) =
     (case ior_buf_ring r of
        None \<Rightarrow> Inl NullDeref
      | Some b \<Rightarrow> Inr (h, r\<lparr>ior_buf_ring := Some (Return (host_buf H) i b)\<rparr>))"

fun run_calls ::
    "uring \<Rightarrow> ('t, 'k) host \<Rightarrow> ('t, 'k) ring_call list \<Rightarrow> ('t, 'k) sys \<Rightarrow> fault + ('t, 'k) sys" where
  "run_calls u H [] s = Inr s"
| "run_calls u H (c # cs) s =
     (case run_call u H c s of Inl f \<Rightarrow> Inl f | Inr s1 \<Rightarrow> run_calls u H cs s1)"

definition invoke_task :: "uring \<Rightarrow> ('t, 'k) host \<Rightarrow> 't \<Rightarrow> ('t, 'k) sys \<Rightarrow> fault + ('t, 'k) sys" where
  "invoke_task u H t s =
     run_calls u H (task_calls H (ior_asked (snd s)) t)
       (fst s, (snd s)\<lparr>ior_asked := Suc (ior_asked (snd s))\<rparr>)"

text \<open>\<open>IoEvent::Dispatch\<close>: the handler when there is one, the default otherwise.\<close>

definition IoEvent_Dispatch ::
    "uring \<Rightarrow> ('t, 'k) host \<Rightarrow> 'k IoEvent \<Rightarrow> int \<Rightarrow> u32 \<Rightarrow> ('t, 'k) sys \<Rightarrow>
       fault + DispatchResult \<times> ('t, 'k) sys" where
  "IoEvent_Dispatch u H ev res flags s =
     (case ev_completion ev of
        None \<Rightarrow> Inr (DefaultDispatchResult ev flags, s)
      | Some k \<Rightarrow>
          let n = ior_asked (snd s); (calls, out) = handler_calls H n k res flags
          in case run_calls u H calls (fst s, (snd s)\<lparr>ior_asked := Suc n\<rparr>) of
               Inl f \<Rightarrow> Inl f
             | Inr s1 \<Rightarrow> Inr (out, s1))"

text \<open>One completion, by the tag of its word: bit 0 marks a task of another ring.\<close>

definition dispatch_task ::
    "uring \<Rightarrow> ('t, 'k) host \<Rightarrow> addr \<Rightarrow> ('t, 'k) sys \<Rightarrow> fault + ('t, 'k) sys" where
  "dispatch_task u H p s =
     (case hp_tasks (fst s) p of
        None \<Rightarrow> Inl UseAfterFree
      | Some t \<Rightarrow>
          (case invoke_task u H t s of
             Inl f \<Rightarrow> Inl f
           | Inr (h, r) \<Rightarrow> Inr (h\<lparr>hp_tasks := (hp_tasks h)(p := None)\<rparr>,
                               r\<lparr>ior_messages := ior_messages r @ [t]\<rparr>)))"

definition dispatch_event ::
    "uring \<Rightarrow> ('t, 'k) host \<Rightarrow> addr \<Rightarrow> int \<Rightarrow> u32 \<Rightarrow> ('t, 'k) sys \<Rightarrow> fault + ('t, 'k) sys" where
  "dispatch_event u H p res flags s =
     (case hp_events (fst s) p of
        None \<Rightarrow> Inl UseAfterFree
      | Some ev \<Rightarrow>
          (case IoEvent_Dispatch u H ev res flags s of
             Inl f \<Rightarrow> Inl f
           | Inr (out, h, r) \<Rightarrow>
               (case hp_events h p of
                  None \<Rightarrow> Inl UseAfterFree
                | Some ev1 \<Rightarrow>
                    Inr (if ShouldDeleteAfterDispatch ev1 out
                         then (h\<lparr>hp_events := (hp_events h)(p := None)\<rparr>, r) else (h, r)))))"

definition dispatch_cqe ::
    "uring \<Rightarrow> ('t, 'k) host \<Rightarrow> cqe \<Rightarrow> ('t, 'k) sys \<Rightarrow> fault + ('t, 'k) sys" where
  "dispatch_cqe u H c s =
     (let data = cqe_user_data c
      in if data AND 1 \<noteq> 0 then dispatch_task u H (data AND NOT 1) s
         else if data = kWakeUserData then
           let r1 = (snd s)\<lparr>ior_wake_poll_armed := False\<rparr>
           in Inr (fst s, if cqe_res c \<ge> 0 then DrainWakeFd r1 else r1)
         else if data \<noteq> 0 then dispatch_event u H data (cqe_res c) (cqe_flags c) s
         else Inr s)"

fun drain_cqes ::
    "uring \<Rightarrow> ('t, 'k) host \<Rightarrow> u32 \<Rightarrow> nat \<Rightarrow> cqe list \<Rightarrow> ('t, 'k) sys \<Rightarrow>
       fault + nat \<times> ('t, 'k) sys" where
  "drain_cqes u H budget count [] s = Inr (count, s)"
| "drain_cqes u H budget count (c # cs) s =
     (case dispatch_cqe u H c s of
        Inl f \<Rightarrow> Inl f
      | Inr s1 \<Rightarrow>
          if budget \<noteq> 0 \<and> Suc count \<ge> unat budget then Inr (Suc count, s1)
          else drain_cqes u H budget (Suc count) cs s1)"

definition ETIME :: int where "ETIME = 62"
definition EINTR :: int where "EINTR = 4"

definition wait_timespec :: "int \<Rightarrow> int \<times> int" where
  "wait_timespec ms' = (ms' sdiv 1000, (ms' smod 1000) * 1000000)"

definition dispatch_enter :: "uring \<Rightarrow> 't IoRing \<Rightarrow> 't IoRing" where
  "dispatch_enter u r =
     (let r1 = snd (FlushSubmissions u r)
      in if \<not> ior_wake_poll_armed r1 then ArmWakePoll u r1 else r1)"

definition dispatch_leave :: "uring \<Rightarrow> nat \<Rightarrow> 't IoRing \<Rightarrow> 't IoRing" where
  "dispatch_leave u count r =
     (let r1 = r\<lparr>ior_cq := drop count (ior_cq r)\<rparr>
      in if \<not> ior_wake_poll_armed r1 then ArmWakePoll u r1 else r1)"

definition IoRing_Dispatch ::
    "uring \<Rightarrow> ('t, 'k) host \<Rightarrow> int \<Rightarrow> ('t, 'k) sys \<Rightarrow> fault + bool \<times> ('t, 'k) sys" where
  "IoRing_Dispatch u H timeout s =
     (let r1 = dispatch_enter u (snd s);
          n = ior_asked r1;
          ret = wait_ret u n (wait_timespec timeout);
          r2 = r1\<lparr>ior_asked := Suc n\<rparr>
      in if ret < 0 then Inr (ret = - ETIME \<or> ret = - EINTR, fst s, r2)
         else let r3 = r2\<lparr>ior_cq := ior_cq r2 @ arrivals u n\<rparr>
              in case drain_cqes u H (ior_cqe_batch_budget r3) 0 (ior_cq r3) (fst s, r3) of
                   Inl f \<Rightarrow> Inl f
                 | Inr (count, h, r4) \<Rightarrow> Inr (True, h, dispatch_leave u count r4))"

section \<open>Tasks of other threads\<close>

fun run_tasks ::
    "uring \<Rightarrow> ('t, 'k) host \<Rightarrow> (bool \<times> 't) list \<Rightarrow> ('t, 'k) sys \<Rightarrow> fault + ('t, 'k) sys" where
  "run_tasks u H [] s = Inr s"
| "run_tasks u H (t # ts) s =
     (case invoke_task u H (snd t) s of
        Inl f \<Rightarrow> Inl f
      | Inr (h, r) \<Rightarrow> run_tasks u H ts (h, r\<lparr>ior_ran := ior_ran r @ [snd t]\<rparr>))"

definition ProcessPostedTasks ::
    "uring \<Rightarrow> ('t, 'k) host \<Rightarrow> ('t, 'k) sys \<Rightarrow> fault + ('t, 'k) sys" where
  "ProcessPostedTasks u H s =
     run_tasks u H (ior_posted (snd s)) (fst s, (snd s)\<lparr>ior_posted := []\<rparr>)"

text \<open>
  \<open>RunOnRing\<close> by the calling thread: the thread of this ring, the thread of another ring (its ring
  is the last argument), or a thread without a ring.
\<close>

datatype caller = OnThisRing | OnOtherRing | OnNoRing

definition send_message ::
    "uring \<Rightarrow> int \<Rightarrow> 't \<Rightarrow> ('t, 'k) sys \<Rightarrow> bool \<times> ('t, 'k) sys" where
  "send_message u fd t s =
     (let h = fst s; n = ior_asked (snd s); cur = (snd s)\<lparr>ior_asked := Suc n\<rparr>
      in case new_task u n of
           None \<Rightarrow> (False, h, cur)
         | Some p \<Rightarrow>
             let h1 = h\<lparr>hp_tasks := (hp_tasks h)(p \<mapsto> t)\<rparr>;
                 freed = h\<lparr>hp_tasks := (hp_tasks h)(p := None)\<rparr>;
                 (ok, cur1) = GetSqe u cur
             in if \<not> ok then (False, freed, cur1)
                else let q = \<lparr>sqe_op = OpMsgRing fd (p OR 1), sqe_buf_group = None,
                              sqe_skip_success = True, sqe_user_data = stale_data u (ior_asked cur1)\<rparr>;
                         (ret, cur2) = io_uring_submit u (put_sqe q cur1)
                     in if ret < 0 then (False, freed, cur2) else (True, h1, cur2))"

definition RunOnRing ::
    "uring \<Rightarrow> ('t, 'k) host \<Rightarrow> caller \<Rightarrow> 't \<Rightarrow> ('t, 'k) sys \<Rightarrow> 't IoRing \<Rightarrow>
       fault + bool \<times> ('t, 'k) sys \<times> 't IoRing" where
  "RunOnRing u H who t s cur =
     (case who of
        OnThisRing \<Rightarrow>
          (case invoke_task u H t s of Inl f \<Rightarrow> Inl f | Inr s1 \<Rightarrow> Inr (True, s1, cur))
      | OnOtherRing \<Rightarrow>
          (let (ok, h1, cur1) = send_message u (ior_fd (snd s)) t (fst s, cur)
           in Inr (ok, (h1, snd s), cur1))
      | OnNoRing \<Rightarrow> Inr (True, (fst s, Post False t (snd s)), cur))"

text \<open>The destructor: the sessions first, then the buffers, the descriptor and the ring.\<close>

definition IoRing_destroy :: "'t IoRing \<Rightarrow> 't IoRing" where
  "IoRing_destroy r =
     r\<lparr>ior_sessions := SessionManager_Clear (ior_sessions r), ior_buf_ring := None,
       ior_wake_fd := -1, ior_fd := -1\<rparr>"

section \<open>What a task or a handler leaves alone\<close>

text \<open>
  \<open>ring_frame r r'\<close>: from \<open>r\<close> to \<open>r'\<close> the completion queue, the wake-up state and the history of what
  ran are unchanged, the queue of posted tasks grew at its end by tasks of the ring's own thread,
  and requests moved to the kernel only in the order they were prepared.
\<close>

definition ring_frame :: "'t IoRing \<Rightarrow> 't IoRing \<Rightarrow> bool" where
  "ring_frame r r' \<longleftrightarrow>
     ior_cq r' = ior_cq r \<and> ior_wake_count r' = ior_wake_count r \<and> ior_wake_fd r' = ior_wake_fd r \<and>
     ior_wake_poll_armed r' = ior_wake_poll_armed r \<and> ior_ran r' = ior_ran r \<and>
     ior_messages r' = ior_messages r \<and> ior_cqe_batch_budget r' = ior_cqe_batch_budget r \<and>
     ior_submit_batch_size r' = ior_submit_batch_size r \<and> ior_fd r' = ior_fd r \<and>
     (\<exists>ts. ior_posted r' = ior_posted r @ map (Pair False) ts \<and> ior_ever r' = ior_ever r @ ts) \<and>
     (\<exists>qs. ior_submitted r' = ior_submitted r @ qs)"

named_theorems frame_intros \<open>operations of the ring that keep the frame\<close>

lemma frame_refl [frame_intros]: "ring_frame r r"
  by (simp add: ring_frame_def)

lemma frame_trans [trans]: "ring_frame r r' \<Longrightarrow> ring_frame r' r'' \<Longrightarrow> ring_frame r r''"
  unfolding ring_frame_def by (elim conjE exE) (simp flip: map_append)

lemma frame_asked [frame_intros]: "ring_frame r (r\<lparr>ior_asked := n\<rparr>)"
  by (simp add: ring_frame_def)

lemma frame_put_sqe [frame_intros]: "ring_frame r (put_sqe q (r\<lparr>ior_asked := n\<rparr>))"
  by (simp add: ring_frame_def put_sqe_def)

lemma frame_submit: "ring_frame r (snd (io_uring_submit u r))"
  by (simp add: ring_frame_def io_uring_submit_def Let_def)

lemma frame_pending: "ring_frame r (r\<lparr>ior_pending_submissions := n\<rparr>)"
  by (simp add: ring_frame_def)

lemma frame_Flush [frame_intros]: "ring_frame r (snd (FlushSubmissions u r))"
  by (simp add: FlushSubmissions_def frame_refl frame_trans [OF frame_pending frame_submit])

lemma frame_Submit [frame_intros]: "ring_frame r (snd (Submit u r))"
  by (simp add: Submit_def Let_def frame_pending frame_trans [OF frame_pending frame_Flush])

lemma frame_prep_plain [frame_intros]: "ring_frame r (snd (prep_plain u op d r))"
  by (simp add: prep_plain_def GetSqe_def frame_asked frame_put_sqe)

lemma frame_Post [frame_intros]: "ring_frame r (Post True t r)"
  by (auto simp: ring_frame_def Post_def push_posted_def)

lemma frame_sessions [frame_intros]: "ring_frame r (r\<lparr>ior_sessions := m\<rparr>)"
  by (simp add: ring_frame_def)

lemma frame_buf_ring [frame_intros]: "ring_frame r (r\<lparr>ior_buf_ring := b\<rparr>)"
  by (simp add: ring_frame_def)

lemma frame_on_event:
  assumes "\<And>ev. ring_frame r (snd (snd (f ev r)))" "on_event p f (h, r) = Inr s"
  shows "ring_frame r (snd s)"
  using assms by (auto simp: on_event_def split: option.splits prod.splits) (metis snd_conv)

lemma frame_event_preps [frame_intros]:
  "ring_frame r (snd (snd (PrepRecv u p fd ev r)))"
  "ring_frame r (snd (snd (PrepRecvMultishot u p fd ev r)))"
  "ring_frame r (snd (snd (PrepSendMsg u p fd lens flags ev r)))"
  "ring_frame r (snd (snd (PrepTimeout u p d ev r)))"
  by (simp_all add: PrepRecv_def PrepRecvMultishot_def PrepSendMsg_def PrepTimeout_def GetSqe_def
      Let_def frame_asked frame_put_sqe split: option.split)

lemmas plain_preps = PrepRead_def PrepWrite_def PrepAcceptMultishot_def PrepDisconnect_def
  PrepCancel_def PrepConnect_def PrepPollAdd_def PrepPollRemove_def

lemma frame_run_call: "run_call u H c s = Inr s' \<Longrightarrow> ring_frame (snd s) (snd s')"
proof (cases s)
  case (Pair h r)
  assume "run_call u H c s = Inr s'"
  then show ?thesis
    by (cases c)
      (auto simp: Pair plain_preps split: if_splits option.splits
        intro: frame_intros frame_on_event [where p = "_ :: addr" and f = "_ _ _ _"]
        elim!: frame_on_event [rotated])
qed

lemma frame_run_calls: "run_calls u H cs s = Inr s' \<Longrightarrow> ring_frame (snd s) (snd s')"
proof (induction cs arbitrary: s)
  case Nil
  then show ?case by (simp add: frame_refl)
next
  case (Cons c cs)
  then show ?case
    by (auto split: sum.splits intro: frame_trans dest: frame_run_call)
qed

lemma frame_invoke_task: "invoke_task u H t s = Inr s' \<Longrightarrow> ring_frame (snd s) (snd s')"
  unfolding invoke_task_def using frame_run_calls frame_trans [OF frame_asked] by fastforce

lemma frame_IoEvent_Dispatch:
  "IoEvent_Dispatch u H ev res flags s = Inr (out, s') \<Longrightarrow> ring_frame (snd s) (snd s')"
  by (auto simp: IoEvent_Dispatch_def frame_refl Let_def
      split: option.splits prod.splits sum.splits
      dest!: frame_run_calls intro: frame_trans [OF frame_asked])

lemma frame_dispatch_task:
  assumes "dispatch_task u H p s = Inr s'"
  shows "\<exists>r. ring_frame (snd s) r \<and> (\<exists>t. snd s' = r\<lparr>ior_messages := ior_messages r @ [t]\<rparr>)"
proof -
  obtain t h r where t: "hp_tasks (fst s) p = Some t" "invoke_task u H t s = Inr (h, r)"
    "snd s' = r\<lparr>ior_messages := ior_messages r @ [t]\<rparr>"
    using assms by (auto simp: dispatch_task_def split: option.splits sum.splits prod.splits)
  then show ?thesis using frame_invoke_task [OF t(2)] by auto
qed

lemma frame_dispatch_event:
  assumes "dispatch_event u H p res flags s = Inr s'"
  shows "ring_frame (snd s) (snd s')"
  using assms
  by (auto simp: dispatch_event_def split: option.splits sum.splits prod.splits if_splits
      dest!: frame_IoEvent_Dispatch)

text \<open>What one completion may change of the ring: the frame, one message, or the wake-up state.\<close>

definition cqe_effect :: "cqe \<Rightarrow> 't IoRing \<Rightarrow> 't IoRing \<Rightarrow> bool" where
  "cqe_effect c r r' \<longleftrightarrow>
     (if cqe_user_data c = kWakeUserData
      then r' = (let r1 = r\<lparr>ior_wake_poll_armed := False\<rparr>
                 in if cqe_res c \<ge> 0 then DrainWakeFd r1 else r1)
      else \<exists>ms'. ring_frame r (r'\<lparr>ior_messages := ior_messages r\<rparr>) \<and>
                ior_messages r' = ior_messages r @ ms')"

lemma even_data: "(2 :: u64) AND 1 = 0"
  by simp

lemma dispatch_cqe_effect:
  assumes "dispatch_cqe u H c s = Inr s'"
  shows "cqe_effect c (snd s) (snd s')"
proof (cases "cqe_user_data c AND 1 = 0")
  case odd: False
  then have "cqe_user_data c \<noteq> kWakeUserData" by (auto simp: kWakeUserData_def)
  moreover from odd assms obtain r t where "ring_frame (snd s) r"
    "snd s' = r\<lparr>ior_messages := ior_messages r @ [t]\<rparr>"
    using frame_dispatch_task by (fastforce simp: dispatch_cqe_def Let_def)
  ultimately show ?thesis by (auto simp: cqe_effect_def ring_frame_def)
next
  case True
  then show ?thesis
    using assms frame_dispatch_event [of u H "cqe_user_data c" "cqe_res c" "cqe_flags c" s s']
    by (auto simp: dispatch_cqe_def Let_def cqe_effect_def ring_frame_def split: if_splits)
qed

lemma cqe_effect_keeps:
  assumes "cqe_effect c r r'"
  shows "ior_cq r' = ior_cq r" "ior_ran r' = ior_ran r" "ior_wake_fd r' = ior_wake_fd r"
    "ior_cqe_batch_budget r' = ior_cqe_batch_budget r"
    "ior_submit_batch_size r' = ior_submit_batch_size r"
    "\<exists>ts. ior_posted r' = ior_posted r @ map (Pair False) ts \<and> ior_ever r' = ior_ever r @ ts"
    "\<exists>qs. ior_submitted r' = ior_submitted r @ qs"
  using assms by (auto simp: cqe_effect_def ring_frame_def DrainWakeFd_def Let_def split: if_splits)

section \<open>Dispatching completions\<close>

lemma drain_cqes_count:
  assumes "drain_cqes u H budget count cs s = Inr (n, s')" "budget = 0 \<or> count < unat budget"
  shows "n = count + (if budget = 0 then length cs else min (length cs) (unat budget - count)) \<and>
         ior_cq (snd s') = ior_cq (snd s) \<and>
         ior_cqe_batch_budget (snd s') = ior_cqe_batch_budget (snd s)"
  using assms
proof (induction u H budget count cs s rule: drain_cqes.induct)
  case (2 u H budget count c cs s)
  then obtain s1 where s1: "dispatch_cqe u H c s = Inr s1" by (auto split: sum.splits)
  note keeps = cqe_effect_keeps [OF dispatch_cqe_effect [OF s1]]
  show ?case
  proof (cases "budget \<noteq> 0 \<and> Suc count \<ge> unat budget")
    case True
    then show ?thesis using 2(2,3) s1 keeps by auto
  next
    case False
    then have "drain_cqes u H budget (Suc count) cs s1 = Inr (n, s')" "budget = 0 \<or> Suc count < unat budget"
      using 2(2) s1 by (auto split: if_splits)
    from 2(1) [OF s1 False this] have
      "n = Suc count + (if budget = 0 then length cs else min (length cs) (unat budget - Suc count))"
      "ior_cq (snd s') = ior_cq (snd s)"
      "ior_cqe_batch_budget (snd s') = ior_cqe_batch_budget (snd s)"
      using keeps by auto
    then show ?thesis using False by (auto simp: min_def)
  qed
qed simp

lemma keeps_ArmWakePoll:
  "ior_cq (ArmWakePoll u r) = ior_cq r"
  "ior_cqe_batch_budget (ArmWakePoll u r) = ior_cqe_batch_budget r"
  "ior_ran (ArmWakePoll u r) = ior_ran r" "ior_ever (ArmWakePoll u r) = ior_ever r"
  "ior_posted (ArmWakePoll u r) = ior_posted r" "ior_wake_count (ArmWakePoll u r) = ior_wake_count r"
  "ior_wake_fd (ArmWakePoll u r) = ior_wake_fd r"
  by (simp_all add: ArmWakePoll_def GetSqe_def io_uring_submit_def put_sqe_def Let_def)

lemma keeps_dispatch_enter:
  "ior_cq (dispatch_enter u r) = ior_cq r"
  "ior_cqe_batch_budget (dispatch_enter u r) = ior_cqe_batch_budget r"
  "ior_ran (dispatch_enter u r) = ior_ran r" "ior_ever (dispatch_enter u r) = ior_ever r"
  "ior_posted (dispatch_enter u r) = ior_posted r" "ior_wake_count (dispatch_enter u r) = ior_wake_count r"
  "ior_wake_fd (dispatch_enter u r) = ior_wake_fd r"
  by (simp_all add: dispatch_enter_def Let_def keeps_ArmWakePoll FlushSubmissions_def io_uring_submit_def)

text \<open>A small instance: every request is taken at once, a task 1 posts a task 2.\<close>

definition uring0 :: uring where
  "uring0 = \<lparr>get_sqe_ok = \<lambda>_. True, submit_ret = \<lambda>_. 0, submit_taken = \<lambda>_ k. k, wait_ret = \<lambda>_ _. 0,
      arrivals = \<lambda>_. [], new_task = \<lambda>_. Some 64, stale_data = \<lambda>_. 0\<rparr>"

definition setup0 :: ring_setup where
  "setup0 = \<lparr>alloc_ring = True, queue_init = \<lambda>_ p. if par_sqpoll p then - 1 else 0, setup_fd = 3,
      setup_eventfd = 4, setup_buf = buf_env4\<rparr>"

definition host0 :: "(nat, nat) host" where
  "host0 = \<lparr>task_calls = \<lambda>_ t. if t = 1 then [CPost 2] else [],
      handler_calls = \<lambda>_ _ _ _. ([], kComplete), host_buf = buf_env4\<rparr>"

definition heap0 :: "(nat, nat) heap" where
  "heap0 = \<lparr>hp_tasks = \<lambda>_. None, hp_events = \<lambda>_. None\<rparr>"

definition ring0 :: "u32 \<Rightarrow> nat IoRing" where
  "ring0 budget = IoRing_new uring0 setup0 None 1 budget"

lemmas instance0 = uring0_def setup0_def host0_def heap0_def ring0_def IoRing_new_def ArmWakePoll_def
  GetSqe_def put_sqe_def io_uring_submit_def Let_def

text \<open>
  A dispatch that is woken consumes completions from the front of the queue, all of them or as
  many as the batch budget allows, and leaves the others in place and in order for the next one.
\<close>

theorem Dispatch_consumes:
  assumes "IoRing_Dispatch u H timeout (h, r) = Inr (ok, h', r')"
    and "n = ior_asked (dispatch_enter u r)" "wait_ret u n (wait_timespec timeout) \<ge> 0"
  shows "ok \<and> ior_cq r' =
           (if ior_cqe_batch_budget r = 0 then []
            else drop (unat (ior_cqe_batch_budget r)) (ior_cq r @ arrivals u n))"
proof -
  define cq where "cq = ior_cq r @ arrivals u n"
  define r3 where "r3 = (dispatch_enter u r)\<lparr>ior_asked := Suc n, ior_cq := cq\<rparr>"
  obtain count r4 where d: "drain_cqes u H (ior_cqe_batch_budget r) 0 cq (h, r3) = Inr (count, h', r4)"
    and r': "ok" "r' = dispatch_leave u count r4"
    using assms by (auto simp: IoRing_Dispatch_def Let_def keeps_dispatch_enter r3_def cq_def
        split: sum.splits prod.splits)
  have "ior_cqe_batch_budget r = 0 \<or> 0 < unat (ior_cqe_batch_budget r)"
    by (simp add: unat_gt_0)
  from drain_cqes_count [OF d this]
  have "count = (if ior_cqe_batch_budget r = 0 then length cq
                 else min (length cq) (unat (ior_cqe_batch_budget r)))" "ior_cq r4 = cq"
    by (simp_all add: r3_def)
  then show ?thesis
    using r' by (simp add: dispatch_leave_def Let_def keeps_ArmWakePoll cq_def min_def)
qed

definition cqe0 :: cqe where
  "cqe0 = \<lparr>cqe_user_data = 0, cqe_res = 0, cqe_flags = 0\<rparr>"

theorem Dispatch_consumes_witness:
  "\<exists>h r. IoRing_Dispatch uring0 host0 5 (heap0, (ring0 2)\<lparr>ior_cq := [cqe0, cqe0, cqe0]\<rparr>) =
       Inr (True, h, r) \<and> ior_cq r = [cqe0]"
proof -
  let ?r = "(ring0 2)\<lparr>ior_cq := [cqe0, cqe0, cqe0]\<rparr>"
  have "\<exists>h r. IoRing_Dispatch uring0 host0 5 (heap0, ?r) = Inr (True, h, r)"
    by (simp add: cqe0_def IoRing_Dispatch_def dispatch_enter_def FlushSubmissions_def
        dispatch_cqe_def instance0)
  then obtain h r where d: "IoRing_Dispatch uring0 host0 5 (heap0, ?r) = Inr (True, h, r)" by blast
  have "ior_cq r = [cqe0]"
    using Dispatch_consumes [OF d refl]
    by (simp add: dispatch_enter_def FlushSubmissions_def instance0)
  with d show ?thesis by blast
qed

text \<open>Task objects and events are aligned to eight bytes.\<close>

definition aligned :: "addr \<Rightarrow> bool" where
  "aligned p \<longleftrightarrow> p \<noteq> 0 \<and> p AND 7 = 0"

lemma aligned_bit: "aligned p \<Longrightarrow> k < 3 \<Longrightarrow> \<not> bit p k"
proof
  assume "aligned p" "k < 3" "bit p k"
  then have "bit (p AND mask 3) k" by (simp add: bit_simps)
  moreover have "p AND mask 3 = 0" using \<open>aligned p\<close> by (simp add: aligned_def mask_eq_exp_minus_1)
  ultimately show False by simp
qed

lemma aligned_tags:
  assumes "aligned p"
  shows "p AND 1 = 0" "p \<noteq> kWakeUserData" "(p OR 1) AND 1 = 1" "(p OR 1) AND NOT 1 = p"
proof -
  note b0 = aligned_bit [OF assms, of 0] and b1 = aligned_bit [OF assms, of 1]
  show "p AND 1 = 0" using b0 by (intro bit_word_eqI) (auto simp: bit_simps intro: gr_zeroI)
  have "bit (2 :: u64) 1" by simp
  then show "p \<noteq> kWakeUserData" using b1 by (auto simp: kWakeUserData_def)
  show "(p OR 1) AND 1 = 1" by (intro bit_word_eqI) (auto simp: bit_simps)
  show "(p OR 1) AND NOT 1 = p"
  proof (rule bit_word_eqI)
    show "bit ((p OR 1) AND NOT 1) n \<longleftrightarrow> bit p n" if "n < LENGTH(64)" for n
      using b0 that by (cases n) (auto simp: bit_simps)
  qed
qed



section \<open>Posted tasks\<close>

lemma run_tasks_order:
  "run_tasks u H ts s = Inr s' \<Longrightarrow>
     ior_ran (snd s') = ior_ran (snd s) @ map snd ts \<and>
     (\<exists>new. ior_posted (snd s') = ior_posted (snd s) @ map (Pair False) new \<and>
            ior_ever (snd s') = ior_ever (snd s) @ new)"
proof (induction ts arbitrary: s)
  case (Cons t ts)
  then obtain h r where i: "invoke_task u H (snd t) s = Inr (h, r)"
    and rest: "run_tasks u H ts (h, r\<lparr>ior_ran := ior_ran r @ [snd t]\<rparr>) = Inr s'"
    by (auto split: sum.splits)
  from Cons.IH [OF rest] frame_invoke_task [OF i] show ?case
    by (auto simp: ring_frame_def simp flip: map_append)
qed (auto intro: exI [of _ "[]"])

text \<open>\<open>history r\<close>: what ran and what waits are, in this order, the tasks ever posted.\<close>

definition history :: "'t IoRing \<Rightarrow> bool" where
  "history r \<longleftrightarrow> ior_ever r = ior_ran r @ map snd (ior_posted r)"

lemma history_Process:
  "ProcessPostedTasks u H s = Inr s' \<Longrightarrow> history (snd s) \<Longrightarrow>
     history (snd s') \<and> ior_ran (snd s') = ior_ever (snd s) \<and> (\<forall>t\<in>set (ior_posted (snd s')). \<not> fst t)"
  using run_tasks_order [of u H "ior_posted (snd s)" "(fst s, (snd s)\<lparr>ior_posted := []\<rparr>)" s']
  by (auto simp: ProcessPostedTasks_def history_def comp_def)

text \<open>
  A task sent from the thread of another ring is run by the completion that carries it, once:
  when \<open>RunOnRing\<close> answers true the request carries the tagged address of a task object that holds
  the task, and dispatching that completion on the target runs the task and frees the object.
\<close>

theorem message_delivered:
  assumes "RunOnRing u H OnOtherRing t (h, r) cur = Inr (True, (h', r'), cur')"
    and "new_task u (ior_asked cur) = Some p" "aligned p"
    and "invoke_task u H t (h', r') = Inr (h'', r'')"
  shows "r' = r \<and>
         (\<exists>q\<in>set (ior_submitted cur' @ ior_sq cur'). sqe_op q = OpMsgRing (ior_fd r) (p OR 1)) \<and>
         dispatch_cqe u H \<lparr>cqe_user_data = p OR 1, cqe_res = 0, cqe_flags = flags\<rparr> (h', r') =
           Inr (h''\<lparr>hp_tasks := (hp_tasks h'')(p := None)\<rparr>,
                r''\<lparr>ior_messages := ior_messages r'' @ [t]\<rparr>)"
proof -
  have "hp_tasks h' p = Some t" "r' = r"
    "\<exists>q\<in>set (ior_submitted cur' @ ior_sq cur'). sqe_op q = OpMsgRing (ior_fd r) (p OR 1)"
    using assms(1,2)
    by (auto simp: RunOnRing_def send_message_def GetSqe_def io_uring_submit_def put_sqe_def Let_def
        take_Cons' drop_Cons' split: if_splits)
  then show ?thesis
    using assms(3,4) aligned_tags [OF assms(3)]
    by (simp add: dispatch_cqe_def dispatch_task_def)
qed

theorem message_delivered_witness:
  "\<exists>h' r' cur'. RunOnRing uring0 host0 OnOtherRing 7 (heap0, ring0 0) (ring0 0) = Inr (True, (h', r'), cur') \<and>
     r' = ring0 0 \<and> (\<exists>q\<in>set (ior_submitted cur' @ ior_sq cur'). sqe_op q = OpMsgRing 3 (64 OR 1))"
proof -
  have "\<exists>h' r' cur'. RunOnRing uring0 host0 OnOtherRing 7 (heap0, ring0 0) (ring0 0) =
      Inr (True, (h', r'), cur') \<and> (\<exists>h'' r''. invoke_task uring0 host0 7 (h', r') = Inr (h'', r''))"
    by (simp add: RunOnRing_def send_message_def invoke_task_def instance0)
  then obtain h' r' cur' h'' r'' where
    run: "RunOnRing uring0 host0 OnOtherRing 7 (heap0, ring0 0) (ring0 0) = Inr (True, (h', r'), cur')"
    and task: "invoke_task uring0 host0 7 (h', r') = Inr (h'', r'')" by blast
  have p: "new_task uring0 (ior_asked (ring0 0)) = Some 64" "aligned 64" and fd: "ior_fd (ring0 0) = 3"
    by (simp_all add: aligned_def instance0)
  note m = message_delivered [OF run p task, of 0]
  show ?thesis
    by (intro exI conjI, rule run, rule m [THEN conjunct1],
        rule m [THEN conjunct2, THEN conjunct1, unfolded fd])
qed

text \<open>
  When the submission in \<open>RunOnRing\<close> fails and the kernel took nothing, the task object is
  deleted but the request that carries its address stays queued. The next submission of the source
  ring sends it, and the target then calls through the dead object.
\<close>

theorem RunOnRing_dangling:
  assumes "new_task u n = Some p" "aligned p" "ior_asked cur = n"
    and "get_sqe_ok u (Suc n)" "submit_ret u (Suc (Suc n)) < 0"
    and "\<forall>k. submit_taken u (Suc (Suc n)) k = 0"
  shows "\<exists>h' cur' q. RunOnRing u H OnOtherRing t (h, r) cur = Inr (False, (h', r), cur') \<and>
           ior_sq cur' = ior_sq cur @ [q] \<and> sqe_op q = OpMsgRing (ior_fd r) (p OR 1) \<and>
           dispatch_cqe u H \<lparr>cqe_user_data = p OR 1, cqe_res = 0, cqe_flags = 0\<rparr> (h', r) =
             Inl UseAfterFree"
  using assms aligned_tags [OF assms(2)]
  by (simp add: RunOnRing_def send_message_def GetSqe_def io_uring_submit_def put_sqe_def Let_def
      dispatch_cqe_def dispatch_task_def)

definition busy :: uring where
  "busy = uring0\<lparr>submit_ret := \<lambda>_. - 16, submit_taken := \<lambda>_ _. 0\<rparr>"

theorem RunOnRing_dangling_witness:
  "\<exists>h' cur' q. RunOnRing busy host0 OnOtherRing 7 (heap0, ring0 0) (ring0 0) =
       Inr (False, (h', ring0 0), cur') \<and> ior_sq cur' = [q] \<and> sqe_op q = OpMsgRing 3 (64 OR 1) \<and>
       dispatch_cqe busy host0 \<lparr>cqe_user_data = 64 OR 1, cqe_res = 0, cqe_flags = 0\<rparr> (h', ring0 0) =
         Inl UseAfterFree"
  using RunOnRing_dangling [of busy 2 64 "ring0 0" host0 7 heap0 "ring0 0"]
  by (simp add: busy_def aligned_def instance0)

section \<open>Submission\<close>

definition batch_ok :: "'t IoRing \<Rightarrow> bool" where
  "batch_ok r \<longleftrightarrow> ior_pending_submissions r < ior_submit_batch_size r"

lemma batch_ok_pos: "batch_ok r \<Longrightarrow> 0 < ior_submit_batch_size r"
  unfolding batch_ok_def using word_zero_le by (rule le_less_trans)

lemma batch_ok_Submit: "batch_ok r \<Longrightarrow> batch_ok (snd (Submit u r))"
  using batch_ok_pos [of r]
  by (auto simp: batch_ok_def Submit_def FlushSubmissions_def io_uring_submit_def Let_def
      split: if_splits)

lemma batch_ok_keep:
  "batch_ok r \<Longrightarrow> batch_ok (snd (prep_plain u op d r))"
  "batch_ok r \<Longrightarrow> batch_ok (snd (snd (PrepRecv u p fd ev r)))"
  "batch_ok r \<Longrightarrow> batch_ok (snd (snd (PrepRecvMultishot u p fd ev r)))"
  "batch_ok r \<Longrightarrow> batch_ok (snd (snd (PrepSendMsg u p fd lens flags ev r)))"
  "batch_ok r \<Longrightarrow> batch_ok (snd (snd (PrepTimeout u p d2 ev r)))"
  "batch_ok r \<Longrightarrow> batch_ok (Post b t r)"
  by (simp_all add: batch_ok_def prep_plain_def PrepRecv_def PrepRecvMultishot_def PrepSendMsg_def
      PrepTimeout_def GetSqe_def put_sqe_def Post_def push_posted_def Wake_def Let_def
      split: option.split)

text \<open>
  A flush forgets the count also when the submission fails: until something else is submitted the
  following dispatches make no attempt, and the requests wait.
\<close>

lemma failed_flush_waits:
  assumes "ior_pending_submissions r \<noteq> 0" "ior_wake_poll_armed r"
    and "submit_ret u (ior_asked r) < 0" "\<forall>k. submit_taken u (ior_asked r) k = 0"
  shows "ior_sq (dispatch_enter u r) = ior_sq r \<and> ior_pending_submissions (dispatch_enter u r) = 0 \<and>
         dispatch_enter u (dispatch_enter u r) = dispatch_enter u r"
  using assms by (simp add: dispatch_enter_def FlushSubmissions_def io_uring_submit_def Let_def)

lemma PrepTimeout_timespec:
  assumes "PrepTimeout u p d ev r = (True, ev', r')" "d \<ge> 0"
  shows "\<exists>sec nsec. ev_data ev' = TimeoutData sec nsec \<and> sec * 1000000000 + nsec = d \<and>
           0 \<le> nsec \<and> nsec < 1000000000"
proof -
  have "d sdiv 1000000000 = d div 1000000000"
    using assms(2) by (cases "d = 0") (simp_all add: signed_divide_int_def)
  then show ?thesis
    using assms by (auto simp: PrepTimeout_def GetSqe_def Let_def minus_div_mult_eq_mod
        split: if_splits)
qed

section \<open>Creation\<close>

text \<open>
  \<open>IoRing::Create\<close> fails exactly when the ring cannot be set up, after at most one retry; the
  retry happens only for a polling ring refused with \<open>EPERM\<close> and asks for no polling thread and no
  affinity. A ring without provided buffers is still a ring, its batch size is never 0, and it
  starts with no submission owed.
\<close>

theorem Create_fallback:
  "(\<forall>r. IoRing_Create u z cfg = Inr r \<longrightarrow>
      fst (init_queue z cfg) \<ge> 0 \<and> batch_ok r \<and>
      (ior_buf_ring r = None \<longleftrightarrow>
        (\<exists>err. fst (RingBuffer_Create (setup_buf z) True (cfg_buf_ring cfg)) = Inl err))) \<and>
   (\<forall>err. IoRing_Create u z cfg = Inl err \<longrightarrow>
      err = kSetupFailed \<and> (\<not> alloc_ring z \<or> fst (init_queue z cfg) < 0)) \<and>
   (length (snd (init_queue z cfg)) = 2 \<longrightarrow>
      sqpoll cfg \<and> queue_init z 0 (ring_params cfg) = - EPERM \<and>
      \<not> par_sqpoll (last (snd (init_queue z cfg))) \<and> \<not> par_sq_aff (last (snd (init_queue z cfg))) \<and>
      par_single_issuer (last (snd (init_queue z cfg))) = single_issuer cfg)"
proof -
  have new: "ior_buf_ring (IoRing_new u z b n c) = b" "batch_ok (IoRing_new u z b (max 1 n) c)" for b n c
    by (auto simp: IoRing_new_def Let_def ArmWakePoll_def GetSqe_def io_uring_submit_def put_sqe_def
        batch_ok_def max_def word_gt_0)
  have "length (snd (init_queue z cfg)) = 2 \<longrightarrow>
      sqpoll cfg \<and> queue_init z 0 (ring_params cfg) = - EPERM \<and>
      \<not> par_sqpoll (last (snd (init_queue z cfg))) \<and> \<not> par_sq_aff (last (snd (init_queue z cfg))) \<and>
      par_single_issuer (last (snd (init_queue z cfg))) = single_issuer cfg"
    by (auto simp: init_queue_def Let_def without_sqpoll_def ring_params_def)
  moreover have "\<forall>r. IoRing_Create u z cfg = Inr r \<longrightarrow>
      fst (init_queue z cfg) \<ge> 0 \<and> batch_ok r \<and>
      (ior_buf_ring r = None \<longleftrightarrow>
        (\<exists>err. fst (RingBuffer_Create (setup_buf z) True (cfg_buf_ring cfg)) = Inl err))"
    by (auto simp: IoRing_Create_def new split: if_splits sum.splits)
  ultimately show ?thesis by (auto simp: IoRing_Create_def split: if_splits)
qed

definition ring_cfg0 :: IoRingConfig where
  "ring_cfg0 = \<lparr>queue_depth = 8, cfg_buf_ring = cfg4, submit_batch_size = 0, cqe_batch_budget = 0,
      single_issuer = True, sqpoll = True, sq_thread_idle = 1000, sq_thread_cpu = 2\<rparr>"

theorem Create_fallback_witness:
  "length (snd (init_queue setup0 ring_cfg0)) = 2 \<and>
   \<not> par_sqpoll (last (snd (init_queue setup0 ring_cfg0))) \<and>
   par_single_issuer (last (snd (init_queue setup0 ring_cfg0)))"
proof -
  have two: "length (snd (init_queue setup0 ring_cfg0)) = 2"
    by (simp add: init_queue_def ring_params_def without_sqpoll_def ring_cfg0_def setup0_def EPERM_def)
  moreover have "single_issuer ring_cfg0" by (simp add: ring_cfg0_def)
  ultimately show ?thesis
    using Create_fallback [THEN conjunct2, THEN conjunct2, rule_format, OF two] two by simp
qed

end
