(* ===== verification/Listener.thy ===== *)
theory Listener
  imports Io_Ring "HOL-Library.Multiset"
begin

text \<open>
  The listener of \<^verbatim>\<open>src/runtime/io/Listener.cpp\<close> on top of the ring: creating the socket, keeping one
  accept request outstanding, admitting or rejecting a connection, and stopping.
\<close>

section \<open>Sockets\<close>

text \<open>
  The system calls and the application around a listener: \<open>inet_pton\<close>, the socket calls, \<open>fcntl\<close>,
  allocation of events, the session factory (0 when it returns null) and the ring operations a new
  session performs from \<open>OnConnected\<close> on. The numbered ones may answer differently each time.
\<close>

record ('t, 'k) net =
  inet_pton :: "string \<Rightarrow> u32 option"
  socket_ret :: int
  bind_ret :: "u32 \<Rightarrow> u16 \<Rightarrow> int"
  listen_ret :: int
  fcntl_getfl :: "int \<Rightarrow> int"
  fcntl_setfl :: "int \<Rightarrow> int \<Rightarrow> int"
  new_event :: "nat \<Rightarrow> addr option"
  factory :: "nat \<Rightarrow> int \<Rightarrow> addr"
  start_calls :: "nat \<Rightarrow> addr \<Rightarrow> ('t, 'k) ring_call list"
  extra_session_count :: "nat \<Rightarrow> nat"
  accept_handler :: 'k
  cancel_handler :: 'k

definition INADDR_ANY :: u32 where "INADDR_ANY = 0"
definition O_NONBLOCK :: int where "O_NONBLOCK = 2048"

text \<open>
  The result is the descriptor with the address it is bound to, and the descriptors closed on the
  way. \<open>sin_addr\<close> starts as zero and the answer of \<open>inet_pton\<close> is not looked at.
\<close>

definition CreateListenSocket :: "('t, 'k) net \<Rightarrow> Address \<Rightarrow> (int \<times> u32) option \<times> int list" where
  "CreateListenSocket n a =
     (let fd = socket_ret n
      in if fd < 0 then (None, [])
         else let sin_addr = (case inet_pton n (host a) of None \<Rightarrow> INADDR_ANY | Some ip \<Rightarrow> ip)
              in if bind_ret n sin_addr (port a) < 0 then (None, [fd])
                 else if listen_ret n < 0 then (None, [fd])
                 else (Some (fd, sin_addr), []))"

definition SetNonBlocking :: "('t, 'k) net \<Rightarrow> int \<Rightarrow> bool" where
  "SetNonBlocking n fd =
     (let flags = fcntl_getfl n fd
      in if flags < 0 then False
         else if flags AND O_NONBLOCK \<noteq> 0 then True
         else fcntl_setfl n fd (flags OR O_NONBLOCK) = 0)"

section \<open>The class\<close>

text \<open>
  The last four fields are history: the address bound, the descriptors closed and handed to the
  reject handler, and the sessions started with their descriptors.
\<close>

record Listener =
  ln_addr :: Address
  ln_listen_fd :: SocketHandle
  ln_has_factory :: bool
  ln_active_accept_ev :: "addr option"
  ln_accept_cancel_requested :: bool
  ln_shard_id :: ContextId
  ln_max_sessions :: u32
  ln_has_count_fn :: bool
  ln_has_reject_handler :: bool
  ln_bound :: "u32 option"
  ln_closed :: "int list"
  ln_rejected :: "int list"
  ln_started :: "(int \<times> addr) list"

type_synonym ('t, 'k) lsys = "('t, 'k) sys \<times> Listener"

definition Listener_new :: "Address \<Rightarrow> bool \<Rightarrow> ContextId \<Rightarrow> u32 \<Rightarrow> Listener" where
  "Listener_new a fac shard_id max_sessions =
     \<lparr>ln_addr = a, ln_listen_fd = -1, ln_has_factory = fac, ln_active_accept_ev = None,
      ln_accept_cancel_requested = False, ln_shard_id = shard_id, ln_max_sessions = max_sessions,
      ln_has_count_fn = False, ln_has_reject_handler = False, ln_bound = None, ln_closed = [],
      ln_rejected = [], ln_started = []\<rparr>"

definition SetSessionCountFn :: "Listener \<Rightarrow> Listener" where
  "SetSessionCountFn l = l\<lparr>ln_has_count_fn := True\<rparr>"

definition SetRejectHandler :: "Listener \<Rightarrow> Listener" where
  "SetRejectHandler l = l\<lparr>ln_has_reject_handler := True\<rparr>"

definition reset_listen_fd :: "int \<Rightarrow> Listener \<Rightarrow> Listener" where
  "reset_listen_fd fd l =
     (let (closed, fd1) = SocketHandle_Reset fd (ln_listen_fd l)
      in l\<lparr>ln_listen_fd := fd1, ln_closed := ln_closed l @ closed\<rparr>)"

definition AcceptOp :: "('t, 'k) net \<Rightarrow> 'k IoEvent" where
  "AcceptOp n = (IoEvent_new kAccept)\<lparr>ev_completion := Some (accept_handler n), ev_auto_delete := True\<rparr>"

definition Listener_CancelOp :: "('t, 'k) net \<Rightarrow> addr \<Rightarrow> 'k IoEvent" where
  "Listener_CancelOp n target =
     (IoEvent_new kCancel)\<lparr>ev_completion := Some (cancel_handler n), ev_auto_delete := True,
        ev_data := CancelData target\<rparr>"

definition alloc_event :: "('t, 'k) net \<Rightarrow> 't IoRing \<Rightarrow> addr option \<times> 't IoRing" where
  "alloc_event n r = (new_event n (ior_asked r), r\<lparr>ior_asked := Suc (ior_asked r)\<rparr>)"

definition RegisterAccept :: "uring \<Rightarrow> ('t, 'k) net \<Rightarrow> ('t, 'k) lsys \<Rightarrow> bool \<times> ('t, 'k) lsys" where
  "RegisterAccept u n x =
     (let ((h, r), l) = x
      in if \<not> SocketHandle_Valid (ln_listen_fd l) \<or> ln_active_accept_ev l \<noteq> None then (False, x)
         else case alloc_event n r of
                (None, r0) \<Rightarrow> (False, (h, r0), l)
              | (Some p, r0) \<Rightarrow>
                  let (ok, r1) = PrepAcceptMultishot u p (ln_listen_fd l) r0
                  in if \<not> ok then (False, (h\<lparr>hp_events := (hp_events h)(p := None)\<rparr>, r1), l)
                     else (True, (h\<lparr>hp_events := (hp_events h)(p \<mapsto> AcceptOp n)\<rparr>, snd (Submit u r1)),
                           l\<lparr>ln_active_accept_ev := Some p\<rparr>))"

definition Listener_Start ::
    "uring \<Rightarrow> ('t, 'k) net \<Rightarrow> ('t, 'k) lsys \<Rightarrow> IoError option \<times> ('t, 'k) lsys" where
  "Listener_Start u n x =
     (let (s, l) = x; (sock, closed) = CreateListenSocket n (ln_addr l)
      in case sock of
           None \<Rightarrow> (Some kBindFailed, s, l\<lparr>ln_closed := ln_closed l @ closed\<rparr>)
         | Some (fd, ip) \<Rightarrow>
             let (ok, x1) = RegisterAccept u n (s, (reset_listen_fd fd l)\<lparr>ln_bound := Some ip\<rparr>)
             in (if ok then None else Some kListenFailed, x1))"

definition Listener_Stop :: "uring \<Rightarrow> ('t, 'k) net \<Rightarrow> ('t, 'k) lsys \<Rightarrow> ('t, 'k) lsys" where
  "Listener_Stop u n x =
     (let ((h, r), l) = x;
          (s1, l1) =
            (case ln_active_accept_ev l of
               None \<Rightarrow> ((h, r), l)
             | Some target \<Rightarrow>
                 if ln_accept_cancel_requested l then ((h, r), l)
                 else case alloc_event n r of
                        (None, r0) \<Rightarrow> ((h, r0), l)
                      | (Some p, r0) \<Rightarrow>
                          let (ok, r1) = PrepCancel u target (Some p) r0
                          in if ok
                             then ((h\<lparr>hp_events := (hp_events h)(p \<mapsto> Listener_CancelOp n target)\<rparr>,
                                    snd (Submit u r1)), l\<lparr>ln_accept_cancel_requested := True\<rparr>)
                             else ((h\<lparr>hp_events := (hp_events h)(p := None)\<rparr>, r1), l))
      in (s1, reset_listen_fd (-1) l1))"

text \<open>The session joins the table, then \<open>OnConnected\<close> and the first receive do what they do.\<close>

definition start_session ::
    "uring \<Rightarrow> ('t, 'k) host \<Rightarrow> ('t, 'k) net \<Rightarrow> addr \<Rightarrow> ('t, 'k) sys \<Rightarrow> fault + ('t, 'k) sys" where
  "start_session u H n p s =
     (let r = snd s
      in run_calls u H (CAddSession p # start_calls n (ior_asked r) p)
           (fst s, r\<lparr>ior_asked := Suc (ior_asked r)\<rparr>))"

text \<open>The function the worker sets: the sessions of the ring, and those counted elsewhere.\<close>

definition session_count :: "('t, 'k) net \<Rightarrow> 't IoRing \<Rightarrow> nat" where
  "session_count n r = SessionManager_Count (ior_sessions r) + extra_session_count n (ior_asked r)"

definition OnAccept_client ::
    "uring \<Rightarrow> ('t, 'k) host \<Rightarrow> ('t, 'k) net \<Rightarrow> int \<Rightarrow> ('t, 'k) lsys \<Rightarrow> fault + ('t, 'k) lsys" where
  "OnAccept_client u H n client_fd x =
     (let (s, l) = x
      in if ln_max_sessions l > 0 \<and> ln_has_count_fn l \<and>
            session_count n (snd s) \<ge> unat (ln_max_sessions l)
         then Inr (s, if ln_has_reject_handler l
                      then l\<lparr>ln_rejected := ln_rejected l @ [client_fd]\<rparr>
                      else l\<lparr>ln_closed := ln_closed l @ [client_fd]\<rparr>)
         else if \<not> SetNonBlocking n client_fd
         then Inr (s, l\<lparr>ln_closed := ln_closed l @ [client_fd]\<rparr>)
         else if \<not> ln_has_factory l then Inl NullDeref
         else let p = factory n (ior_asked (snd s)) client_fd;
                  s1 = (fst s, (snd s)\<lparr>ior_asked := Suc (ior_asked (snd s))\<rparr>)
              in if p = 0 then Inr (s1, l\<lparr>ln_closed := ln_closed l @ [client_fd]\<rparr>)
                 else case start_session u H n p s1 of
                        Inl f \<Rightarrow> Inl f
                      | Inr s2 \<Rightarrow> Inr (s2, l\<lparr>ln_started := ln_started l @ [(client_fd, p)]\<rparr>))"

definition Listener_OnAccept ::
    "uring \<Rightarrow> ('t, 'k) host \<Rightarrow> ('t, 'k) net \<Rightarrow> int \<Rightarrow> u32 \<Rightarrow> ('t, 'k) lsys \<Rightarrow>
       fault + DispatchResult \<times> ('t, 'k) lsys" where
  "Listener_OnAccept u H n res flags x =
     (let more = (flags AND IORING_CQE_F_MORE \<noteq> 0);
          out = (if more then kPending else kComplete);
          (s, l) = x;
          l1 = (if more then l
                else l\<lparr>ln_active_accept_ev := None, ln_accept_cancel_requested := False\<rparr>)
      in if res < 0
         then Inr (out, if SocketHandle_Valid (ln_listen_fd l1) then snd (RegisterAccept u n (s, l1))
                        else (s, l1))
         else case OnAccept_client u H n res (s, l1) of
                Inl f \<Rightarrow> Inl f
              | Inr (s2, l2) \<Rightarrow>
                  Inr (out, if \<not> more \<and> SocketHandle_Valid (ln_listen_fd l2)
                            then snd (RegisterAccept u n (s2, l2)) else (s2, l2)))"

definition Listener_OnCancel :: "('t, 'k) lsys \<Rightarrow> DispatchResult \<times> ('t, 'k) lsys" where
  "Listener_OnCancel x = (kComplete, x)"

section \<open>Every accepted connection has one owner\<close>

text \<open>The descriptors a listener has disposed of: closed, handed to the reject handler, or served.\<close>

definition disposed :: "Listener \<Rightarrow> int multiset" where
  "disposed l = mset (ln_closed l) + mset (ln_rejected l) + mset (map fst (ln_started l))"

lemma disposed_RegisterAccept [simp]: "disposed (snd (snd (RegisterAccept u n x))) = disposed (snd x)"
  by (cases x; cases "fst x")
    (auto simp: RegisterAccept_def Let_def disposed_def split: prod.splits option.splits)

lemma OnAccept_client_disposes:
  "OnAccept_client u H n fd x = Inr x' \<Longrightarrow> disposed (snd x') = add_mset fd (disposed (snd x))"
  by (cases x)
    (auto simp: OnAccept_client_def Let_def disposed_def split: if_splits sum.splits)

text \<open>A completion without \<open>IORING_CQE_F_MORE\<close> ends the accept request before anything else happens.\<close>

definition end_accept :: "u32 \<Rightarrow> Listener \<Rightarrow> Listener" where
  "end_accept flags l =
     (if flags AND IORING_CQE_F_MORE \<noteq> 0 then l
      else l\<lparr>ln_active_accept_ev := None, ln_accept_cancel_requested := False\<rparr>)"

lemma end_accept_simps [simp]:
  "disposed (end_accept flags l) = disposed l"
  "ln_listen_fd (end_accept flags l) = ln_listen_fd l"
  "ln_max_sessions (end_accept flags l) = ln_max_sessions l"
  "ln_has_count_fn (end_accept flags l) = ln_has_count_fn l"
  by (simp_all add: end_accept_def disposed_def)

lemma Listener_OnAcceptE:
  assumes "Listener_OnAccept u H n res flags x = Inr (out, x')"
  obtains x2 where
    "if res < 0 then x2 = (fst x, end_accept flags (snd x))
     else OnAccept_client u H n res (fst x, end_accept flags (snd x)) = Inr x2"
    "x' = x2 \<or> x' = snd (RegisterAccept u n x2)"
    "out = MultishotDispatchResult flags"
proof (cases "res < 0")
  case True
  then show thesis
    using assms that by (cases x) (auto simp: Listener_OnAccept_def MultishotDispatchResult_def Let_def
        end_accept_def split: if_splits)
next
  case False
  then obtain x2 where "OnAccept_client u H n res (fst x, end_accept flags (snd x)) = Inr x2"
    using assms by (cases x) (auto simp: Listener_OnAccept_def Let_def end_accept_def
        split: sum.splits)
  then show thesis
    using assms that False by (cases x; cases x2) (auto simp: Listener_OnAccept_def
        MultishotDispatchResult_def Let_def end_accept_def split: if_splits)
qed

text \<open>A small instance for the examples below.\<close>

definition net0 :: "(nat, nat) net" where
  "net0 = \<lparr>inet_pton = \<lambda>s. if s = ''127.0.0.1'' then Some 2130706433 else None, socket_ret = 5,
      bind_ret = \<lambda>_ _. 0, listen_ret = 0, fcntl_getfl = \<lambda>_. 2, fcntl_setfl = \<lambda>_ _. 0,
      new_event = \<lambda>_. Some 128, factory = \<lambda>_ fd. 256, start_calls = \<lambda>_ _. [],
      extra_session_count = \<lambda>_. 0, accept_handler = 0, cancel_handler = 1\<rparr>"

definition listener0 :: Listener where
  "listener0 = (SetSessionCountFn (Listener_new \<lparr>host = ''localhost'', port = 80\<rparr> True 0 1))
      \<lparr>ln_listen_fd := 5, ln_active_accept_ev := Some 128\<rparr>"

lemmas listener_instance = net0_def listener0_def SetSessionCountFn_def Listener_new_def
  SocketHandle_Valid_def O_NONBLOCK_def IORING_CQE_F_MORE_def

lemmas listener_defs = Listener_OnAccept_def OnAccept_client_def RegisterAccept_def alloc_event_def
  start_session_def session_count_def SetNonBlocking_def PrepAcceptMultishot_def prep_plain_def
  SessionManager_Add_def SessionManager_Count_def um_emplace_def Submit_def FlushSubmissions_def

text \<open>
  C17: Every connection the kernel hands over ends up in exactly one place: it is closed, given to
  the reject handler, or owned by a session that was started. A failed accept disposes of nothing.
\<close>

theorem accepted_once:
  assumes "Listener_OnAccept u H n res flags x = Inr (out, x')"
  shows "disposed (snd x') = (if res < 0 then disposed (snd x) else add_mset res (disposed (snd x))) \<and>
         (out = kPending \<longleftrightarrow> flags AND IORING_CQE_F_MORE \<noteq> 0)"
proof -
  from assms obtain x2 where
    x2: "if res < 0 then x2 = (fst x, end_accept flags (snd x))
         else OnAccept_client u H n res (fst x, end_accept flags (snd x)) = Inr x2"
    and x': "x' = x2 \<or> x' = snd (RegisterAccept u n x2)"
    and out: "out = MultishotDispatchResult flags" by (rule Listener_OnAcceptE)
  have "disposed (snd x2) = (if res < 0 then disposed (snd x) else add_mset res (disposed (snd x)))"
    using x2 OnAccept_client_disposes [of u H n res _ x2] by (auto split: if_splits)
  then show ?thesis using x' out by (auto simp: MultishotDispatchResult_def)
qed

lemma accept0:
  "\<exists>x. Listener_OnAccept uring0 host0 net0 7 2 ((heap0, ring0 0), listener0) = Inr (kPending, x)"
  by (simp add: listener_defs listener_instance instance0)

theorem accepted_once_witness:
  "\<exists>x. Listener_OnAccept uring0 host0 net0 7 2 ((heap0, ring0 0), listener0) = Inr (kPending, x) \<and>
     disposed (snd x) = {#7#}"
proof -
  obtain x where x: "Listener_OnAccept uring0 host0 net0 7 2 ((heap0, ring0 0), listener0) = Inr (kPending, x)"
    using accept0 by blast
  have "disposed (snd x) = {#7#}"
    using accepted_once [OF x] by (simp add: disposed_def listener_instance)
  with x show ?thesis by blast
qed

section \<open>Admission\<close>

fun adds_no_session :: "('t, 'k) ring_call \<Rightarrow> bool" where
  "adds_no_session (CAddSession p) \<longleftrightarrow> False"
| "adds_no_session c \<longleftrightarrow> True"

lemma SessionManager_ok:
  "um_ok m \<Longrightarrow> um_ok (snd (SessionManager_Add p m))"
  "um_ok m \<Longrightarrow> um_ok (SessionManager_Release p m)"
  by (simp_all add: SessionManager_Add_def SessionManager_Release_def um_simps)

lemma Count_Add: "SessionManager_Count (snd (SessionManager_Add p m)) \<le> Suc (SessionManager_Count m)"
  by (simp add: SessionManager_Count_def SessionManager_Add_def um_emplace_def)

lemma Count_Release: "SessionManager_Count (SessionManager_Release p m) \<le> SessionManager_Count m"
  by (simp add: SessionManager_Count_def SessionManager_Release_def um_erase_def AList.delete_eq)

lemma sessions_prep [simp]:
  "ior_sessions (snd (prep_plain u op d r)) = ior_sessions r"
  "ior_sessions (snd (snd (PrepRecv u p fd ev r))) = ior_sessions r"
  "ior_sessions (snd (snd (PrepRecvMultishot u p fd ev r))) = ior_sessions r"
  "ior_sessions (snd (snd (PrepSendMsg u p fd lens flags ev r))) = ior_sessions r"
  "ior_sessions (snd (snd (PrepTimeout u p d2 ev r))) = ior_sessions r"
  "ior_sessions (Post b t r) = ior_sessions r"
  "ior_sessions (snd (Submit u r)) = ior_sessions r"
  by (simp_all add: prep_plain_def PrepRecv_def PrepRecvMultishot_def PrepSendMsg_def PrepTimeout_def
      GetSqe_def put_sqe_def Post_def push_posted_def Wake_def Submit_def FlushSubmissions_def
      io_uring_submit_def Let_def split: option.split)

lemma sessions_on_event:
  "on_event p f s = Inr s' \<Longrightarrow> (\<And>ev. ior_sessions (snd (snd (f ev (snd s)))) = ior_sessions (snd s)) \<Longrightarrow>
     ior_sessions (snd s') = ior_sessions (snd s)"
  by (auto simp: on_event_def split: option.splits prod.splits) (metis snd_conv)

lemma run_call_sessions:
  assumes "run_call u H c s = Inr s'" "adds_no_session c"
  shows "SessionManager_Count (ior_sessions (snd s')) \<le> SessionManager_Count (ior_sessions (snd s))"
  using assms Count_Release
  by (cases s; cases c)
    (auto simp: plain_preps split: if_splits option.splits dest!: sessions_on_event)

lemma run_calls_sessions:
  "run_calls u H cs s = Inr s' \<Longrightarrow> list_all adds_no_session cs \<Longrightarrow>
     SessionManager_Count (ior_sessions (snd s')) \<le> SessionManager_Count (ior_sessions (snd s))"
proof (induction cs arbitrary: s)
  case (Cons c cs)
  then obtain s1 where "run_call u H c s = Inr s1" "run_calls u H cs s1 = Inr s'"
    by (auto split: sum.splits)
  then show ?case using Cons run_call_sessions [of u H c s s1] by fastforce
qed simp

lemma start_session_sessions:
  assumes "start_session u H n p s = Inr s'" "\<And>k. list_all adds_no_session (start_calls n k p)"
  shows "SessionManager_Count (ior_sessions (snd s')) \<le> Suc (SessionManager_Count (ior_sessions (snd s)))"
proof -
  let ?r = "(snd s)\<lparr>ior_asked := Suc (ior_asked (snd s)),
      ior_sessions := snd (SessionManager_Add p (ior_sessions (snd s)))\<rparr>"
  have "run_calls u H (start_calls n (ior_asked (snd s)) p) (fst s, ?r) = Inr s'"
    using assms(1) by (simp add: start_session_def Let_def)
  from run_calls_sessions [OF this assms(2)] show ?thesis
    using Count_Add [of p "ior_sessions (snd s)"] by simp
qed

lemma RegisterAccept_sessions [simp]:
  "ior_sessions (snd (fst (snd (RegisterAccept u n x)))) = ior_sessions (snd (fst x))"
  by (cases x; cases "fst x")
    (auto simp: RegisterAccept_def alloc_event_def PrepAcceptMultishot_def Let_def prep_plain_def
      GetSqe_def put_sqe_def split: option.splits)

text \<open>
  The life of a listener on its ring: completions of the accept request while one is outstanding,
  and anything else the ring's thread does, which adds no session.
\<close>

inductive listener_step ::
    "uring \<Rightarrow> ('t, 'k) host \<Rightarrow> ('t, 'k) net \<Rightarrow> ('t, 'k) lsys \<Rightarrow> ('t, 'k) lsys \<Rightarrow> bool"
  for u H n where
  ls_accept: "ln_active_accept_ev l = Some p \<Longrightarrow>
     Listener_OnAccept u H n res flags (s, l) = Inr (out, x') \<Longrightarrow> listener_step u H n (s, l) x'"
| ls_other: "run_calls u H cs s = Inr s' \<Longrightarrow> list_all adds_no_session cs \<Longrightarrow>
     listener_step u H n (s, l) (s', l)"

inductive_cases listener_stepE: "listener_step u H n (s, l) x'"

definition limited :: "('t, 'k) lsys \<Rightarrow> bool" where
  "limited x \<longleftrightarrow> ln_max_sessions (snd x) > 0 \<and> ln_has_count_fn (snd x) \<and>
     SessionManager_Count (ior_sessions (snd (fst x))) \<le> unat (ln_max_sessions (snd x))"

lemma RegisterAccept_config [simp]:
  "ln_max_sessions (snd (snd (RegisterAccept u n x))) = ln_max_sessions (snd x)"
  "ln_has_count_fn (snd (snd (RegisterAccept u n x))) = ln_has_count_fn (snd x)"
  "ln_listen_fd (snd (snd (RegisterAccept u n x))) = ln_listen_fd (snd x)"
  "ln_started (snd (snd (RegisterAccept u n x))) = ln_started (snd x)"
  by (cases x; cases "fst x";
      auto simp: RegisterAccept_def Let_def split: prod.splits option.splits)+

lemma limited_RegisterAccept [simp]: "limited (snd (RegisterAccept u n x)) \<longleftrightarrow> limited x"
  by (simp add: limited_def)

lemma limited_client:
  assumes "OnAccept_client u H n fd x = Inr x'" "limited x"
    and calls: "\<And>k p. list_all adds_no_session (start_calls n k p)"
  shows "limited x'"
proof -
  obtain s l where x: "x = (s, l)" by (cases x)
  show ?thesis
  proof (cases "session_count n (snd s) \<ge> unat (ln_max_sessions l)")
    case True
    then show ?thesis
      using assms(1,2) by (auto simp: x limited_def OnAccept_client_def Let_def split: if_splits)
  next
    case False
    then have "Suc (SessionManager_Count (ior_sessions (snd s))) \<le> unat (ln_max_sessions l)"
      by (simp add: session_count_def)
    then show ?thesis
      using assms(1,2) False start_session_sessions [OF _ calls]
      by (fastforce simp: x limited_def OnAccept_client_def Let_def split: if_splits sum.splits)
  qed
qed

lemma limited_OnAccept:
  assumes "Listener_OnAccept u H n res flags x = Inr (out, x')" "limited x"
    and calls: "\<And>k p. list_all adds_no_session (start_calls n k p)"
  shows "limited x'"
proof -
  from assms(1) obtain x2 where
    x2: "if res < 0 then x2 = (fst x, end_accept flags (snd x))
         else OnAccept_client u H n res (fst x, end_accept flags (snd x)) = Inr x2"
    and x': "x' = x2 \<or> x' = snd (RegisterAccept u n x2)" by (rule Listener_OnAcceptE)
  have "limited (fst x, end_accept flags (snd x))" using assms(2) by (simp add: limited_def)
  then have "limited x2" using x2 limited_client [OF _ _ calls] by (auto split: if_splits)
  then show ?thesis using x' by auto
qed

interpretation limit: inductive_invariant "listener_step u H n" limited
    "\<lambda>x. limited x \<or> \<not> (\<forall>k p. list_all adds_no_session (start_calls n k p))"
  for u and H :: "('t, 'k) host" and n
proof
  fix x x' :: "('t, 'k) lsys"
  assume inv: "limited x \<or> \<not> (\<forall>k p. list_all adds_no_session (start_calls n k p))"
  assume "listener_step u H n x x'"
  then show "limited x' \<or> \<not> (\<forall>k p. list_all adds_no_session (start_calls n k p))"
  proof cases
    case (ls_accept l p res flags s out)
    then show ?thesis using inv limited_OnAccept by blast
  next
    case (ls_other cs s s' l)
    then show ?thesis using inv run_calls_sessions [of u H cs s s'] by (auto simp: limited_def)
  qed
qed simp



section \<open>Stopping, and the end of accepting\<close>

lemma RegisterAccept_stopped:
  "ln_listen_fd (snd x) < 0 \<Longrightarrow> RegisterAccept u n x = (False, x)"
  by (auto simp: RegisterAccept_def SocketHandle_Valid_def Let_def split: prod.splits)

lemma OnAccept_client_keeps:
  assumes "OnAccept_client u H n fd x = Inr x'"
  shows "ln_listen_fd (snd x') = ln_listen_fd (snd x)"
    "ln_active_accept_ev (snd x') = ln_active_accept_ev (snd x)"
  using assms by (cases x; auto simp: OnAccept_client_def Let_def split: if_splits sum.splits)+

definition stopped :: "Listener \<Rightarrow> bool" where
  "stopped l \<longleftrightarrow> ln_listen_fd l = -1"

lemma stopped_OnAccept:
  assumes "Listener_OnAccept u H n res flags x = Inr (out, x')" "stopped (snd x)"
  shows "stopped (snd x') \<and> (out = kComplete \<longrightarrow> ln_active_accept_ev (snd x') = None) \<and>
    (ln_active_accept_ev (snd x') = None \<or> ln_active_accept_ev (snd x') = ln_active_accept_ev (snd x))"
proof -
  from assms(1) obtain x2 where
    x2: "if res < 0 then x2 = (fst x, end_accept flags (snd x))
         else OnAccept_client u H n res (fst x, end_accept flags (snd x)) = Inr x2"
    and x': "x' = x2 \<or> x' = snd (RegisterAccept u n x2)"
    and out: "out = MultishotDispatchResult flags" by (rule Listener_OnAcceptE)
  have "ln_listen_fd (snd x2) = -1" "ln_active_accept_ev (snd x2) = ln_active_accept_ev (end_accept flags (snd x))"
    using x2 OnAccept_client_keeps [of u H n res _ x2] assms(2)
    by (auto simp: stopped_def split: if_splits)
  moreover from this have "x' = x2" using x' RegisterAccept_stopped [of x2 u n] by auto
  ultimately show ?thesis
    by (auto simp: stopped_def out MultishotDispatchResult_def end_accept_def split: if_splits)
qed

lemma stopped_steps:
  assumes "(listener_step u H n)\<^sup>*\<^sup>* x x'" "stopped (snd x)"
  shows "stopped (snd x') \<and>
    (ln_active_accept_ev (snd x') = None \<or> ln_active_accept_ev (snd x') = ln_active_accept_ev (snd x))"
  using assms
proof (induction rule: rtranclp_induct)
  case (step y z)
  from step(2) show ?case
  proof cases
    case (ls_accept l p res flags s out)
    then show ?thesis using step stopped_OnAccept [OF ls_accept(3)] by auto
  next
    case (ls_other cs s s' l)
    then show ?thesis using step by simp
  qed
qed simp

text \<open>
  C19: Stopping is final. After \<open>Stop\<close> the listening socket is closed and stays closed, no later
  completion prepares another accept request, and after the completion that ends the outstanding
  request none is outstanding, whatever the ring does in between.
\<close>

theorem Stop_final:
  assumes "(listener_step u H n)\<^sup>*\<^sup>* (Listener_Stop u n x) x'"
  shows "ln_listen_fd (snd x') = -1 \<and>
         (Listener_OnAccept u H n res flags x' = Inr (kComplete, x'') \<longrightarrow>
            ln_active_accept_ev (snd x'') = None) \<and>
         (ln_active_accept_ev (snd x') = None \<longrightarrow>
            (listener_step u H n)\<^sup>*\<^sup>* x' y \<longrightarrow> ln_active_accept_ev (snd y) = None)"
proof -
  have "stopped (snd (Listener_Stop u n x))"
    by (auto simp: stopped_def Listener_Stop_def reset_listen_fd_def SocketHandle_Reset_def Let_def
        split: prod.split)
  then have "stopped (snd x')" using stopped_steps [OF assms] by simp
  then show ?thesis using stopped_OnAccept [of u H n res flags x' kComplete x''] stopped_steps [of u H n x' y]
    by (auto simp: stopped_def)
qed

theorem Stop_final_witness:
  "ln_listen_fd (snd (Listener_Stop uring0 net0 ((heap0, ring0 0), listener0))) = -1"
  using Stop_final [of uring0 host0 net0 "((heap0, ring0 0), listener0)"] by blast

text \<open>
  A listener can lose its accept request for good: when the request ends and no submission
  entry is free, the attempt to register it again fails and is not repeated. The socket stays open,
  nothing is outstanding, and no later completion on the ring changes that.
\<close>

theorem accept_lost:
  assumes "ln_listen_fd l \<ge> 0" "flags AND IORING_CQE_F_MORE = 0" "res < 0"
    and "new_event n (ior_asked r) = Some p" "\<not> get_sqe_ok u (Suc (ior_asked r))"
  shows "\<exists>x. Listener_OnAccept u H n res flags ((h, r), l) = Inr (kComplete, x) \<and>
           (\<forall>y. (listener_step u H n)\<^sup>*\<^sup>* x y \<longrightarrow>
              ln_listen_fd (snd y) = ln_listen_fd l \<and> ln_active_accept_ev (snd y) = None \<and>
              ln_started (snd y) = ln_started l)"
proof -
  let ?l = "l\<lparr>ln_active_accept_ev := None, ln_accept_cancel_requested := False\<rparr>"
  have quiet: "snd y = ?l" if "(listener_step u H n)\<^sup>*\<^sup>* x y" "snd x = ?l" for x y
    using that
    by (induction rule: rtranclp_induct) (auto elim: listener_step.cases)
  obtain s where "Listener_OnAccept u H n res flags ((h, r), l) = Inr (kComplete, s, ?l)"
    using assms by (auto simp: Listener_OnAccept_def RegisterAccept_def alloc_event_def
        PrepAcceptMultishot_def prep_plain_def GetSqe_def SocketHandle_Valid_def Let_def)
  then show ?thesis using quiet by fastforce
qed

definition full :: uring where
  "full = uring0\<lparr>get_sqe_ok := \<lambda>_. False\<rparr>"

theorem accept_lost_witness:
  "\<exists>x. Listener_OnAccept full host0 net0 (- 24) 0 ((heap0, ring0 0), listener0) = Inr (kComplete, x) \<and>
     ln_listen_fd (snd x) = 5 \<and> ln_active_accept_ev (snd x) = None"
  using accept_lost [of listener0 0 "- 24" net0 "ring0 0" 128 full host0 heap0]
  by (fastforce simp: full_def uring0_def listener_instance)

section \<open>The address\<close>

text \<open>
  A host that is not an IPv4 literal, \<open>localhost\<close> for one, is not an error: the listener is
  bound to every address of the machine.
\<close>

theorem listens_on_any:
  assumes "inet_pton n (host (ln_addr l)) = None" "socket_ret n \<ge> 0"
    and "bind_ret n INADDR_ANY (port (ln_addr l)) \<ge> 0" "listen_ret n \<ge> 0"
  shows "ln_bound (snd (snd (Listener_Start u n (s, l)))) = Some INADDR_ANY"
  using assms
  by (cases s) (auto simp: Listener_Start_def CreateListenSocket_def RegisterAccept_def Let_def
      split: option.splits prod.splits)

theorem listens_on_any_witness:
  "ln_bound (snd (snd (Listener_Start uring0 net0 ((heap0, ring0 0),
      Listener_new \<lparr>host = ''localhost'', port = 80\<rparr> True 0 1)))) = Some INADDR_ANY"
  by (rule listens_on_any) (simp_all add: listener_instance)

end
