(* ===== verification/Worker_Loop.thy ===== *)
theory Worker_Loop
  imports Io_Ring
begin

text \<open>
  The event loop of \<^verbatim>\<open>Worker::Run\<close> as a transition system: the ring's thread goes round
  \<^verbatim>\<open>ProcessPostedTasks\<close>, \<^verbatim>\<open>Dispatch\<close>, \<^verbatim>\<open>ProcessPostedTasks\<close> and the ticks of its sessions, other
  threads post tasks, and the kernel posts completions, all interleaved. A \<^verbatim>\<open>Post\<close> of another thread
  is two steps, because the queue is unlocked before the wake-up is written. The steps of the
  ring's thread are the functions of \<open>Io_Ring\<close>.
\<close>

section \<open>Steps\<close>

datatype 't pc =
    PStart
  | PTasks1 "(bool \<times> 't) list"
  | PEnter
  | PWait
  | PDrain nat
  | PSwap2
  | PTasks2 "(bool \<times> 't) list"
  | PTick

text \<open>
  \<open>lp_wakers\<close> counts the threads between the two steps of a post, \<open>lp_polls\<close> the completions the
  kernel has posted for the poll of the wake-up descriptor.
\<close>

record ('t, 'k) loop =
  lp_heap :: "('t, 'k) heap"
  lp_ring :: "'t IoRing"
  lp_pc :: "'t pc"
  lp_wakers :: nat
  lp_polls :: nat

definition wake_polls :: "'t IoRing \<Rightarrow> nat" where
  "wake_polls r = length (filter (\<lambda>q. sqe_user_data q = kWakeUserData) (ior_submitted r))"

definition take_posted :: "'t IoRing \<Rightarrow> 't IoRing" where
  "take_posted r = r\<lparr>ior_posted := []\<rparr>"

definition finish_task :: "(bool \<times> 't) \<Rightarrow> 't IoRing \<Rightarrow> 't IoRing" where
  "finish_task t r = r\<lparr>ior_ran := ior_ran r @ [snd t]\<rparr>"

inductive loop_step ::
    "uring \<Rightarrow> ('t, 'k) host \<Rightarrow> ('t, 'k) loop \<Rightarrow> ('t, 'k) loop \<Rightarrow> bool" for u H where
  lp_swap1: "lp_pc s = PStart \<Longrightarrow>
     loop_step u H s (s\<lparr>lp_ring := take_posted (lp_ring s), lp_pc := PTasks1 (ior_posted (lp_ring s))\<rparr>)"
| lp_task1: "lp_pc s = PTasks1 (t # ts) \<Longrightarrow>
     invoke_task u H (snd t) (lp_heap s, lp_ring s) = Inr (h, r) \<Longrightarrow>
     loop_step u H s (s\<lparr>lp_heap := h, lp_ring := finish_task t r, lp_pc := PTasks1 ts\<rparr>)"
| lp_done1: "lp_pc s = PTasks1 [] \<Longrightarrow> loop_step u H s (s\<lparr>lp_pc := PEnter\<rparr>)"
| lp_enter: "lp_pc s = PEnter \<Longrightarrow>
     loop_step u H s (s\<lparr>lp_ring := dispatch_enter u (lp_ring s), lp_pc := PWait\<rparr>)"
| lp_wait_over: "lp_pc s = PWait \<Longrightarrow> loop_step u H s (s\<lparr>lp_pc := PSwap2\<rparr>)"
| lp_wait_ready: "lp_pc s = PWait \<Longrightarrow> ior_cq (lp_ring s) \<noteq> [] \<Longrightarrow>
     loop_step u H s (s\<lparr>lp_pc := PDrain 0\<rparr>)"
| lp_cqe: "lp_pc s = PDrain k \<Longrightarrow> k < length (ior_cq (lp_ring s)) \<Longrightarrow>
     ior_cqe_batch_budget (lp_ring s) = 0 \<or> k < unat (ior_cqe_batch_budget (lp_ring s)) \<Longrightarrow>
     dispatch_cqe u H (ior_cq (lp_ring s) ! k) (lp_heap s, lp_ring s) = Inr (h, r) \<Longrightarrow>
     loop_step u H s (s\<lparr>lp_heap := h, lp_ring := r, lp_pc := PDrain (Suc k)\<rparr>)"
| lp_leave: "lp_pc s = PDrain k \<Longrightarrow>
     k = length (ior_cq (lp_ring s)) \<or>
       ior_cqe_batch_budget (lp_ring s) \<noteq> 0 \<and> k \<ge> unat (ior_cqe_batch_budget (lp_ring s)) \<Longrightarrow>
     loop_step u H s (s\<lparr>lp_ring := dispatch_leave u k (lp_ring s), lp_pc := PSwap2\<rparr>)"
| lp_swap2: "lp_pc s = PSwap2 \<Longrightarrow>
     loop_step u H s (s\<lparr>lp_ring := take_posted (lp_ring s), lp_pc := PTasks2 (ior_posted (lp_ring s))\<rparr>)"
| lp_task2: "lp_pc s = PTasks2 (t # ts) \<Longrightarrow>
     invoke_task u H (snd t) (lp_heap s, lp_ring s) = Inr (h, r) \<Longrightarrow>
     loop_step u H s (s\<lparr>lp_heap := h, lp_ring := finish_task t r, lp_pc := PTasks2 ts\<rparr>)"
| lp_done2: "lp_pc s = PTasks2 [] \<Longrightarrow> loop_step u H s (s\<lparr>lp_pc := PTick\<rparr>)"
| lp_tick: "lp_pc s = PTick \<Longrightarrow> run_calls u H cs (lp_heap s, lp_ring s) = Inr (h, r) \<Longrightarrow>
     loop_step u H s (s\<lparr>lp_heap := h, lp_ring := r, lp_pc := PStart\<rparr>)"
| lp_push: "loop_step u H s
     (s\<lparr>lp_ring := push_posted True t (lp_ring s), lp_wakers := Suc (lp_wakers s)\<rparr>)"
| lp_wake: "lp_wakers s = Suc w \<Longrightarrow>
     loop_step u H s (s\<lparr>lp_ring := Wake (lp_ring s), lp_wakers := w\<rparr>)"
| lp_kernel: "cqe_user_data c \<noteq> kWakeUserData \<Longrightarrow>
     loop_step u H s (s\<lparr>lp_ring := (lp_ring s)\<lparr>ior_cq := ior_cq (lp_ring s) @ [c]\<rparr>\<rparr>)"
| lp_kernel_wake: "cqe_user_data c = kWakeUserData \<Longrightarrow> lp_polls s < wake_polls (lp_ring s) \<Longrightarrow>
     cqe_res c \<ge> 0 \<longrightarrow> ior_wake_count (lp_ring s) > 0 \<Longrightarrow>
     loop_step u H s (s\<lparr>lp_ring := (lp_ring s)\<lparr>ior_cq := ior_cq (lp_ring s) @ [c]\<rparr>,
                        lp_polls := Suc (lp_polls s)\<rparr>)"

definition loop_start :: "uring \<Rightarrow> ('t, 'k) loop \<Rightarrow> bool" where
  "loop_start u s \<longleftrightarrow>
     (\<exists>z br batch budget. lp_ring s = IoRing_new u z br batch budget \<and> setup_eventfd z \<ge> 0) \<and>
     lp_pc s = PStart \<and> lp_wakers s = 0 \<and> lp_polls s = 0"

section \<open>Invariants\<close>

fun batch :: "'t pc \<Rightarrow> (bool \<times> 't) list" where
  "batch (PTasks1 ts) = ts"
| "batch (PTasks2 ts) = ts"
| "batch _ = []"

fun processed :: "'t pc \<Rightarrow> nat" where
  "processed (PDrain k) = k"
| "processed _ = 0"

fun past_wait :: "'t pc \<Rightarrow> bool" where
  "past_wait (PDrain k) = True"
| "past_wait PSwap2 = True"
| "past_wait _ = False"

text \<open>Tasks run in the order they were posted, and none is lost or run twice.\<close>

definition order_ok :: "('t, 'k) loop \<Rightarrow> bool" where
  "order_ok s \<longleftrightarrow>
     ior_ever (lp_ring s) =
       ior_ran (lp_ring s) @ map snd (batch (lp_pc s)) @ map snd (ior_posted (lp_ring s))"

text \<open>
  A task another thread posted is covered by a wake-up that is written or about to be, except when
  the ring's thread has woken and not yet taken the queue.
\<close>

definition wake_ok :: "('t, 'k) loop \<Rightarrow> bool" where
  "wake_ok s \<longleftrightarrow>
     ior_wake_fd (lp_ring s) \<ge> 0 \<and>
     ((\<exists>t. (True, t) \<in> set (ior_posted (lp_ring s))) \<longrightarrow>
        past_wait (lp_pc s) \<or> ior_wake_count (lp_ring s) > 0 \<or> lp_wakers s > 0)"

text \<open>When the ring believes its poll is armed, the kernel has it or its completion is unread.\<close>

definition poll_ok :: "('t, 'k) loop \<Rightarrow> bool" where
  "poll_ok s \<longleftrightarrow>
     lp_polls s \<le> wake_polls (lp_ring s) \<and> processed (lp_pc s) \<le> length (ior_cq (lp_ring s)) \<and>
     (ior_wake_poll_armed (lp_ring s) \<longrightarrow>
        lp_polls s < wake_polls (lp_ring s) \<or>
        (\<exists>c\<in>set (drop (processed (lp_pc s)) (ior_cq (lp_ring s))). cqe_user_data c = kWakeUserData))"

definition takes_all :: "uring \<Rightarrow> bool" where
  "takes_all u \<longleftrightarrow> (\<forall>n k. submit_ret u n \<ge> 0 \<longrightarrow> submit_taken u n k \<ge> k)"

lemma keeps_dispatch_leave:
  "ior_ran (dispatch_leave u k r) = ior_ran r" "ior_ever (dispatch_leave u k r) = ior_ever r"
  "ior_posted (dispatch_leave u k r) = ior_posted r"
  "ior_wake_count (dispatch_leave u k r) = ior_wake_count r"
  "ior_wake_fd (dispatch_leave u k r) = ior_wake_fd r"
  "ior_cq (dispatch_leave u k r) = drop k (ior_cq r)"
  by (simp_all add: dispatch_leave_def Let_def keeps_ArmWakePoll)

lemma frameE:
  assumes "ring_frame r r'"
  obtains ts where "ior_posted r' = ior_posted r @ map (Pair False) ts" "ior_ever r' = ior_ever r @ ts"
    "ior_ran r' = ior_ran r" "ior_wake_count r' = ior_wake_count r" "ior_wake_fd r' = ior_wake_fd r"
    "ior_cq r' = ior_cq r" "ior_wake_poll_armed r' = ior_wake_poll_armed r"
  using assms by (auto simp: ring_frame_def)

lemmas loop_keeps = take_posted_def finish_task_def push_posted_def Wake_def keeps_dispatch_enter
  keeps_dispatch_leave

lemma order_step:
  assumes "order_ok s" "loop_step u H s s'"
  shows "order_ok s'"
  using assms(2,1)
proof cases
  case (lp_task1 t ts h r)
  then show ?thesis
    using assms(1) by (auto simp: order_ok_def loop_keeps comp_def
        dest!: frame_invoke_task elim!: frameE)
next
  case (lp_task2 t ts h r)
  then show ?thesis
    using assms(1) by (auto simp: order_ok_def loop_keeps comp_def
        dest!: frame_invoke_task elim!: frameE)
next
  case (lp_tick cs h r)
  then show ?thesis
    using assms(1) by (auto simp: order_ok_def comp_def dest!: frame_run_calls elim!: frameE)
next
  case (lp_cqe k h r)
  then show ?thesis
    using assms(1) cqe_effect_keeps [OF dispatch_cqe_effect [OF lp_cqe(5)]]
    by (auto simp: order_ok_def comp_def)
qed (auto simp: order_ok_def loop_keeps)

lemma wake_step:
  assumes "wake_ok s" "loop_step u H s s'"
  shows "wake_ok s'"
  using assms(2,1)
proof cases
  case (lp_task1 t ts h r)
  then show ?thesis
    using assms(1) by (auto simp: wake_ok_def loop_keeps dest!: frame_invoke_task elim!: frameE)
next
  case (lp_task2 t ts h r)
  then show ?thesis
    using assms(1) by (auto simp: wake_ok_def loop_keeps dest!: frame_invoke_task elim!: frameE)
next
  case (lp_tick cs h r)
  then show ?thesis
    using assms(1) by (auto simp: wake_ok_def dest!: frame_run_calls elim!: frameE)
next
  case (lp_cqe k h r)
  then show ?thesis
    using assms(1) cqe_effect_keeps [OF dispatch_cqe_effect [OF lp_cqe(5)]]
    by (auto simp: wake_ok_def)
qed (auto simp: wake_ok_def loop_keeps)

lemma wake_polls_mono:
  "ior_submitted r' = ior_submitted r @ qs \<Longrightarrow> wake_polls r \<le> wake_polls r'"
  by (simp add: wake_polls_def)

lemma polls_frame: "ring_frame r r' \<Longrightarrow> wake_polls r \<le> wake_polls r'"
  by (auto simp: ring_frame_def intro: wake_polls_mono)

lemma ArmWakePoll_polls:
  assumes "takes_all u"
  shows "wake_polls r \<le> wake_polls (ArmWakePoll u r) \<and>
    (ior_wake_poll_armed (ArmWakePoll u r) \<longrightarrow>
       ior_wake_poll_armed r \<or> wake_polls r < wake_polls (ArmWakePoll u r))"
proof -
  let ?n = "Suc (ior_asked r)" and ?q = "plain_sqe (OpPollAdd (ior_wake_fd r) POLLIN) kWakeUserData"
  let ?k = "submit_taken u ?n (Suc (length (ior_sq r)))"
  have q: "sqe_user_data ?q = kWakeUserData" by (simp add: plain_sqe_def)
  have "take ?k (ior_sq r @ [?q]) = ior_sq r @ [?q]" if "submit_ret u ?n \<ge> 0"
    using assms that by (intro take_all) (simp add: takes_all_def)
  then show ?thesis
    by (auto simp: ArmWakePoll_def GetSqe_def put_sqe_def io_uring_submit_def wake_polls_def q Let_def
        not_less simp del: take_append)
qed

lemma enter_polls:
  assumes "takes_all u"
  shows "wake_polls r \<le> wake_polls (dispatch_enter u r) \<and>
    (ior_wake_poll_armed (dispatch_enter u r) \<longrightarrow>
       ior_wake_poll_armed r \<or> wake_polls r < wake_polls (dispatch_enter u r))"
proof -
  have "ring_frame r (snd (FlushSubmissions u r))" by (rule frame_Flush)
  then have "wake_polls r \<le> wake_polls (snd (FlushSubmissions u r))"
    "ior_wake_poll_armed (snd (FlushSubmissions u r)) = ior_wake_poll_armed r"
    using polls_frame by (auto simp: ring_frame_def)
  then show ?thesis
    using ArmWakePoll_polls [OF assms, of "snd (FlushSubmissions u r)"]
    by (auto simp: dispatch_enter_def Let_def)
qed

lemma leave_polls:
  assumes "takes_all u"
  shows "wake_polls r \<le> wake_polls (dispatch_leave u k r) \<and>
    (ior_wake_poll_armed (dispatch_leave u k r) \<longrightarrow>
       ior_wake_poll_armed r \<or> wake_polls r < wake_polls (dispatch_leave u k r))"
  using ArmWakePoll_polls [OF assms, of "r\<lparr>ior_cq := drop k (ior_cq r)\<rparr>"]
  by (auto simp: dispatch_leave_def Let_def wake_polls_def)

lemma poll_ok_grow:
  assumes "poll_ok s" "ior_cq (lp_ring s') = ior_cq (lp_ring s)" "lp_polls s' = lp_polls s"
    "processed (lp_pc s') = processed (lp_pc s)" "wake_polls (lp_ring s) \<le> wake_polls (lp_ring s')"
    "ior_wake_poll_armed (lp_ring s') \<longrightarrow>
       ior_wake_poll_armed (lp_ring s) \<or> wake_polls (lp_ring s) < wake_polls (lp_ring s')"
  shows "poll_ok s'"
  using assms by (auto simp: poll_ok_def)

lemma poll_step:
  assumes all: "takes_all u" and ok: "poll_ok s" and step: "loop_step u H s s'"
  shows "poll_ok s'"
  using step
proof cases
  case (lp_task1 t ts h r)
  then have f: "ring_frame (lp_ring s) r" using frame_invoke_task by fastforce
  have "wake_polls (finish_task t r) = wake_polls r" by (simp add: wake_polls_def finish_task_def)
  then show ?thesis using lp_task1 f polls_frame [OF f]
    by (intro poll_ok_grow [OF ok]) (auto simp: finish_task_def elim: frameE)
next
  case (lp_task2 t ts h r)
  then have f: "ring_frame (lp_ring s) r" using frame_invoke_task by fastforce
  have "wake_polls (finish_task t r) = wake_polls r" by (simp add: wake_polls_def finish_task_def)
  then show ?thesis using lp_task2 f polls_frame [OF f]
    by (intro poll_ok_grow [OF ok]) (auto simp: finish_task_def elim: frameE)
next
  case (lp_tick cs h r)
  then have f: "ring_frame (lp_ring s) r" using frame_run_calls by fastforce
  then show ?thesis using lp_tick polls_frame [OF f]
    by (intro poll_ok_grow [OF ok]) (auto elim: frameE)
next
  case lp_enter
  then show ?thesis using enter_polls [OF all, of "lp_ring s"]
    by (intro poll_ok_grow [OF ok]) (auto simp: keeps_dispatch_enter)
next
  case (lp_cqe k h r)
  define c where "c = ior_cq (lp_ring s) ! k"
  have e: "cqe_effect c (lp_ring s) r" using dispatch_cqe_effect [OF lp_cqe(5)] by (simp add: c_def)
  have mono: "wake_polls (lp_ring s) \<le> wake_polls r"
    using cqe_effect_keeps(7) [OF e] by (auto intro: wake_polls_mono)
  have armed: "ior_wake_poll_armed r \<Longrightarrow>
      ior_wake_poll_armed (lp_ring s) \<and> cqe_user_data c \<noteq> kWakeUserData"
    using e by (auto simp: cqe_effect_def ring_frame_def DrainWakeFd_def Let_def split: if_splits)
  have "drop k (ior_cq (lp_ring s)) = c # drop (Suc k) (ior_cq (lp_ring s))"
    using lp_cqe(3) by (simp add: Cons_nth_drop_Suc c_def)
  then show ?thesis
    using ok mono armed lp_cqe cqe_effect_keeps(1) [OF e] by (auto simp: poll_ok_def)
next
  case (lp_leave k)
  then show ?thesis
    using ok leave_polls [OF all, of "lp_ring s" k] by (auto simp: poll_ok_def keeps_dispatch_leave)
next
  case (lp_kernel_wake c)
  then show ?thesis using ok by (auto simp: poll_ok_def wake_polls_def)
qed (use ok in \<open>auto simp: poll_ok_def wake_polls_def take_posted_def push_posted_def Wake_def\<close>)

definition loop_inv :: "uring \<Rightarrow> ('t, 'k) loop \<Rightarrow> bool" where
  "loop_inv u s \<longleftrightarrow> order_ok s \<and> wake_ok s \<and> (takes_all u \<longrightarrow> poll_ok s)"

lemma loop_inv_start: "loop_start u s \<Longrightarrow> loop_inv u s"
proof -
  assume "loop_start u s"
  then obtain z br b c where r: "lp_ring s = IoRing_new u z br b c" "setup_eventfd z \<ge> 0"
    and s: "lp_pc s = PStart" "lp_wakers s = 0" "lp_polls s = 0" by (auto simp: loop_start_def)
  define r0 :: "'a IoRing" where "r0 = \<lparr>ior_buf_ring = br, ior_sessions = [], ior_submit_batch_size = b,
               ior_cqe_batch_budget = c, ior_pending_submissions = 0, ior_posted = [],
               ior_wake_fd = setup_eventfd z, ior_wake_poll_armed = False, ior_fd = setup_fd z,
               ior_sq = [], ior_submitted = [], ior_cq = [], ior_wake_count = 0, ior_ever = [],
               ior_ran = [], ior_messages = [], ior_asked = 0\<rparr>"
  have "lp_ring s = ArmWakePoll u r0" using r by (simp add: IoRing_new_def r0_def Let_def)
  then show ?thesis
    using s r ArmWakePoll_polls [of u r0]
    by (auto simp: loop_inv_def order_ok_def wake_ok_def poll_ok_def keeps_ArmWakePoll r0_def)
qed

interpretation ring_loop: inductive_invariant "loop_step u H" "loop_start u" "loop_inv u" for u H
  by unfold_locales
    (auto simp: loop_inv_start, auto simp: loop_inv_def intro: order_step wake_step poll_step)

text \<open>An execution: the thread goes to sleep, then another thread posts task 7.\<close>

definition loop0 :: "(nat, nat) loop" where
  "loop0 = \<lparr>lp_heap = heap0, lp_ring = ring0 0, lp_pc = PStart, lp_wakers = 0, lp_polls = 0\<rparr>"

definition loop1 :: "(nat, nat) loop" where
  "loop1 = loop0\<lparr>lp_ring := Wake (push_posted True 7 (dispatch_enter uring0 (take_posted (ring0 0)))),
      lp_pc := PWait\<rparr>"

lemma loop1_reachable: "reachable_from (loop_step uring0 host0) (loop_start uring0) loop1"
proof -
  let ?a = "loop0\<lparr>lp_ring := take_posted (ring0 0), lp_pc := PTasks1 []\<rparr>"
  let ?b = "?a\<lparr>lp_pc := PEnter\<rparr>"
  let ?c = "?b\<lparr>lp_ring := dispatch_enter uring0 (take_posted (ring0 0)), lp_pc := PWait\<rparr>"
  let ?d = "?c\<lparr>lp_ring := push_posted True 7 (lp_ring ?c), lp_wakers := 1\<rparr>"
  have start: "loop_start uring0 loop0"
    unfolding loop_start_def loop0_def ring0_def
    by (intro conjI exI [of _ setup0] exI [of _ None] exI [of _ 1] exI [of _ 0])
      (simp_all add: setup0_def)
  have a: "loop_step uring0 host0 loop0 ?a"
    using lp_swap1 [of loop0 uring0 host0] by (simp add: loop0_def ring0_def IoRing_new_def
        setup0_def keeps_ArmWakePoll Let_def)
  have b: "loop_step uring0 host0 ?a ?b" using lp_done1 [of ?a uring0 host0] by simp
  have c: "loop_step uring0 host0 ?b ?c" using lp_enter [of ?b uring0 host0] by simp
  have d: "loop_step uring0 host0 ?c ?d"
    using lp_push [of uring0 host0 ?c 7] by (simp add: loop0_def)
  have e: "loop_step uring0 host0 ?d loop1"
    using lp_wake [of ?d 0 uring0 host0] by (simp add: loop1_def loop0_def)
  have "reachable_from (loop_step uring0 host0) (loop_start uring0) loop0"
    using start by (rule reach_start)
  from this a have "reachable_from (loop_step uring0 host0) (loop_start uring0) ?a" by (rule reach_step)
  from this b have "reachable_from (loop_step uring0 host0) (loop_start uring0) ?b" by (rule reach_step)
  from this c have "reachable_from (loop_step uring0 host0) (loop_start uring0) ?c" by (rule reach_step)
  from this d have "reachable_from (loop_step uring0 host0) (loop_start uring0) ?d" by (rule reach_step)
  from this e show ?thesis by (rule reach_step)
qed

text \<open>
  C6: Every task posted to a ring runs exactly once and in the order of the posts, whichever
  threads post: at any moment the tasks ever posted are those that have run, then those of the
  batch being run, then those still queued.
\<close>

theorem posted_once:
  assumes "reachable_from (loop_step u H) (loop_start u) s"
  shows "ior_ever (lp_ring s) =
           ior_ran (lp_ring s) @ map snd (batch (lp_pc s)) @ map snd (ior_posted (lp_ring s))"
  using ring_loop.reachable_inv [OF assms] by (simp add: loop_inv_def order_ok_def)

theorem posted_once_witness:
  "ior_ever (lp_ring loop1) = [7] \<and>
   ior_ran (lp_ring loop1) @ map snd (batch (lp_pc loop1)) @ map snd (ior_posted (lp_ring loop1)) = [7]"
  using posted_once [OF loop1_reachable]
  by (simp add: loop1_def loop0_def Wake_def push_posted_def dispatch_enter_def take_posted_def
      FlushSubmissions_def instance0)



end
