(* ===== verification/Worker.thy ===== *)
theory Worker
  imports Listener Worker_Loop
begin

text \<open>
  The worker of \<^verbatim>\<open>src/runtime/io/Worker.cpp\<close> and the pool of \<^verbatim>\<open>WorkerPool.cpp\<close>: starting a ring with
  its listeners, one round of the event loop and the rounds after it, stopping from another thread
  or from the worker's own, and the bounded waits of a shutdown.
\<close>

section \<open>State\<close>

record PendingListener =
  pl_address :: Address
  pl_factory :: bool
  pl_max_sessions :: u32

text \<open>
  A factory is a \<open>move_only_function\<close>; the flag says whether it still holds a callable. \<open>w_thread\<close>
  says whether the thread is joinable.
\<close>

record WorkerConfig =
  wc_id :: ContextId
  wc_address :: Address
  wc_ring :: IoRingConfig
  wc_max_sessions :: u32
  wc_io_timeout :: int
  wc_drain_timeout :: int
  wc_force_close_timeout :: int
  wc_reject_handler :: bool

record ('t, 'k) Worker =
  w_config :: WorkerConfig
  w_factory :: bool
  w_heap :: "('t, 'k) heap"
  w_ring :: "'t IoRing option"
  w_listener :: "Listener option"
  w_pending_listeners :: "PendingListener list"
  w_extra_listeners :: "Listener list"
  w_thread :: bool
  w_running :: bool

text \<open>
  The surroundings of a worker: the ring's, one set of socket answers per listener, what the ticks
  of sessions, their \<open>Disconnect\<close> and the hooks do on the ring, the tasks a stop posts, and what the
  two waits of a stop read from the session table and the clock, in milliseconds.
\<close>

record ('t, 'k) wenv =
  we_uring :: uring
  we_setup :: ring_setup
  we_host :: "('t, 'k) host"
  we_net :: "nat \<Rightarrow> ('t, 'k) net"
  we_start_hook :: "('t, 'k) ring_call list"
  we_session_tick :: "nat \<Rightarrow> addr \<Rightarrow> ('t, 'k) ring_call list"
  we_tick_hook :: "nat \<Rightarrow> ('t, 'k) ring_call list"
  we_disconnecting :: "nat \<Rightarrow> addr \<Rightarrow> bool"
  we_disconnect :: "nat \<Rightarrow> addr \<Rightarrow> ('t, 'k) ring_call list"
  we_stop_accepting :: 't
  we_drain :: 't
  we_noop :: 't
  we_live :: "nat \<Rightarrow> nat \<Rightarrow> nat"
  we_clock :: "nat \<Rightarrow> nat \<Rightarrow> int"

definition Worker_new :: "WorkerConfig \<Rightarrow> bool \<Rightarrow> ('t, 'k) Worker" where
  "Worker_new cfg fac =
     \<lparr>w_config = cfg, w_factory = fac, w_heap = \<lparr>hp_tasks = \<lambda>_. None, hp_events = \<lambda>_. None\<rparr>,
      w_ring = None, w_listener = None, w_pending_listeners = [], w_extra_listeners = [],
      w_thread = False, w_running = False\<rparr>"

definition AddListener :: "Address \<Rightarrow> bool \<Rightarrow> u32 \<Rightarrow> ('t, 'k) Worker \<Rightarrow> ('t, 'k) Worker" where
  "AddListener a fac max_sessions w =
     w\<lparr>w_pending_listeners := w_pending_listeners w @
         [\<lparr>pl_address = a, pl_factory = fac, pl_max_sessions = max_sessions\<rparr>]\<rparr>"

section \<open>Starting\<close>

text \<open>The wrapper around the factory hands its session on unchanged; it holds what it was given.\<close>

definition MakeListener :: "WorkerConfig \<Rightarrow> Address \<Rightarrow> bool \<Rightarrow> u32 \<Rightarrow> Listener" where
  "MakeListener cfg a fac max_sessions =
     (let l = SetSessionCountFn (Listener_new a fac (wc_id cfg) max_sessions)
      in if wc_reject_handler cfg then SetRejectHandler l else l)"

text \<open>What is left of a pending listener after its address and factory are moved out.\<close>

definition moved_out :: "PendingListener \<Rightarrow> PendingListener" where
  "moved_out p = p\<lparr>pl_address := (pl_address p)\<lparr>host := []\<rparr>, pl_factory := False\<rparr>"

fun start_extra ::
    "('t, 'k) wenv \<Rightarrow> WorkerConfig \<Rightarrow> nat \<Rightarrow> PendingListener list \<Rightarrow> ('t, 'k) sys \<Rightarrow> Listener list \<Rightarrow>
       bool \<times> PendingListener list \<times> ('t, 'k) sys \<times> Listener list" where
  "start_extra e cfg i [] s ls = (True, [], s, ls)"
| "start_extra e cfg i (p # ps) s ls =
     (let (err, s1, l) = Listener_Start (we_uring e) (we_net e i)
            (s, MakeListener cfg (pl_address p) (pl_factory p) (pl_max_sessions p))
      in if err \<noteq> None then (False, moved_out p # ps, s1, ls)
         else let (ok, ps1, s2, ls1) = start_extra e cfg (Suc i) ps s1 (ls @ [l])
              in (ok, moved_out p # ps1, s2, ls1))"

definition Worker_Start :: "('t, 'k) wenv \<Rightarrow> ('t, 'k) Worker \<Rightarrow> bool \<times> ('t, 'k) Worker" where
  "Worker_Start e w =
     (if w_running w then (True, w)
      else case IoRing_Create (we_uring e) (we_setup e) (wc_ring (w_config w)) of
             Inl _ \<Rightarrow> (False, w)
           | Inr r \<Rightarrow>
               let cfg = w_config w;
                   l0 = MakeListener cfg (wc_address cfg) (w_factory w) (wc_max_sessions cfg);
                   w1 = w\<lparr>w_factory := False\<rparr>;
                   (err, s1, l1) = Listener_Start (we_uring e) (we_net e 0) ((w_heap w, r), l0)
               in if err \<noteq> None
                  then (False, w1\<lparr>w_heap := fst s1, w_ring := None, w_listener := None\<rparr>)
                  else let (ok, ps, s2, ls) =
                             start_extra e cfg 1 (w_pending_listeners w) s1 (w_extra_listeners w)
                       in if \<not> ok
                          then (False, w1\<lparr>w_heap := fst (fst (Listener_Stop (we_uring e) (we_net e 0) (s2, l1))),
                                          w_ring := None, w_listener := None,
                                          w_pending_listeners := ps, w_extra_listeners := []\<rparr>)
                          else (True, w1\<lparr>w_heap := fst s2, w_ring := Some (snd s2),
                                         w_listener := Some l1, w_pending_listeners := [],
                                         w_extra_listeners := ls, w_thread := True,
                                         w_running := True\<rparr>))"

section \<open>The event loop\<close>

definition LiveSessions :: "('t, 'k) Worker \<Rightarrow> nat" where
  "LiveSessions w =
     (case w_ring w of None \<Rightarrow> 0 | Some r \<Rightarrow> SessionManager_Count (ior_sessions r))"

definition tick_sessions ::
    "('t, 'k) wenv \<Rightarrow> ('t, 'k) sys \<Rightarrow> fault + ('t, 'k) sys" where
  "tick_sessions e s =
     (let n = ior_asked (snd s)
      in run_calls (we_uring e) (we_host e)
           (concat (map (we_session_tick e n) (SessionManager_Snapshot (ior_sessions (snd s)))) @ we_tick_hook e n)
           (fst s, (snd s)\<lparr>ior_asked := Suc n\<rparr>))"

definition run_prologue :: "('t, 'k) wenv \<Rightarrow> ('t, 'k) sys \<Rightarrow> fault + ('t, 'k) sys" where
  "run_prologue e s = run_calls (we_uring e) (we_host e) (we_start_hook e) s"

definition dispatch_round ::
    "('t, 'k) wenv \<Rightarrow> int \<Rightarrow> ('t, 'k) sys \<Rightarrow> fault + ('t, 'k) sys" where
  "dispatch_round e timeout s =
     (case IoRing_Dispatch (we_uring e) (we_host e) timeout s of
        Inl f \<Rightarrow> Inl f
      | Inr (ok, s1) \<Rightarrow> ProcessPostedTasks (we_uring e) (we_host e) s1)"

definition run_iteration ::
    "('t, 'k) wenv \<Rightarrow> int \<Rightarrow> ('t, 'k) sys \<Rightarrow> fault + ('t, 'k) sys" where
  "run_iteration e timeout s =
     (case ProcessPostedTasks (we_uring e) (we_host e) s of
        Inl f \<Rightarrow> Inl f
      | Inr s1 \<Rightarrow>
          (case dispatch_round e timeout s1 of
             Inl f \<Rightarrow> Inl f
           | Inr s2 \<Rightarrow> tick_sessions e s2))"

fun dispatch_rounds :: "('t, 'k) wenv \<Rightarrow> nat \<Rightarrow> ('t, 'k) sys \<Rightarrow> fault + ('t, 'k) sys" where
  "dispatch_rounds e 0 s = Inr s"
| "dispatch_rounds e (Suc k) s =
     (case dispatch_round e 0 s of Inl f \<Rightarrow> Inl f | Inr s1 \<Rightarrow> dispatch_rounds e k s1)"

text \<open>
  What follows the loop. The ring is the worker's member, which a stop on this thread has reset.
\<close>

definition run_epilogue :: "('t, 'k) wenv \<Rightarrow> ('t, 'k) Worker \<Rightarrow> fault + ('t, 'k) Worker" where
  "run_epilogue e w =
     (case w_ring w of
        None \<Rightarrow> Inl NullDeref
      | Some r \<Rightarrow>
          (case ProcessPostedTasks (we_uring e) (we_host e) (w_heap w, r) of
             Inl f \<Rightarrow> Inl f
           | Inr s1 \<Rightarrow>
               (case dispatch_rounds e 8 s1 of
                  Inl f \<Rightarrow> Inl f
                | Inr (h, r2) \<Rightarrow> Inr (w\<lparr>w_heap := h, w_ring := Some r2\<rparr>))))"

section \<open>Stopping\<close>

text \<open>
  The wait polls the number of sessions and then the clock; \<open>clk 0\<close> is the reading the deadline is
  computed from. \<open>None\<close> is running out of fuel.
\<close>

fun wait_poll :: "(nat \<Rightarrow> nat) \<Rightarrow> (nat \<Rightarrow> int) \<Rightarrow> int \<Rightarrow> nat \<Rightarrow> nat \<Rightarrow> bool option" where
  "wait_poll live clk deadline i 0 = None"
| "wait_poll live clk deadline i (Suc fuel) =
     (if live i = 0 then Some True
      else if clk (Suc i) \<ge> deadline then Some False
      else wait_poll live clk deadline (Suc i) fuel)"

definition WaitForZeroSessions :: "(nat \<Rightarrow> nat) \<Rightarrow> (nat \<Rightarrow> int) \<Rightarrow> int \<Rightarrow> nat \<Rightarrow> bool option" where
  "WaitForZeroSessions live clk timeout fuel = wait_poll live clk (clk 0 + timeout) 0 fuel"

text \<open>\<open>RunOnWorker\<close>: run at once on the worker's thread, posted from a thread without a ring.\<close>

definition RunOnWorker ::
    "('t, 'k) wenv \<Rightarrow> bool \<Rightarrow> 't \<Rightarrow> ('t, 'k) Worker \<Rightarrow> fault + bool \<times> ('t, 'k) Worker" where
  "RunOnWorker e own_thread t w =
     (case w_ring w of
        None \<Rightarrow> Inr (False, w)
      | Some r \<Rightarrow>
          (case RunOnRing (we_uring e) (we_host e) (if own_thread then OnThisRing else OnNoRing) t
                  (w_heap w, r) r of
             Inl f \<Rightarrow> Inl f
           | Inr (ok, (h, r1), cur) \<Rightarrow> Inr (ok, w\<lparr>w_heap := h, w_ring := Some r1\<rparr>)))"

text \<open>
  The two tasks of a stop. On the worker's thread they run at once; from another thread a task that
  stands for them is posted.
\<close>

fun stop_listeners ::
    "('t, 'k) wenv \<Rightarrow> nat \<Rightarrow> Listener list \<Rightarrow> ('t, 'k) sys \<Rightarrow> ('t, 'k) sys \<times> Listener list" where
  "stop_listeners e i [] s = (s, [])"
| "stop_listeners e i (l # ls) s =
     (let (s1, l1) = Listener_Stop (we_uring e) (we_net e i) (s, l);
          (s2, ls1) = stop_listeners e (Suc i) ls s1
      in (s2, l1 # ls1))"

definition stop_accepting_task ::
    "('t, 'k) wenv \<Rightarrow> 't IoRing \<Rightarrow> ('t, 'k) Worker \<Rightarrow> fault + ('t, 'k) Worker" where
  "stop_accepting_task e r w =
     (case w_listener w of
        None \<Rightarrow> Inl NullDeref
      | Some l \<Rightarrow>
          let (s1, l1) = Listener_Stop (we_uring e) (we_net e 0) ((w_heap w, r), l);
              (s2, ls) = stop_listeners e 1 (w_extra_listeners w) s1
          in Inr (w\<lparr>w_heap := fst s2, w_ring := Some (snd s2), w_listener := Some l1,
                    w_extra_listeners := ls\<rparr>))"

definition drain_task ::
    "('t, 'k) wenv \<Rightarrow> 't IoRing \<Rightarrow> ('t, 'k) Worker \<Rightarrow> fault + ('t, 'k) Worker" where
  "drain_task e r w =
     (let n = ior_asked r;
          open_sessions = filter (\<lambda>p. p \<noteq> 0 \<and> \<not> we_disconnecting e n p)
            (SessionManager_Snapshot (ior_sessions r))
      in case run_calls (we_uring e) (we_host e) (concat (map (we_disconnect e n) open_sessions))
                (w_heap w, r\<lparr>ior_asked := Suc n\<rparr>) of
           Inl f \<Rightarrow> Inl f
         | Inr (h, r1) \<Rightarrow> Inr (w\<lparr>w_heap := h, w_ring := Some r1\<rparr>))"

definition StopAccepting ::
    "('t, 'k) wenv \<Rightarrow> bool \<Rightarrow> ('t, 'k) Worker \<Rightarrow> fault + ('t, 'k) Worker" where
  "StopAccepting e own_thread w =
     (case w_ring w of
        None \<Rightarrow> Inr w
      | Some r \<Rightarrow>
          if own_thread then stop_accepting_task e r w
          else Inr (w\<lparr>w_ring := Some (Post False (we_stop_accepting e) r)\<rparr>))"

definition DrainSessions ::
    "('t, 'k) wenv \<Rightarrow> bool \<Rightarrow> ('t, 'k) Worker \<Rightarrow> fault + ('t, 'k) Worker" where
  "DrainSessions e own_thread w =
     (case w_ring w of
        None \<Rightarrow> Inr w
      | Some r \<Rightarrow>
          if own_thread then drain_task e r w
          else Inr (w\<lparr>w_ring := Some (Post False (we_drain e) r)\<rparr>))"

definition Worker_Post :: "bool \<Rightarrow> 't \<Rightarrow> ('t, 'k) Worker \<Rightarrow> ('t, 'k) Worker" where
  "Worker_Post own_thread t w =
     (case w_ring w of None \<Rightarrow> w | Some r \<Rightarrow> w\<lparr>w_ring := Some (Post own_thread t r)\<rparr>)"

definition and_then :: "fault + 'a \<Rightarrow> ('a \<Rightarrow> fault + 'b) \<Rightarrow> fault + 'b" where
  "and_then x f = (case x of Inl e \<Rightarrow> Inl e | Inr v \<Rightarrow> f v)"

definition close_down ::
    "('t, 'k) wenv \<Rightarrow> bool \<Rightarrow> nat \<Rightarrow> ('t, 'k) Worker \<Rightarrow> fault + ('t, 'k) Worker" where
  "close_down e own_thread fuel w =
     and_then (StopAccepting e own_thread w) (\<lambda>w1.
     and_then (DrainSessions e own_thread w1) (\<lambda>w2.
     and_then
       (if WaitForZeroSessions (we_live e 0) (we_clock e 0) (wc_drain_timeout (w_config w)) fuel = Some True
        then Inr w2 else DrainSessions e own_thread w2) (\<lambda>w3.
     Inr (Worker_Post own_thread (we_noop e) (w3\<lparr>w_running := False\<rparr>)))))"

definition Worker_Stop ::
    "('t, 'k) wenv \<Rightarrow> bool \<Rightarrow> nat \<Rightarrow> ('t, 'k) Worker \<Rightarrow> fault + ('t, 'k) Worker" where
  "Worker_Stop e own_thread fuel w =
     (if w_ring w = None then Inr w
      else and_then (if w_running w then close_down e own_thread fuel w else Inr w) (\<lambda>w1.
             Inr (w1\<lparr>w_thread := False, w_listener := None, w_extra_listeners := [], w_ring := None\<rparr>)))"

lemma wait_poll_ends:
  assumes "clk (Suc n) \<ge> deadline" "i \<le> n" "n < i + fuel" "\<forall>j<i. live j \<noteq> 0"
  shows "\<exists>b. wait_poll live clk deadline i fuel = Some b \<and>
    (if b then \<exists>j\<le>n. live j = 0 else \<exists>j\<le>n. clk (Suc j) \<ge> deadline \<and> (\<forall>k\<le>j. live k \<noteq> 0))"
  using assms(2-)
proof (induction fuel arbitrary: i)
  case (Suc fuel)
  consider "live i = 0" | "live i \<noteq> 0" "clk (Suc i) \<ge> deadline" | "live i \<noteq> 0" "clk (Suc i) < deadline"
    by linarith
  then show ?case
  proof cases
    case 1
    then show ?thesis using Suc.prems by auto
  next
    case 2
    then show ?thesis using Suc.prems by (auto simp: le_less)
  next
    case 3
    then have "i \<noteq> n" using assms(1) by auto
    then show ?thesis using 3 Suc.IH [of "Suc i"] Suc.prems by (auto simp: less_Suc_eq)
  qed
qed simp

text \<open>
  C31: The wait of a shutdown ends, whatever the sessions do: when the clock does not run backwards
  and each pause lasts its ten milliseconds, it returns after at most a tenth of the timeout plus
  two polls. It answers true only if it saw no session, and false only if it saw sessions at every
  poll up to one past the deadline.
\<close>

theorem WaitForZeroSessions_ends:
  assumes "timeout \<ge> 0" "clk 1 \<ge> clk 0" "\<forall>i. clk (Suc (Suc i)) \<ge> clk (Suc i) + 10"
    and "fuel \<ge> nat timeout div 10 + 2"
  shows "\<exists>b. WaitForZeroSessions live clk timeout fuel = Some b \<and>
    (if b then \<exists>j. live j = 0
     else \<exists>j. clk (Suc j) \<ge> clk 0 + timeout \<and> (\<forall>k\<le>j. live k \<noteq> 0))"
proof -
  let ?n = "nat timeout div 10 + 1"
  have "clk (Suc i) \<ge> clk 0 + 10 * int i" for i
  proof (induction i)
    case (Suc i)
    then show ?case using assms(3) [rule_format, of i] by simp
  qed (use assms(2) in simp)
  moreover have "timeout \<le> 10 * int ?n" using assms(1) by (simp add: zdiv_int)
  ultimately have "clk (Suc ?n) \<ge> clk 0 + timeout" by (meson add_left_mono order_trans)
  moreover have "?n < 0 + fuel" using assms(4) by simp
  ultimately obtain b where b: "wait_poll live clk (clk 0 + timeout) 0 fuel = Some b"
    "if b then \<exists>j\<le>?n. live j = 0 else \<exists>j\<le>?n. clk (Suc j) \<ge> clk 0 + timeout \<and> (\<forall>k\<le>j. live k \<noteq> 0)"
    using wait_poll_ends [where n = ?n and i = 0 and clk = clk and live = live] by blast
  have "if b then \<exists>j. live j = 0 else \<exists>j. clk (Suc j) \<ge> clk 0 + timeout \<and> (\<forall>k\<le>j. live k \<noteq> 0)"
    using b(2) by (cases b) (simp_all only: if_True if_False, blast+)
  with b(1) show ?thesis unfolding WaitForZeroSessions_def by blast
qed

theorem WaitForZeroSessions_ends_witness:
  "\<exists>b. WaitForZeroSessions (\<lambda>i. 3 - i) (\<lambda>i. 10 * int i) 200 22 = Some b \<and>
     (if b then \<exists>j. 3 - j = (0 :: nat)
      else \<exists>j. 10 * int (Suc j) \<ge> 10 * int 0 + 200 \<and> (\<forall>k\<le>j. 3 - k \<noteq> (0 :: nat)))"
  using WaitForZeroSessions_ends [of 200 "\<lambda>i. 10 * int i" 22 "\<lambda>i. 3 - i"] by simp

section \<open>Properties of starting and stopping\<close>

lemma Listener_Start_active:
  "Listener_Start u n x = (None, x') \<Longrightarrow> ln_active_accept_ev (snd x') \<noteq> None"
  by (cases x; cases "fst x")
    (auto simp: Listener_Start_def RegisterAccept_def Let_def
      split: option.splits prod.splits if_splits)

lemma start_extra_ok:
  "start_extra e cfg i ps s ls = (True, ps', s', ls') \<Longrightarrow>
     \<exists>new. ls' = ls @ new \<and> length new = length ps \<and> (\<forall>l\<in>set new. ln_active_accept_ev l \<noteq> None)"
proof (induction ps arbitrary: i s ls ps')
  case (Cons p ps)
  obtain err s1 l where start: "Listener_Start (we_uring e) (we_net e i)
      (s, MakeListener cfg (pl_address p) (pl_factory p) (pl_max_sessions p)) = (err, s1, l)"
    by (rule prod_cases3)
  obtain ok ps1 s2 ls1 where rest: "start_extra e cfg (Suc i) ps s1 (ls @ [l]) = (ok, ps1, s2, ls1)"
    by (rule prod_cases4)
  have eq: "err = None" "ok" "s2 = s'" "ls1 = ls'"
    using Cons.prems by (simp_all add: start rest split: if_splits)
  then obtain new where "ls' = (ls @ [l]) @ new" "length new = length ps"
    "\<forall>l\<in>set new. ln_active_accept_ev l \<noteq> None"
    using Cons.IH [of "Suc i" s1 "ls @ [l]" ps1] rest by auto
  moreover have "ln_active_accept_ev l \<noteq> None" using Listener_Start_active [of _ _ _ "(s1, l)"] start eq by simp
  ultimately show ?case by (intro exI [of _ "l # new"]) simp
qed simp


text \<open>A small worker with one listener and one more pending.\<close>

definition wenv0 :: "(nat, nat) wenv" where
  "wenv0 = \<lparr>we_uring = uring0, we_setup = setup0, we_host = host0, we_net = \<lambda>_. net0,
      we_start_hook = [], we_session_tick = \<lambda>_ _. [], we_tick_hook = \<lambda>_. [],
      we_disconnecting = \<lambda>_ _. False, we_disconnect = \<lambda>_ _. [],
      we_stop_accepting = 10, we_drain = 11, we_noop = 12, we_live = \<lambda>_ _. 0,
      we_clock = \<lambda>_ i. 10 * int i\<rparr>"

definition worker_cfg0 :: WorkerConfig where
  "worker_cfg0 = \<lparr>wc_id = 0, wc_address = \<lparr>host = ''127.0.0.1'', port = 80\<rparr>, wc_ring = ring_cfg0,
      wc_max_sessions = 0, wc_io_timeout = 1, wc_drain_timeout = 1000, wc_force_close_timeout = 200,
      wc_reject_handler = False\<rparr>"

definition worker0 :: "(nat, nat) Worker" where
  "worker0 = AddListener \<lparr>host = ''127.0.0.1'', port = 81\<rparr> True 0 (Worker_new worker_cfg0 True)"

definition refused :: "(nat, nat) wenv" where
  "refused = wenv0\<lparr>we_net := \<lambda>_. net0\<lparr>bind_ret := \<lambda>_ _. - 1\<rparr>\<rparr>"

lemmas worker_instance = wenv0_def worker_cfg0_def worker0_def Worker_new_def AddListener_def
  MakeListener_def ring_cfg0_def

lemma worker0_ring:
  "IoRing_Create uring0 setup0 ring_cfg0 =
     Inr (IoRing_new uring0 setup0 (Some rbuf4) 1 0 :: nat IoRing)"
proof -
  obtain calls where "RingBuffer_Create buf_env4 True cfg4 = (Inr rbuf4, calls)"
    using rbuf4_Create(1) by blast
  then show ?thesis
    by (simp add: IoRing_Create_def ring_cfg0_def setup0_def init_queue_def ring_params_def
        without_sqpoll_def EPERM_def max_def)
qed

lemmas start_instance = Listener_Start_def CreateListenSocket_def RegisterAccept_def alloc_event_def
  PrepAcceptMultishot_def prep_plain_def GetSqe_def reset_listen_fd_def SocketHandle_Reset_def
  SetSessionCountFn_def Listener_new_def SocketHandle_Valid_def

lemma net0_simps [simp]:
  "socket_ret net0 = 5" "bind_ret net0 a p = 0" "listen_ret net0 = 0" "new_event net0 k = Some 128"
  "get_sqe_ok uring0 k"
  by (simp_all add: net0_def uring0_def)

lemma Listener_Start0:
  "\<exists>s' l. Listener_Start uring0 net0 (s, SetSessionCountFn (Listener_new a fac i m)) = (None, s', l) \<and>
     ln_has_factory l = fac \<and> ln_max_sessions l = m"
  by (cases s) (simp add: start_instance split: option.split)

lemma MakeListener0:
  "\<not> wc_reject_handler cfg \<Longrightarrow> MakeListener cfg a fac m = SetSessionCountFn (Listener_new a fac (wc_id cfg) m)"
  by (simp add: MakeListener_def)

lemma start_extra0:
  assumes "\<not> wc_reject_handler cfg"
  shows "\<exists>ps' s' ls'. start_extra wenv0 cfg i ps s ls = (True, ps', s', ls')"
proof (induction ps arbitrary: i s ls)
  case (Cons p ps)
  obtain s1 l where "Listener_Start uring0 net0 (s, MakeListener cfg (pl_address p) (pl_factory p)
      (pl_max_sessions p)) = (None, s1, l)"
    unfolding MakeListener0 [OF assms] using Listener_Start0 by blast
  moreover obtain ps' s' ls' where "start_extra wenv0 cfg (Suc i) ps s1 (ls @ [l]) = (True, ps', s', ls')"
    using Cons.IH by blast
  moreover have "we_uring wenv0 = uring0" "we_net wenv0 i = net0" by (simp_all add: wenv0_def)
  ultimately show ?case by simp
qed simp

lemma starts0:
  assumes cfg: "\<not> wc_reject_handler (w_config w)" and "\<not> w_running w"
    and ring: "IoRing_Create uring0 setup0 (wc_ring (w_config w)) = Inr (r :: nat IoRing)"
  shows "\<exists>w'. Worker_Start wenv0 w = (True, w')"
proof -
  obtain s1 l1 where l1: "Listener_Start uring0 net0 ((w_heap w, r), MakeListener (w_config w)
      (wc_address (w_config w)) (w_factory w) (wc_max_sessions (w_config w))) = (None, s1, l1)"
    unfolding MakeListener0 [OF cfg] using Listener_Start0 by blast
  obtain ps s2 ls where "start_extra wenv0 (w_config w) 1 (w_pending_listeners w) s1 (w_extra_listeners w) =
      (True, ps, s2, ls)" using start_extra0 [OF cfg] by blast
  moreover have "we_uring wenv0 = uring0" "we_net wenv0 i = net0" "we_setup wenv0 = setup0"
    for i by (simp_all add: wenv0_def)
  ultimately show ?thesis using assms l1 by (simp add: Worker_Start_def)
qed

lemma worker0_starts: "\<exists>w. Worker_Start wenv0 worker0 = (True, w)"
  using worker0_ring
  by (intro starts0) (simp_all add: worker0_def AddListener_def Worker_new_def worker_cfg0_def)


lemma RegisterAccept_factory:
  "ln_has_factory (snd (snd (RegisterAccept u n x))) = ln_has_factory (snd x)"
  by (cases x; cases "fst x")
    (auto simp: RegisterAccept_def Let_def split: option.splits prod.splits)

lemma Listener_Start_keeps:
  assumes "Listener_Start u n (s, l) = (err, s', l')"
  shows "ln_has_factory l' = ln_has_factory l" "ln_max_sessions l' = ln_max_sessions l"
proof -
  have f: "ln_has_factory (snd (snd (Listener_Start u n (s, l)))) = ln_has_factory l"
    "ln_max_sessions (snd (snd (Listener_Start u n (s, l)))) = ln_max_sessions l"
    by (simp_all add: Listener_Start_def reset_listen_fd_def RegisterAccept_factory Let_def
        case_prod_beta split: option.split)
  show "ln_has_factory l' = ln_has_factory l" "ln_max_sessions l' = ln_max_sessions l"
    using f by (simp_all add: assms)
qed

lemma Worker_Start_moves:
  fixes w :: "('t, 'k) Worker"
  assumes start: "Worker_Start e w = (ok, w')" "\<not> w_running w"
    and ring: "IoRing_Create (we_uring e) (we_setup e) (wc_ring (w_config w)) = Inr (r :: 't IoRing)"
  shows "\<not> w_factory w' \<and> w_config w' = w_config w \<and>
    (ok \<longrightarrow> (\<exists>l. w_listener w' = Some l \<and> ln_has_factory l = w_factory w \<and>
                ln_max_sessions l = wc_max_sessions (w_config w)))"
proof -
  let ?l = "MakeListener (w_config w) (wc_address (w_config w)) (w_factory w) (wc_max_sessions (w_config w))"
  obtain err s1 l1 where l1: "Listener_Start (we_uring e) (we_net e 0) ((w_heap w, r), ?l) = (err, s1, l1)"
    by (rule prod_cases3)
  obtain ok2 ps s2 ls where ls:
    "start_extra e (w_config w) 1 (w_pending_listeners w) s1 (w_extra_listeners w) = (ok2, ps, s2, ls)"
    by (rule prod_cases4)
  have "ln_has_factory ?l = w_factory w" "ln_max_sessions ?l = wc_max_sessions (w_config w)"
    by (simp_all add: MakeListener_def SetSessionCountFn_def SetRejectHandler_def Listener_new_def Let_def)
  then have "ln_has_factory l1 = w_factory w" "ln_max_sessions l1 = wc_max_sessions (w_config w)"
    using Listener_Start_keeps [OF l1] by simp_all
  moreover note start(1) [unfolded Worker_Start_def ring, simplified start(2) Let_def if_False sum.case
      l1 ls prod.case]
  ultimately show ?thesis by (cases "err = None"; cases ok2) auto
qed

lemma Worker_Start_ring:
  "Worker_Start e w = (True, w') \<Longrightarrow> \<not> w_running w \<Longrightarrow>
     \<exists>r. IoRing_Create (we_uring e) (we_setup e) (wc_ring (w_config w)) = Inr (r :: 't IoRing)"
  for w :: "('t, 'k) Worker"
  by (cases "IoRing_Create (we_uring e) (we_setup e) (wc_ring (w_config w)) :: RingError + 't IoRing")
    (simp_all add: Worker_Start_def)

text \<open>
  A worker cannot be started again. The first start moves the session factory into the
  listener, so a second start, after a failure or after a stop, succeeds with a listener that has no
  factory, and the first connection it admits calls an empty function.
\<close>

theorem restart_without_factory:
  fixes w :: "('t, 'k) Worker" and r :: "'t IoRing"
  assumes "Worker_Start e w = (False, w1)" "\<not> w_running w" "\<not> w_running w1"
    and "IoRing_Create (we_uring e) (we_setup e) (wc_ring (w_config w)) = Inr r"
    and "Worker_Start e2 w1 = (True, w2)" "wc_max_sessions (w_config w1) = 0"
    and "SetNonBlocking n fd"
  shows "\<exists>l. w_listener w2 = Some l \<and> OnAccept_client u H n fd (s, l) = Inl NullDeref"
proof -
  have "\<not> w_factory w1" using Worker_Start_moves [OF assms(1,2,4)] by simp
  moreover obtain r2 :: "'t IoRing" where
    r2: "IoRing_Create (we_uring e2) (we_setup e2) (wc_ring (w_config w1)) = Inr r2"
    using Worker_Start_ring [OF assms(5,3)] by blast
  moreover obtain l where "w_listener w2 = Some l" "ln_has_factory l = w_factory w1"
    "ln_max_sessions l = 0" using Worker_Start_moves [OF assms(5,3) r2] assms(6) by auto
  ultimately show ?thesis using assms(7) by (auto simp: OnAccept_client_def)
qed

theorem restart_without_factory_witness:
  "\<exists>w1 w2 l. Worker_Start refused worker0 = (False, w1) \<and> Worker_Start wenv0 w1 = (True, w2) \<and>
     w_listener w2 = Some l \<and> OnAccept_client uring0 host0 net0 9 ((heap0, ring0 0), l) = Inl NullDeref"
proof -
  have r: "IoRing_Create (we_uring refused) (we_setup refused) (wc_ring (w_config worker0)) =
      Inr (IoRing_new uring0 setup0 (Some rbuf4) 1 0 :: nat IoRing)"
    using worker0_ring by (simp add: refused_def wenv0_def worker0_def AddListener_def Worker_new_def
        worker_cfg0_def)
  have n: "\<not> w_running worker0" and c0: "w_config worker0 = worker_cfg0"
    by (simp_all add: worker0_def AddListener_def Worker_new_def)
  have "\<exists>w1. Worker_Start refused worker0 = (False, w1) \<and> \<not> w_running w1"
    using n r by (simp add: Worker_Start_def Listener_Start_def CreateListenSocket_def refused_def wenv0_def)
  then obtain w1 where w1: "Worker_Start refused worker0 = (False, w1)" and n1: "\<not> w_running w1" by blast
  have c: "w_config w1 = worker_cfg0" using Worker_Start_moves [OF w1 n r] c0 by simp
  then obtain w2 where w2: "Worker_Start wenv0 w1 = (True, w2)"
    using starts0 [OF _ n1] worker0_ring by (auto simp: worker_cfg0_def)
  have "wc_max_sessions (w_config w1) = 0" "SetNonBlocking net0 9"
    by (simp_all add: c worker_cfg0_def SetNonBlocking_def net0_def O_NONBLOCK_def)
  from restart_without_factory [OF w1 n n1 r w2 this] w1 w2 show ?thesis by blast
qed

text \<open>
  A stop on the worker's own thread, which the code provides for by detaching the thread
  instead of joining it, resets the ring while the event loop is still below it on the stack: when
  the loop is left, the code after it runs through a null pointer.
\<close>

theorem Stop_on_own_thread:
  assumes "Worker_Stop e True fuel w = Inr w'" "w_ring w \<noteq> None"
  shows "w_ring w' = None \<and> run_epilogue e w' = Inl NullDeref"
  using assms by (auto simp: Worker_Stop_def and_then_def run_epilogue_def split: sum.splits if_splits)

theorem Stop_on_own_thread_witness:
  "\<exists>w'. Worker_Stop wenv0 True 102 (worker0\<lparr>w_ring := Some (ring0 0), w_listener := Some listener0, w_running := True\<rparr>) = Inr w' \<and>
     run_epilogue wenv0 w' = Inl NullDeref"
proof -
  let ?w = "worker0\<lparr>w_ring := Some (ring0 0), w_listener := Some listener0, w_running := True\<rparr>"
  have none: "concat (map (\<lambda>_. []) ps) = ([] :: (nat, nat) ring_call list)" for ps :: "addr list"
    by (induction ps) simp_all
  have "\<exists>w'. Worker_Stop wenv0 True 102 ?w = Inr w'"
    by (simp add: Worker_Stop_def close_down_def and_then_def StopAccepting_def DrainSessions_def
        stop_accepting_task_def drain_task_def WaitForZeroSessions_def Worker_Post_def
        worker_instance case_prod_beta none numeral_eq_Suc)
  then obtain w' where w': "Worker_Stop wenv0 True 102 ?w = Inr w'" by blast
  then show ?thesis using Stop_on_own_thread [OF w'] by simp
qed

section \<open>What a shutdown still runs\<close>

lemma drain_history:
  "drain_cqes u H b k cs s = Inr (n, s') \<Longrightarrow>
     ior_ran (snd s') = ior_ran (snd s) \<and>
     (\<exists>ts. ior_posted (snd s') = ior_posted (snd s) @ map (Pair False) ts \<and>
           ior_ever (snd s') = ior_ever (snd s) @ ts)"
proof (induction u H b k cs s rule: drain_cqes.induct)
  case (2 u H b k c cs s)
  then obtain s1 where s1: "dispatch_cqe u H c s = Inr s1" by (auto split: sum.splits)
  note keeps = cqe_effect_keeps(2,6) [OF dispatch_cqe_effect [OF s1]]
  show ?case
  proof (cases "b \<noteq> 0 \<and> Suc k \<ge> unat b")
    case True
    then show ?thesis using 2(2) s1 keeps by auto
  next
    case False
    then have "drain_cqes u H b (Suc k) cs s1 = Inr (n, s')" using 2(2) s1 by (auto split: if_splits)
    from 2(1) [OF s1 False this] keeps show ?thesis by (auto simp flip: map_append)
  qed
qed (auto intro: exI [of _ "[]"])

lemma Dispatch_history:
  assumes "IoRing_Dispatch u H t s = Inr (ok, s')" "history (snd s)"
  shows "history (snd s') \<and> (\<exists>ts. ior_ever (snd s') = ior_ever (snd s) @ ts)"
proof -
  define r1 where "r1 = dispatch_enter u (snd s)"
  show ?thesis
  proof (cases "wait_ret u (ior_asked r1) (wait_timespec t) < 0")
    case True
    then show ?thesis
      using assms by (auto simp: IoRing_Dispatch_def Let_def r1_def [symmetric])
        (simp_all add: r1_def history_def keeps_dispatch_enter)
  next
    case False
    define r3 where "r3 = r1\<lparr>ior_asked := Suc (ior_asked r1), ior_cq := ior_cq r1 @ arrivals u (ior_asked r1)\<rparr>"
    obtain n h r4 where d: "drain_cqes u H (ior_cqe_batch_budget r3) 0 (ior_cq r3) (fst s, r3) = Inr (n, h, r4)"
      and s': "s' = (h, dispatch_leave u n r4)"
      using assms(1) False
      by (auto simp: IoRing_Dispatch_def Let_def r1_def [symmetric] r3_def split: sum.splits)
    have "ior_ran r3 = ior_ran (snd s)" "ior_ever r3 = ior_ever (snd s)" "ior_posted r3 = ior_posted (snd s)"
      by (simp_all add: r3_def r1_def keeps_dispatch_enter)
    then show ?thesis
      using drain_history [OF d] assms(2) s'
      by (auto simp: history_def keeps_dispatch_leave comp_def)
  qed
qed

lemma dispatch_round_history:
  assumes "dispatch_round e t s = Inr s'" "history (snd s)"
  shows "history (snd s') \<and> (\<exists>ts. ior_ran (snd s') = ior_ever (snd s) @ ts) \<and>
    (\<exists>ts. ior_ever (snd s') = ior_ever (snd s) @ ts)"
proof -
  obtain ok s1 where d: "IoRing_Dispatch (we_uring e) (we_host e) t s = Inr (ok, s1)"
    and p: "ProcessPostedTasks (we_uring e) (we_host e) s1 = Inr s'"
    using assms(1) by (auto simp: dispatch_round_def split: sum.splits)
  from Dispatch_history [OF d assms(2)] obtain ts where
    "history (snd s1)" "ior_ever (snd s1) = ior_ever (snd s) @ ts" by blast
  moreover from history_Process [OF p this(1)] have
    "history (snd s')" "ior_ran (snd s') = ior_ever (snd s1)" by simp_all
  ultimately show ?thesis by (simp add: history_def [of "snd s'"])
qed

lemma dispatch_rounds_history:
  "dispatch_rounds e k s = Inr s' \<Longrightarrow> history (snd s) \<Longrightarrow> history (snd s') \<and>
     (\<exists>ts. ior_ever (snd s') = ior_ever (snd s) @ ts) \<and> (k > 0 \<longrightarrow> (\<exists>ts. ior_ran (snd s') = ior_ever (snd s) @ ts))"
proof (induction k arbitrary: s)
  case (Suc k)
  then obtain s1 where s1: "dispatch_round e 0 s = Inr s1" "dispatch_rounds e k s1 = Inr s'"
    by (auto split: sum.splits)
  from dispatch_round_history [OF s1(1) Suc.prems(2)] obtain a b where
    h: "history (snd s1)" "ior_ran (snd s1) = ior_ever (snd s) @ a" "ior_ever (snd s1) = ior_ever (snd s) @ b"
    by blast
  show ?case
  proof (cases k)
    case 0
    then show ?thesis using h s1(2) by auto
  next
    case (Suc j)
    then show ?thesis using Suc.IH [OF s1(2) h(1)] h(3) by auto
  qed
qed simp

text \<open>
  C30: A worker that leaves its loop still runs every task posted before, in order, and whatever
  those tasks post in their turn for eight more rounds: after the code that follows the loop, the
  tasks that have run begin with all those posted when the loop was left.
\<close>

theorem shutdown_runs_posted:
  assumes "run_epilogue e w = Inr w'" "w_ring w = Some r" "history r"
  shows "\<exists>r' later. w_ring w' = Some r' \<and> ior_ran r' = ior_ever r @ later \<and> history r'"
proof -
  obtain s1 h r2 where p: "ProcessPostedTasks (we_uring e) (we_host e) (w_heap w, r) = Inr s1"
    and d: "dispatch_rounds e 8 s1 = Inr (h, r2)" and w': "w_ring w' = Some r2"
    using assms(1,2) by (auto simp: run_epilogue_def split: sum.splits)
  have h1: "history (snd s1)" "ior_ran (snd s1) = ior_ever r"
    using history_Process [OF p] assms(3) by simp_all
  from dispatch_rounds_history [OF d h1(1)] obtain ts where
    "history r2" "ior_ran r2 = ior_ever (snd s1) @ ts" by auto
  then show ?thesis using w' h1 by (auto simp: history_def)
qed

lemma tasks0: "\<exists>h' r'. run_tasks uring0 host0 ts (h, r) = Inr (h', r') \<and> ior_cq r' = ior_cq r"
proof (induction ts arbitrary: h r)
  case (Cons t ts)
  have "\<exists>h' r'. invoke_task uring0 host0 (snd t) (h, r) = Inr (h', r')"
    by (simp add: invoke_task_def host0_def)
  then obtain h1 r1 where i: "invoke_task uring0 host0 (snd t) (h, r) = Inr (h1, r1)" by blast
  then have "ior_cq r1 = ior_cq r" using frame_invoke_task [OF i] by (simp add: ring_frame_def)
  then show ?case using i Cons.IH [of h1 "r1\<lparr>ior_ran := ior_ran r1 @ [snd t]\<rparr>"] by simp
qed simp

lemma rounds0: "ior_cq r = [] \<Longrightarrow> \<exists>s'. dispatch_rounds wenv0 k (h, r) = Inr s'"
proof (induction k arbitrary: h r)
  case (Suc k)
  define r1 where "r1 = dispatch_leave uring0 0
      ((dispatch_enter uring0 r)\<lparr>ior_asked := Suc (ior_asked (dispatch_enter uring0 r)), ior_cq := []\<rparr>)"
  have "IoRing_Dispatch uring0 host0 0 (h, r) = Inr (True, h, r1)"
    using Suc.prems by (simp add: IoRing_Dispatch_def keeps_dispatch_enter Let_def r1_def)
      (simp add: uring0_def)
  moreover have "ior_cq r1 = []" by (simp add: r1_def keeps_dispatch_leave)
  moreover obtain h2 r2 where "ProcessPostedTasks uring0 host0 (h, r1) = Inr (h2, r2)" "ior_cq r2 = []"
    using tasks0 [of "ior_posted r1" h "r1\<lparr>ior_posted := []\<rparr>"] \<open>ior_cq r1 = []\<close>
    by (auto simp: ProcessPostedTasks_def)
  ultimately show ?case using Suc.IH [of r2 h2] by (simp add: dispatch_round_def wenv0_def)
qed simp

theorem shutdown_runs_posted_witness:
  "\<exists>w' r' later. run_epilogue wenv0 (worker0\<lparr>w_ring := Some (Post False 1 (ring0 0))\<rparr>) = Inr w' \<and>
     w_ring w' = Some r' \<and> ior_ran r' = [1] @ later"
proof -
  let ?r = "Post False 1 (ring0 0)" and ?w = "worker0\<lparr>w_ring := Some (Post False 1 (ring0 0))\<rparr>"
  have r: "history ?r" "ior_ever ?r = [1]" "ior_cq ?r = []"
    by (simp_all add: history_def Post_def push_posted_def Wake_def instance0)
  obtain h1 r1 where p: "ProcessPostedTasks uring0 host0 (w_heap worker0, ?r) = Inr (h1, r1)" "ior_cq r1 = []"
    using tasks0 [of "ior_posted ?r" "w_heap worker0" "?r\<lparr>ior_posted := []\<rparr>"] r(3)
    by (auto simp: ProcessPostedTasks_def)
  moreover obtain s2 where "dispatch_rounds wenv0 8 (h1, r1) = Inr s2" using rounds0 [OF p(2)] by blast
  ultimately have "\<exists>w'. run_epilogue wenv0 ?w = Inr w'"
    by (simp add: run_epilogue_def wenv0_def split: prod.split)
  then obtain w' where w': "run_epilogue wenv0 ?w = Inr w'" by blast
  from shutdown_runs_posted [OF w' _ r(1)] w' r(2) show ?thesis by auto
qed

section \<open>The pool\<close>

record WorkerPoolConfig =
  pc_address :: Address
  pc_ring :: IoRingConfig
  pc_worker_count :: u16
  pc_max_sessions_per_worker :: u32
  pc_io_timeout :: int
  pc_drain_timeout :: int
  pc_force_close_timeout :: int

definition pool_worker_config :: "WorkerPoolConfig \<Rightarrow> nat \<Rightarrow> WorkerConfig" where
  "pool_worker_config cfg i =
     \<lparr>wc_id = of_nat i, wc_address = pc_address cfg,
      wc_ring = (pc_ring cfg)\<lparr>cfg_buf_ring := (cfg_buf_ring (pc_ring cfg))\<lparr>group_id := of_nat (i + 1)\<rparr>\<rparr>,
      wc_max_sessions = pc_max_sessions_per_worker cfg, wc_io_timeout = pc_io_timeout cfg,
      wc_drain_timeout = pc_drain_timeout cfg, wc_force_close_timeout = pc_force_close_timeout cfg,
      wc_reject_handler = False\<rparr>"

text \<open>\<open>es i\<close> are the surroundings of worker \<open>i\<close>; the builder makes a factory for each.\<close>

definition start_worker ::
    "(nat \<Rightarrow> ('t, 'k) wenv) \<Rightarrow> WorkerPoolConfig \<Rightarrow> nat \<Rightarrow> bool \<times> ('t, 'k) Worker" where
  "start_worker es cfg i = Worker_Start (es i) (Worker_new (pool_worker_config cfg i) True)"

definition pool_count :: "WorkerPoolConfig \<Rightarrow> nat" where
  "pool_count cfg = unat (max 1 (pc_worker_count cfg))"

fun start_workers ::
    "(nat \<Rightarrow> ('t, 'k) wenv) \<Rightarrow> WorkerPoolConfig \<Rightarrow> nat list \<Rightarrow> ('t, 'k) Worker list \<Rightarrow>
       ('t, 'k) Worker list" where
  "start_workers es cfg [] ws = ws"
| "start_workers es cfg (i # is) ws =
     (let (ok, w) = start_worker es cfg i
      in start_workers es cfg is (if ok then ws @ [w] else ws))"

definition WorkerPool_Start ::
    "(nat \<Rightarrow> ('t, 'k) wenv) \<Rightarrow> WorkerPoolConfig \<Rightarrow> ('t, 'k) Worker list \<Rightarrow>
       bool \<times> ('t, 'k) Worker list" where
  "WorkerPool_Start es cfg ws =
     (if ws \<noteq> [] then (True, ws)
      else let ws1 = start_workers es cfg [0..<pool_count cfg] []
           in (ws1 \<noteq> [], ws1))"

fun stop_workers ::
    "(nat \<Rightarrow> ('t, 'k) wenv) \<Rightarrow> nat \<Rightarrow> ('t, 'k) Worker list \<Rightarrow> fault + ('t, 'k) Worker list" where
  "stop_workers es fuel [] = Inr []"
| "stop_workers es fuel (w # ws) =
     (case Worker_Stop (es (unat (wc_id (w_config w)))) False fuel w of
        Inl f \<Rightarrow> Inl f
      | Inr w1 \<Rightarrow> stop_workers es fuel ws)"

definition GetWorker :: "ContextId \<Rightarrow> ('t, 'k) Worker list \<Rightarrow> ('t, 'k) Worker option" where
  "GetWorker i ws = (if unat i \<ge> length ws then None else Some (ws ! unat i))"

definition WorkerPool_Count :: "('t, 'k) Worker list \<Rightarrow> u16" where
  "WorkerPool_Count ws = of_nat (length ws)"

lemma Worker_Start_config: "w_config (snd (Worker_Start e w)) = w_config w"
  by (simp add: Worker_Start_def Let_def case_prod_beta split: sum.split)

lemma start_workers_eq:
  "start_workers es cfg is ws =
     ws @ map (\<lambda>i. snd (start_worker es cfg i)) (filter (\<lambda>i. fst (start_worker es cfg i)) is)"
  by (induction "is" arbitrary: ws) (auto simp: Let_def case_prod_beta)

lemma start_worker_id: "wc_id (w_config (snd (start_worker es cfg i))) = of_nat i"
  by (simp add: start_worker_def Worker_Start_config Worker_new_def pool_worker_config_def)

lemma pool_count_bound: "pool_count cfg < 2 ^ 16"
  using unat_u16_lt [of "max 1 (pc_worker_count cfg)"] by (simp add: pool_count_def)

definition pool_cfg0 :: WorkerPoolConfig where
  "pool_cfg0 = \<lparr>pc_address = \<lparr>host = ''127.0.0.1'', port = 80\<rparr>, pc_ring = ring_cfg0,
      pc_worker_count = 2, pc_max_sessions_per_worker = 0, pc_io_timeout = 1, pc_drain_timeout = 1000,
      pc_force_close_timeout = 200\<rparr>"

lemma pool_count0: "pool_count pool_cfg0 = 2"
  by (simp add: pool_count_def pool_cfg0_def max_def)

lemma pool0_starts: "fst (start_worker (\<lambda>_. wenv0) pool_cfg0 i)"
proof -
  have "\<exists>b calls. RingBuffer_Create buf_env4 True (cfg4\<lparr>group_id := of_nat (Suc i)\<rparr>) = (Inr b, calls)"
    by (simp add: RingBuffer_Create_def cfg4_def buf_env4_def is_power_of_two_def Let_def)
  then obtain b calls where
    "RingBuffer_Create buf_env4 True (cfg4\<lparr>group_id := of_nat (Suc i)\<rparr>) = (Inr b, calls)" by blast
  then have "\<exists>r :: nat IoRing. IoRing_Create uring0 setup0 (wc_ring (pool_worker_config pool_cfg0 i)) = Inr r"
    by (simp add: IoRing_Create_def pool_worker_config_def pool_cfg0_def ring_cfg0_def setup0_def
        init_queue_def ring_params_def without_sqpoll_def EPERM_def)
  then obtain r :: "nat IoRing" where
    "IoRing_Create uring0 setup0 (wc_ring (pool_worker_config pool_cfg0 i)) = Inr r" by blast
  from starts0 [of "Worker_new (pool_worker_config pool_cfg0 i) True", OF _ _] this show ?thesis
    by (auto simp: start_worker_def Worker_new_def pool_worker_config_def)
qed

lemma pool0_fails: "\<not> fst (start_worker (\<lambda>i. if i = 0 then refused else wenv0) pool_cfg0 0)"
  by (simp add: start_worker_def Worker_Start_def Listener_Start_def CreateListenSocket_def refused_def
      wenv0_def Worker_new_def Let_def split: sum.split)

text \<open>
  When every worker of a pool starts, the pool has as many workers as asked for, at least one,
  \<open>GetWorker\<close> finds the worker with the id it is asked for, and no two workers share a buffer group.
\<close>

theorem pool_complete:
  assumes "\<forall>i<pool_count cfg. fst (start_worker es cfg i)"
    and "WorkerPool_Start es cfg [] = (ok, ws)"
  shows "ok \<and> length ws = pool_count cfg \<and>
    (\<forall>k w. GetWorker k ws = Some w \<longrightarrow>
       wc_id (w_config w) = k \<and> group_id (cfg_buf_ring (wc_ring (w_config w))) = k + 1)"
proof -
  have "filter (\<lambda>i. fst (start_worker es cfg i)) [0..<pool_count cfg] = [0..<pool_count cfg]"
    using assms(1) by (intro filter_True) simp
  then have ws: "ws = map (\<lambda>i. snd (start_worker es cfg i)) [0..<pool_count cfg]" "ok \<longleftrightarrow> ws \<noteq> []"
    using assms(2) by (auto simp: WorkerPool_Start_def start_workers_eq)
  have "pool_count cfg \<noteq> 0" by (auto simp: pool_count_def max_def unat_eq_0 split: if_splits)
  moreover have "wc_id (w_config (ws ! unat k)) = k"
    "group_id (cfg_buf_ring (wc_ring (w_config (ws ! unat k)))) = k + 1" if "unat k < length ws" for k
    using that by (simp_all add: ws(1) start_worker_id)
      (simp add: start_worker_def Worker_Start_config Worker_new_def pool_worker_config_def)
  ultimately show ?thesis using ws by (auto simp: GetWorker_def split: if_splits)
qed

theorem pool_complete_witness:
  "\<exists>ws. WorkerPool_Start (\<lambda>_. wenv0) pool_cfg0 [] = (True, ws) \<and> length ws = 2"
proof -
  obtain ok ws where ws: "WorkerPool_Start (\<lambda>_. wenv0) pool_cfg0 [] = (ok, ws)" by fastforce
  show ?thesis using pool_complete [OF _ ws] ws pool0_starts by (simp add: pool_count0)
qed

text \<open>
  When a worker fails to start the pool goes on without it and the ids shift: if worker 0
  fails and another one starts, \<open>GetWorker(0)\<close> is a worker whose id is not 0.
\<close>

theorem pool_ids_shift:
  assumes "\<not> fst (start_worker es cfg 0)" "i < pool_count cfg" "fst (start_worker es cfg i)"
    and "WorkerPool_Start es cfg [] = (ok, ws)"
  shows "ok \<and> (\<exists>w. GetWorker 0 ws = Some w \<and> wc_id (w_config w) \<noteq> 0)"
proof -
  define js where "js = filter (\<lambda>i. fst (start_worker es cfg i)) [0..<pool_count cfg]"
  have ws: "ws = map (\<lambda>i. snd (start_worker es cfg i)) js" "ok \<longleftrightarrow> ws \<noteq> []"
    using assms(4) by (auto simp: WorkerPool_Start_def start_workers_eq js_def)
  have "i \<in> set js" using assms(2,3) by (simp add: js_def)
  then obtain j rest where js: "js = j # rest" by (cases js) auto
  then have "j \<in> set js" by simp
  then have "fst (start_worker es cfg j)" "j < pool_count cfg" by (simp_all add: js_def)
  then have "j \<noteq> 0" "j < 2 ^ 16" using assms(1) pool_count_bound [of cfg] by (auto intro: gr0I)
  then have "(of_nat j :: u16) \<noteq> 0" by (simp add: word_of_nat_eq_0_iff nat_dvd_not_less)
  then show ?thesis using ws js start_worker_id [of es cfg j] by (simp add: GetWorker_def)
qed

theorem pool_ids_shift_witness:
  "\<exists>ws w. WorkerPool_Start (\<lambda>i. if i = 0 then refused else wenv0) pool_cfg0 [] = (True, ws) \<and>
     GetWorker 0 ws = Some w \<and> wc_id (w_config w) \<noteq> 0"
proof -
  let ?es = "\<lambda>i :: nat. if i = 0 then refused else wenv0"
  obtain ok ws where ws: "WorkerPool_Start ?es pool_cfg0 [] = (ok, ws)" by fastforce
  have "start_worker ?es pool_cfg0 1 = start_worker (\<lambda>_. wenv0) pool_cfg0 1"
    by (simp add: start_worker_def)
  then have "fst (start_worker ?es pool_cfg0 1)" using pool0_starts by simp
  from pool_ids_shift [OF pool0_fails _ this ws] ws show ?thesis by (auto simp: pool_count0)
qed

end
