(* ===== verification/Proxy_Connector.thy ===== *)
theory Proxy_Connector
  imports Session_Model "HOL-Library.Multiset"
begin

text \<open>
  The connector of \<^verbatim>\<open>src/modules/proxy/ProxyConnector.cpp\<close>, which opens the upstream connection of
  a proxied client: a connect request that races with a timeout, a cancellation from outside, and a
  bridge that may close in between. Allocation and the submission queue answer by number, as in the
  session model.
\<close>

section \<open>State\<close>

datatype conn_op = ConnectOp nat | TimeoutOp nat | CancelConnOp nat nat

text \<open>
  The fields from \<open>cn_bridge_closed\<close> on are the bridge's flag, what the kernel holds, and history:
  the descriptors opened, closed and given to an upstream session, the connect results reported, and
  how often the end was reported.
\<close>

record ProxyConnector =
  cn_connect_timeout :: int
  cn_socket :: SocketHandle
  cn_active_connect_ev :: "nat option"
  cn_active_timeout_ev :: "nat option"
  cn_self_ref :: bool
  cn_pending_ops :: int
  cn_connect_pending :: bool
  cn_timeout_armed :: bool
  cn_finished :: bool
  cn_finished_notified :: bool
  cn_connect_result_notified :: bool
  cn_bridge_closed :: bool
  cn_inflight :: "conn_op list"
  cn_opened :: "int list"
  cn_closed :: "int list"
  cn_handed :: "int list"
  cn_results :: "(bool \<times> bool) list"
  cn_finishes :: nat
  cn_asked :: nat

definition ProxyConnector_new :: "int \<Rightarrow> ProxyConnector" where
  "ProxyConnector_new connect_timeout =
     \<lparr>cn_connect_timeout = connect_timeout, cn_socket = -1, cn_active_connect_ev = None,
      cn_active_timeout_ev = None, cn_self_ref = False, cn_pending_ops = 0,
      cn_connect_pending = False, cn_timeout_armed = False, cn_finished = False,
      cn_finished_notified = False, cn_connect_result_notified = False, cn_bridge_closed = False,
      cn_inflight = [], cn_opened = [], cn_closed = [], cn_handed = [], cn_results = [],
      cn_finishes = 0, cn_asked = 0\<rparr>"

definition cn_reset_socket :: "int \<Rightarrow> ProxyConnector \<Rightarrow> ProxyConnector" where
  "cn_reset_socket fd c =
     (let (closed, fd1) = SocketHandle_Reset fd (cn_socket c)
      in c\<lparr>cn_socket := fd1, cn_closed := cn_closed c @ closed\<rparr>)"

text \<open>A new event: its number, or nothing when the allocation fails.\<close>

definition cn_new :: "env \<Rightarrow> ProxyConnector \<Rightarrow> nat option \<times> ProxyConnector" where
  "cn_new e c = (if alloc_ok e (cn_asked c) then Some (cn_asked c) else None,
                 c\<lparr>cn_asked := Suc (cn_asked c)\<rparr>)"

definition cn_prep :: "env \<Rightarrow> conn_op \<Rightarrow> ProxyConnector \<Rightarrow> bool \<times> ProxyConnector" where
  "cn_prep e op c =
     (let ok = prep_ok e (cn_asked c); c1 = c\<lparr>cn_asked := Suc (cn_asked c)\<rparr>
      in (ok, if ok then c1\<lparr>cn_inflight := cn_inflight c1 @ [op]\<rparr> else c1))"

section \<open>Reports and release\<close>

definition NotifyConnectResult :: "bool \<Rightarrow> bool \<Rightarrow> ProxyConnector \<Rightarrow> ProxyConnector" where
  "NotifyConnectResult success timeout c =
     (if cn_connect_result_notified c then c
      else c\<lparr>cn_connect_result_notified := True, cn_results := cn_results c @ [(success, timeout)]\<rparr>)"

definition NotifyFinished :: "ProxyConnector \<Rightarrow> ProxyConnector" where
  "NotifyFinished c =
     (if cn_finished_notified c then c
      else c\<lparr>cn_finished_notified := True, cn_finishes := Suc (cn_finishes c)\<rparr>)"

definition MaybeRelease :: "ProxyConnector \<Rightarrow> ProxyConnector" where
  "MaybeRelease c = (if cn_pending_ops c = 0 then c\<lparr>cn_self_ref := False\<rparr> else c)"

definition bridge_ClosePair :: "ProxyConnector \<Rightarrow> ProxyConnector" where
  "bridge_ClosePair c = c\<lparr>cn_bridge_closed := True\<rparr>"

section \<open>Starting\<close>

text \<open>\<open>fd\<close> is the descriptor \<open>socket\<close> returns.\<close>

definition arm_timeout :: "env \<Rightarrow> ProxyConnector \<Rightarrow> ProxyConnector" where
  "arm_timeout e c =
     (if cn_connect_timeout c > 0
      then case cn_new e c of
             (None, c1) \<Rightarrow> c1
           | (Some ev, c1) \<Rightarrow>
               let (ok, c2) = cn_prep e (TimeoutOp ev) c1
               in if ok then c2\<lparr>cn_pending_ops := cn_pending_ops c2 + 1, cn_timeout_armed := True,
                                cn_active_timeout_ev := Some ev\<rparr>
                  else c2
      else c)"

definition Connector_Start :: "env \<Rightarrow> int \<Rightarrow> ProxyConnector \<Rightarrow> IoError option \<times> ProxyConnector" where
  "Connector_Start e fd c =
     (if fd < 0 then (Some kConnectionRefused, c\<lparr>cn_self_ref := False\<rparr>)
      else let c1 = (cn_reset_socket fd (c\<lparr>cn_self_ref := True\<rparr>))\<lparr>cn_opened := cn_opened c @ [fd]\<rparr>
           in case cn_new e c1 of
                (None, c2) \<Rightarrow> (Some kConnectionRefused, (cn_reset_socket (-1) c2)\<lparr>cn_self_ref := False\<rparr>)
              | (Some ev, c2) \<Rightarrow>
                  let (ok, c3) = cn_prep e (ConnectOp ev) c2
                  in if \<not> ok
                     then (Some kConnectionRefused,
                           (cn_reset_socket (-1) (c3\<lparr>cn_connect_pending := False\<rparr>))\<lparr>cn_self_ref := False\<rparr>)
                     else (None, arm_timeout e
                             (c3\<lparr>cn_pending_ops := cn_pending_ops c3 + 1, cn_connect_pending := True,
                                 cn_active_connect_ev := Some ev\<rparr>)))"

section \<open>Cancelling and completions\<close>

text \<open>A cancellation of an event: a new event of its own, dropped when it cannot be submitted.\<close>

definition submit_cancel :: "env \<Rightarrow> nat \<Rightarrow> ProxyConnector \<Rightarrow> ProxyConnector" where
  "submit_cancel e target c =
     (case cn_new e c of
        (None, c1) \<Rightarrow> c1
      | (Some ev, c1) \<Rightarrow>
          let (ok, c2) = cn_prep e (CancelConnOp ev target) c1
          in if ok then c2\<lparr>cn_pending_ops := cn_pending_ops c2 + 1\<rparr> else c2)"

definition cancel_connect :: "env \<Rightarrow> ProxyConnector \<Rightarrow> ProxyConnector" where
  "cancel_connect e c =
     (case cn_active_connect_ev c of
        None \<Rightarrow> c
      | Some ev \<Rightarrow> if cn_connect_pending c then submit_cancel e ev c else c)"

definition cancel_timeout :: "env \<Rightarrow> ProxyConnector \<Rightarrow> ProxyConnector" where
  "cancel_timeout e c =
     (case cn_active_timeout_ev c of
        None \<Rightarrow> c
      | Some ev \<Rightarrow> if cn_timeout_armed c then (submit_cancel e ev c)\<lparr>cn_timeout_armed := False\<rparr> else c)"

definition Connector_Cancel :: "env \<Rightarrow> ProxyConnector \<Rightarrow> ProxyConnector" where
  "Connector_Cancel e c =
     (if cn_finished c then c
      else let c1 = cn_reset_socket (-1) (bridge_ClosePair (c\<lparr>cn_finished := True\<rparr>));
               c2 = cancel_timeout e (cancel_connect e c1)
           in MaybeRelease (NotifyFinished c2))"

text \<open>
  A successful connect gives the descriptor to a new upstream session and attaches it to the bridge;
  what the session and the bridge do then is theirs.
\<close>

definition Connector_OnConnect :: "env \<Rightarrow> nat \<Rightarrow> int \<Rightarrow> ProxyConnector \<Rightarrow> ProxyConnector" where
  "Connector_OnConnect e ev res c =
     (let c1 = c\<lparr>cn_pending_ops := cn_pending_ops c - 1,
                 cn_active_connect_ev := (if cn_active_connect_ev c = Some ev then None
                                          else cn_active_connect_ev c),
                 cn_connect_pending := False\<rparr>
      in if cn_finished c1 then MaybeRelease c1
         else let c2 = cancel_timeout e c1
              in if res < 0 \<or> cn_bridge_closed c2
                 then MaybeRelease (NotifyFinished (bridge_ClosePair (cn_reset_socket (-1)
                        ((NotifyConnectResult False False c2)\<lparr>cn_finished := True\<rparr>))))
                 else let c3 = c2\<lparr>cn_handed := cn_handed c2 @ [cn_socket c2], cn_socket := -1\<rparr>
                      in MaybeRelease (NotifyFinished
                           ((NotifyConnectResult True False c3)\<lparr>cn_finished := True\<rparr>)))"

definition ECANCELED :: int where "ECANCELED = 125"

definition Connector_OnTimeout :: "env \<Rightarrow> nat \<Rightarrow> int \<Rightarrow> ProxyConnector \<Rightarrow> ProxyConnector" where
  "Connector_OnTimeout e ev res c =
     (let c1 = c\<lparr>cn_pending_ops := cn_pending_ops c - 1,
                 cn_active_timeout_ev := (if cn_active_timeout_ev c = Some ev then None
                                          else cn_active_timeout_ev c),
                 cn_timeout_armed := False\<rparr>
      in if cn_finished c1 then MaybeRelease c1
         else if res = - ECANCELED then MaybeRelease c1
         else let c2 = cn_reset_socket (-1) (bridge_ClosePair
                         (NotifyConnectResult False True (c1\<lparr>cn_finished := True\<rparr>)))
              in MaybeRelease (NotifyFinished (cancel_connect e c2)))"

definition Connector_OnCancel :: "ProxyConnector \<Rightarrow> ProxyConnector" where
  "Connector_OnCancel c = MaybeRelease (c\<lparr>cn_pending_ops := cn_pending_ops c - 1\<rparr>)"

section \<open>Steps\<close>

text \<open>
  After a successful start: the kernel completes an operation it holds, the server cancels, the
  bridge is closed from the client's side.
\<close>

definition complete_op :: "env \<Rightarrow> conn_op \<Rightarrow> int \<Rightarrow> ProxyConnector \<Rightarrow> ProxyConnector" where
  "complete_op e op res c =
     (let c1 = c\<lparr>cn_inflight := remove1 op (cn_inflight c)\<rparr>
      in case op of
           ConnectOp ev \<Rightarrow> Connector_OnConnect e ev res c1
         | TimeoutOp ev \<Rightarrow> Connector_OnTimeout e ev res c1
         | CancelConnOp ev target \<Rightarrow> Connector_OnCancel c1)"

inductive connector_step :: "env \<Rightarrow> ProxyConnector \<Rightarrow> ProxyConnector \<Rightarrow> bool" for e where
  cs_complete: "op \<in> set (cn_inflight c) \<Longrightarrow> connector_step e c (complete_op e op res c)"
| cs_cancel: "connector_step e c (Connector_Cancel e c)"
| cs_bridge: "connector_step e c (bridge_ClosePair c)"

definition connector_start :: "env \<Rightarrow> ProxyConnector \<Rightarrow> bool" where
  "connector_start e c \<longleftrightarrow> (\<exists>t fd. Connector_Start e fd (ProxyConnector_new t) = (None, c))"

section \<open>Invariant\<close>

fun is_connect :: "conn_op \<Rightarrow> bool" where
  "is_connect (ConnectOp ev) = True"
| "is_connect _ = False"

fun is_timeout :: "conn_op \<Rightarrow> bool" where
  "is_timeout (TimeoutOp ev) = True"
| "is_timeout _ = False"

text \<open>
  \<open>ops_core\<close>: the counter is the number of operations the kernel holds, at most one of them a
  connect and one a timeout, and the members name exactly those.
\<close>

definition ops_core :: "ProxyConnector \<Rightarrow> bool" where
  "ops_core c \<longleftrightarrow>
     cn_pending_ops c = int (length (cn_inflight c)) \<and>
     filter is_connect (cn_inflight c) = map ConnectOp (case cn_active_connect_ev c of None \<Rightarrow> [] | Some ev \<Rightarrow> [ev]) \<and>
     filter is_timeout (cn_inflight c) = map TimeoutOp (case cn_active_timeout_ev c of None \<Rightarrow> [] | Some ev \<Rightarrow> [ev]) \<and>
     (cn_connect_pending c \<longleftrightarrow> cn_active_connect_ev c \<noteq> None)"

text \<open>\<open>ops_match\<close> adds that the connector keeps itself alive exactly while the kernel holds something.\<close>

definition ops_match :: "ProxyConnector \<Rightarrow> bool" where
  "ops_match c \<longleftrightarrow> ops_core c \<and> (cn_self_ref c \<longleftrightarrow> cn_inflight c \<noteq> [])"

text \<open>
  \<open>life_ok\<close>: until it is finished the connector waits for its connect and holds its one descriptor;
  afterwards the descriptor was closed or given away and the end was reported once. At most one
  result is reported, and it is success exactly when the descriptor was given away.
\<close>

definition life_ok :: "ProxyConnector \<Rightarrow> bool" where
  "life_ok c \<longleftrightarrow>
     (\<exists>fd. fd \<ge> 0 \<and> cn_opened c = [fd] \<and>
       (if cn_finished c
        then cn_socket c = -1 \<and> (cn_closed c = [fd] \<and> cn_handed c = [] \<or> cn_closed c = [] \<and> cn_handed c = [fd])
        else cn_socket c = fd \<and> cn_closed c = [] \<and> cn_handed c = [] \<and> cn_active_connect_ev c \<noteq> None)) \<and>
     cn_finished_notified c = cn_finished c \<and> cn_finishes c = (if cn_finished c then 1 else 0) \<and>
     (if cn_connect_result_notified c then length (cn_results c) = 1 \<and> cn_finished c else cn_results c = []) \<and>
     (cn_handed c \<noteq> [] \<longleftrightarrow> cn_results c = [(True, False)])"

lemma submit_cancel_fields [simp]:
  "cn_socket (submit_cancel e t c) = cn_socket c" "cn_opened (submit_cancel e t c) = cn_opened c"
  "cn_closed (submit_cancel e t c) = cn_closed c" "cn_handed (submit_cancel e t c) = cn_handed c"
  "cn_finished (submit_cancel e t c) = cn_finished c" "cn_results (submit_cancel e t c) = cn_results c"
  "cn_finished_notified (submit_cancel e t c) = cn_finished_notified c"
  "cn_finishes (submit_cancel e t c) = cn_finishes c"
  "cn_connect_result_notified (submit_cancel e t c) = cn_connect_result_notified c"
  "cn_active_connect_ev (submit_cancel e t c) = cn_active_connect_ev c"
  "cn_active_timeout_ev (submit_cancel e t c) = cn_active_timeout_ev c"
  "cn_connect_pending (submit_cancel e t c) = cn_connect_pending c"
  "cn_bridge_closed (submit_cancel e t c) = cn_bridge_closed c"
  "cn_self_ref (submit_cancel e t c) = cn_self_ref c"
  by (simp_all add: submit_cancel_def cn_new_def cn_prep_def Let_def)

lemma submit_cancel_core [simp]: "ops_core (submit_cancel e t c) \<longleftrightarrow> ops_core c"
  by (auto simp: ops_core_def submit_cancel_def cn_new_def cn_prep_def Let_def)

lemma cancels_fields [simp]:
  "cn_socket (cancel_timeout e c) = cn_socket c" "cn_opened (cancel_timeout e c) = cn_opened c"
  "cn_closed (cancel_timeout e c) = cn_closed c" "cn_handed (cancel_timeout e c) = cn_handed c"
  "cn_finished (cancel_timeout e c) = cn_finished c" "cn_results (cancel_timeout e c) = cn_results c"
  "cn_finished_notified (cancel_timeout e c) = cn_finished_notified c"
  "cn_finishes (cancel_timeout e c) = cn_finishes c"
  "cn_connect_result_notified (cancel_timeout e c) = cn_connect_result_notified c"
  "cn_self_ref (cancel_timeout e c) = cn_self_ref c"
  "cn_bridge_closed (cancel_timeout e c) = cn_bridge_closed c"
  "cn_socket (cancel_connect e c) = cn_socket c" "cn_opened (cancel_connect e c) = cn_opened c"
  "cn_closed (cancel_connect e c) = cn_closed c" "cn_handed (cancel_connect e c) = cn_handed c"
  "cn_finished (cancel_connect e c) = cn_finished c" "cn_results (cancel_connect e c) = cn_results c"
  "cn_finished_notified (cancel_connect e c) = cn_finished_notified c"
  "cn_finishes (cancel_connect e c) = cn_finishes c"
  "cn_connect_result_notified (cancel_connect e c) = cn_connect_result_notified c"
  "cn_self_ref (cancel_connect e c) = cn_self_ref c"
  by (simp_all add: cancel_timeout_def cancel_connect_def split: option.split)

lemma core_armed [simp]: "ops_core (c\<lparr>cn_timeout_armed := b\<rparr>) \<longleftrightarrow> ops_core c"
  by (simp add: ops_core_def)

lemma cancels_core [simp]:
  "ops_core (cancel_timeout e c) \<longleftrightarrow> ops_core c" "ops_core (cancel_connect e c) \<longleftrightarrow> ops_core c"
  by (simp_all add: cancel_timeout_def cancel_connect_def split: option.split)

lemma core_fields [simp]:
  "ops_core (NotifyConnectResult a b c) \<longleftrightarrow> ops_core c" "ops_core (NotifyFinished c) \<longleftrightarrow> ops_core c"
  "ops_core (bridge_ClosePair c) \<longleftrightarrow> ops_core c" "ops_core (cn_reset_socket fd c) \<longleftrightarrow> ops_core c"
  "ops_core (c\<lparr>cn_finished := f\<rparr>) \<longleftrightarrow> ops_core c" "ops_core (c\<lparr>cn_handed := hs, cn_socket := fd\<rparr>) \<longleftrightarrow> ops_core c"
  by (simp_all add: ops_core_def NotifyConnectResult_def NotifyFinished_def bridge_ClosePair_def
      cn_reset_socket_def SocketHandle_Reset_def)

lemma self_fields [simp]:
  "cn_self_ref (NotifyConnectResult a b c) = cn_self_ref c" "cn_self_ref (NotifyFinished c) = cn_self_ref c"
  "cn_self_ref (bridge_ClosePair c) = cn_self_ref c" "cn_self_ref (cn_reset_socket fd c) = cn_self_ref c"
  by (simp_all add: NotifyConnectResult_def NotifyFinished_def bridge_ClosePair_def cn_reset_socket_def
      SocketHandle_Reset_def)

lemma release_matches: "ops_core c \<Longrightarrow> cn_self_ref c \<Longrightarrow> ops_match (MaybeRelease c)"
  by (auto simp: ops_match_def MaybeRelease_def ops_core_def)

lemma release_fields [simp]:
  "life_ok (MaybeRelease c) \<longleftrightarrow> life_ok c" by (simp add: MaybeRelease_def life_ok_def)

lemma inflight_active:
  assumes "ops_core c"
  shows "ConnectOp ev \<in> set (cn_inflight c) \<longleftrightarrow> cn_active_connect_ev c = Some ev"
    "TimeoutOp ev \<in> set (cn_inflight c) \<longleftrightarrow> cn_active_timeout_ev c = Some ev"
proof -
  have f: "filter is_connect (cn_inflight c) =
      map ConnectOp (case cn_active_connect_ev c of None \<Rightarrow> [] | Some ev \<Rightarrow> [ev])"
    "filter is_timeout (cn_inflight c) =
      map TimeoutOp (case cn_active_timeout_ev c of None \<Rightarrow> [] | Some ev \<Rightarrow> [ev])"
    using assms by (simp_all add: ops_core_def)
  have "ConnectOp ev \<in> set (cn_inflight c) \<longleftrightarrow> ConnectOp ev \<in> set (filter is_connect (cn_inflight c))"
    "TimeoutOp ev \<in> set (cn_inflight c) \<longleftrightarrow> TimeoutOp ev \<in> set (filter is_timeout (cn_inflight c))"
    by simp_all
  then show "ConnectOp ev \<in> set (cn_inflight c) \<longleftrightarrow> cn_active_connect_ev c = Some ev"
    "TimeoutOp ev \<in> set (cn_inflight c) \<longleftrightarrow> cn_active_timeout_ev c = Some ev"
    unfolding f by (auto split: option.splits)
qed

lemma remove_count:
  "op \<in> set ops \<Longrightarrow> int (length (remove1 op ops)) = int (length ops) - 1"
proof -
  assume "op \<in> set ops"
  then have "length (remove1 op ops) = length ops - 1" "0 < length ops"
    using length_pos_if_in_set by (simp_all add: length_remove1)
  then show ?thesis by linarith
qed

lemma remove_connect:
  assumes "ops_core c" "ConnectOp ev \<in> set (cn_inflight c)"
  shows "ops_core (c\<lparr>cn_inflight := remove1 (ConnectOp ev) (cn_inflight c),
    cn_pending_ops := cn_pending_ops c - 1, cn_active_connect_ev := None, cn_connect_pending := False\<rparr>)"
  using assms inflight_active [OF assms(1)] remove_count [OF assms(2)]
  by (simp add: ops_core_def filter_remove1 remove1_idem split: option.split)

lemma remove_timeout:
  assumes "ops_core c" "TimeoutOp ev \<in> set (cn_inflight c)"
  shows "ops_core (c\<lparr>cn_inflight := remove1 (TimeoutOp ev) (cn_inflight c),
    cn_pending_ops := cn_pending_ops c - 1, cn_active_timeout_ev := None, cn_timeout_armed := b\<rparr>)"
  using assms inflight_active [OF assms(1)] remove_count [OF assms(2)]
  by (simp add: ops_core_def filter_remove1 remove1_idem split: option.split)

lemma remove_cancel:
  assumes "ops_core c" "CancelConnOp ev t \<in> set (cn_inflight c)"
  shows "ops_core (c\<lparr>cn_inflight := remove1 (CancelConnOp ev t) (cn_inflight c),
    cn_pending_ops := cn_pending_ops c - 1\<rparr>)"
  using assms remove_count [OF assms(2)] by (simp add: ops_core_def filter_remove1 remove1_idem split: option.split)

lemma life_finish:
  assumes "life_ok c" "\<not> cn_finished c" "cn_finished_notified c' = False" "cn_finishes c' = 0"
    "cn_finished c'" "cn_socket c' = -1" "cn_opened c' = cn_opened c"
    "cn_closed c' = [cn_socket c] \<and> cn_handed c' = [] \<or> cn_closed c' = [] \<and> cn_handed c' = [cn_socket c]"
    "if cn_connect_result_notified c' then length (cn_results c') = 1 else cn_results c' = []"
    "cn_handed c' \<noteq> [] \<longleftrightarrow> cn_results c' = [(True, False)]"
  shows "life_ok (NotifyFinished c')"
  using assms by (auto simp: life_ok_def NotifyFinished_def)

lemma unfinished:
  assumes "life_ok c" "\<not> cn_finished c"
  shows "cn_socket c \<ge> 0" "cn_closed c = []" "cn_handed c = []" "cn_active_connect_ev c \<noteq> None"
    "\<not> cn_finished_notified c" "cn_finishes c = 0" "\<not> cn_connect_result_notified c" "cn_results c = []"
  using assms by (auto simp: life_ok_def split: if_splits)

lemmas finish_defs = NotifyConnectResult_def bridge_ClosePair_def cn_reset_socket_def SocketHandle_Reset_def

lemma Cancel_ok:
  assumes "ops_match c" "life_ok c"
  shows "ops_match (Connector_Cancel e c) \<and> life_ok (Connector_Cancel e c)"
proof (cases "cn_finished c")
  case False
  note u = unfinished [OF assms(2) False]
  obtain ev where "cn_active_connect_ev c = Some ev"
    using u(4) by auto
  then have "cn_inflight c \<noteq> []"
    using inflight_active(1) [of c ev] assms(1) by (auto simp: ops_match_def)
  then have "ops_match (Connector_Cancel e c)"
    using assms(1) False by (auto simp: Connector_Cancel_def ops_match_def Let_def intro!: release_matches [unfolded ops_match_def])
  moreover have "life_ok (Connector_Cancel e c)"
    using False u by (auto simp: Connector_Cancel_def Let_def finish_defs intro!: life_finish [OF assms(2) False])
  ultimately show ?thesis ..
qed (use assms in \<open>simp add: Connector_Cancel_def\<close>)

lemma OnConnect_ok:
  assumes "ops_match c" "life_ok c" "ConnectOp ev \<in> set (cn_inflight c)"
  shows "ops_match (complete_op e (ConnectOp ev) res c) \<and> life_ok (complete_op e (ConnectOp ev) res c)"
proof -
  have core: "ops_core c" and self: "cn_self_ref c"
    using assms(1,3) by (auto simp: ops_match_def)
  define c1 where "c1 = c\<lparr>cn_inflight := remove1 (ConnectOp ev) (cn_inflight c),
    cn_pending_ops := cn_pending_ops c - 1, cn_active_connect_ev := None, cn_connect_pending := False\<rparr>"
  have c1: "ops_core c1" "cn_self_ref c1" "cn_finished c1 = cn_finished c"
    using remove_connect [OF core assms(3)] self by (simp_all add: c1_def)
  have eq: "complete_op e (ConnectOp ev) res c = (if cn_finished c1 then MaybeRelease c1
      else let c2 = cancel_timeout e c1
           in if res < 0 \<or> cn_bridge_closed c2
              then MaybeRelease (NotifyFinished (bridge_ClosePair (cn_reset_socket (-1)
                     ((NotifyConnectResult False False c2)\<lparr>cn_finished := True\<rparr>))))
              else let c3 = c2\<lparr>cn_handed := cn_handed c2 @ [cn_socket c2], cn_socket := -1\<rparr>
                   in MaybeRelease (NotifyFinished ((NotifyConnectResult True False c3)\<lparr>cn_finished := True\<rparr>)))"
    using inflight_active(1) [OF core] assms(3)
    by (simp add: complete_op_def Connector_OnConnect_def c1_def Let_def)
  have "ops_match (complete_op e (ConnectOp ev) res c)"
    using c1 by (simp add: eq Let_def release_matches)
  moreover have "life_ok (complete_op e (ConnectOp ev) res c)"
  proof (cases "cn_finished c")
    case True
    then have "life_ok c1" using assms(2) by (simp add: life_ok_def c1_def)
    then show ?thesis using True by (simp add: eq c1(3))
  next
    case False
    note u = unfinished [OF assms(2) False]
    show ?thesis using False u
      by (auto simp: eq c1(3) Let_def finish_defs c1_def intro!: life_finish [OF assms(2) False])
  qed
  ultimately show ?thesis ..
qed

lemma OnTimeout_ok:
  assumes "ops_match c" "life_ok c" "TimeoutOp ev \<in> set (cn_inflight c)"
  shows "ops_match (complete_op e (TimeoutOp ev) res c) \<and> life_ok (complete_op e (TimeoutOp ev) res c)"
proof -
  have core: "ops_core c" and self: "cn_self_ref c"
    using assms(1,3) by (auto simp: ops_match_def)
  define c1 where "c1 = c\<lparr>cn_inflight := remove1 (TimeoutOp ev) (cn_inflight c),
    cn_pending_ops := cn_pending_ops c - 1, cn_active_timeout_ev := None, cn_timeout_armed := False\<rparr>"
  have c1: "ops_core c1" "cn_self_ref c1" "cn_finished c1 = cn_finished c"
    using remove_timeout [OF core assms(3)] self by (simp_all add: c1_def)
  have life: "life_ok c1" using assms(2) by (auto simp: life_ok_def c1_def split: if_splits)
  have eq: "complete_op e (TimeoutOp ev) res c = (if cn_finished c1 \<or> res = - ECANCELED then MaybeRelease c1
      else MaybeRelease (NotifyFinished (cancel_connect e (cn_reset_socket (-1) (bridge_ClosePair
             (NotifyConnectResult False True (c1\<lparr>cn_finished := True\<rparr>)))))))"
    using inflight_active(2) [OF core] assms(3)
    by (simp add: complete_op_def Connector_OnTimeout_def c1_def Let_def)
  have "ops_match (complete_op e (TimeoutOp ev) res c)"
    using c1 by (simp add: eq release_matches)
  moreover have "life_ok (complete_op e (TimeoutOp ev) res c)"
  proof (cases "cn_finished c1 \<or> res = - ECANCELED")
    case True
    then show ?thesis using life by (simp add: eq)
  next
    case False
    then have "\<not> cn_finished c1" by simp
    note u = unfinished [OF life this] and fin = life_finish [OF life this]
    show ?thesis using False u by (auto simp: eq finish_defs intro!: fin)
  qed
  ultimately show ?thesis ..
qed

lemma OnCancel_ok:
  assumes "ops_match c" "life_ok c" "CancelConnOp ev t \<in> set (cn_inflight c)"
  shows "ops_match (complete_op e (CancelConnOp ev t) res c) \<and> life_ok (complete_op e (CancelConnOp ev t) res c)"
proof -
  define c1 where "c1 = c\<lparr>cn_inflight := remove1 (CancelConnOp ev t) (cn_inflight c),
    cn_pending_ops := cn_pending_ops c - 1\<rparr>"
  have "ops_core c1" "cn_self_ref c1" "life_ok c1"
    using assms remove_cancel [OF _ assms(3)] by (auto simp: c1_def ops_match_def life_ok_def)
  moreover have "complete_op e (CancelConnOp ev t) res c = MaybeRelease c1"
    by (simp add: complete_op_def Connector_OnCancel_def c1_def)
  ultimately show ?thesis by (simp add: release_matches)
qed

lemma bridge_ok:
  "ops_match c \<Longrightarrow> ops_match (bridge_ClosePair c)" "life_ok c \<Longrightarrow> life_ok (bridge_ClosePair c)"
  by (auto simp: ops_match_def ops_core_def life_ok_def bridge_ClosePair_def split: if_splits)

lemma arm_timeout_ok:
  assumes "ops_match c" "life_ok c" "cn_active_timeout_ev c = None" "cn_inflight c \<noteq> []"
  shows "ops_match (arm_timeout e c)" "life_ok (arm_timeout e c)"
  using assms by (auto simp: arm_timeout_def cn_new_def cn_prep_def ops_match_def ops_core_def life_ok_def Let_def)

lemma Start_ok:
  assumes "connector_start e c"
  shows "ops_match c \<and> life_ok c"
proof -
  obtain t fd where st: "Connector_Start e fd (ProxyConnector_new t) = (None, c)"
    using assms by (auto simp: connector_start_def)
  define c0 where "c0 = (ProxyConnector_new t)\<lparr>cn_socket := fd, cn_active_connect_ev := Some 0,
    cn_self_ref := True, cn_pending_ops := 1, cn_connect_pending := True, cn_inflight := [ConnectOp 0],
    cn_opened := [fd], cn_asked := 2\<rparr>"
  have "fd \<ge> 0" using st by (auto simp: Connector_Start_def split: if_splits)
  then have "ops_match c0" "life_ok c0" "cn_active_timeout_ev c0 = None" "cn_inflight c0 \<noteq> []"
    by (simp_all add: c0_def ProxyConnector_new_def ops_match_def ops_core_def life_ok_def)
  moreover have "c = arm_timeout e c0"
    using st \<open>fd \<ge> 0\<close>
    by (simp add: Connector_Start_def ProxyConnector_new_def cn_new_def cn_prep_def cn_reset_socket_def
        SocketHandle_Reset_def Let_def c0_def numeral_2_eq_2 split: if_splits)
  ultimately show ?thesis by (simp add: arm_timeout_ok)
qed

interpretation connector: inductive_invariant "connector_step e" "connector_start e"
  "\<lambda>c. ops_match c \<and> life_ok c" for e
proof unfold_locales
  show "connector_start e c \<Longrightarrow> ops_match c \<and> life_ok c" for c by (rule Start_ok)
next
  fix c d assume inv: "ops_match c \<and> life_ok c" and "connector_step e c d"
  from this(2) show "ops_match d \<and> life_ok d"
  proof cases
    case (cs_complete op res)
    with inv show ?thesis
      by (cases op) (simp_all add: OnConnect_ok OnTimeout_ok OnCancel_ok)
  qed (use inv in \<open>simp_all add: Cancel_ok bridge_ok\<close>)
qed

section \<open>The connection attempt settles\<close>

text \<open>
  C20: Whatever order the connect, the timeout, the cancellations and the closing of the bridge come in,
  and whichever allocations and submissions fail: the one descriptor is held, closed or given to an
  upstream session, never two of these; at most one result is reported, success exactly when the
  descriptor was given away; the end is reported once; \<open>pending_ops_\<close> counts what the kernel still
  holds and the connector keeps itself alive exactly as long; and when nothing is in flight any more
  the attempt is over.
\<close>
theorem connector_settles:
  assumes "reachable_from (connector_step e) (connector_start e) c"
  shows "(\<exists>fd. fd \<ge> 0 \<and> cn_opened c = [fd] \<and>
        cn_closed c @ cn_handed c @ (if SocketHandle_Valid (cn_socket c) then [cn_socket c] else []) = [fd]) \<and>
     length (cn_results c) \<le> 1 \<and> (cn_handed c \<noteq> [] \<longleftrightarrow> cn_results c = [(True, False)]) \<and>
     cn_finishes c = (if cn_finished c then 1 else 0) \<and>
     cn_pending_ops c = int (length (cn_inflight c)) \<and> (cn_self_ref c \<longleftrightarrow> cn_inflight c \<noteq> []) \<and>
     (cn_inflight c = [] \<longrightarrow> cn_finished c)"
proof -
  have ops: "ops_match c" and life: "life_ok c"
    using connector.reachable_inv [OF assms] by simp_all
  have "\<exists>fd. fd \<ge> 0 \<and> cn_opened c = [fd] \<and>
      cn_closed c @ cn_handed c @ (if SocketHandle_Valid (cn_socket c) then [cn_socket c] else []) = [fd]"
    using life by (auto simp: life_ok_def SocketHandle_Valid_def split: if_splits)
  moreover have "length (cn_results c) \<le> 1" "cn_handed c \<noteq> [] \<longleftrightarrow> cn_results c = [(True, False)]"
    "cn_finishes c = (if cn_finished c then 1 else 0)"
    using life by (auto simp: life_ok_def split: if_splits)
  moreover have "cn_pending_ops c = int (length (cn_inflight c))" "cn_self_ref c \<longleftrightarrow> cn_inflight c \<noteq> []"
    using ops by (simp_all add: ops_match_def ops_core_def)
  moreover have "cn_finished c" if "cn_inflight c = []"
  proof (rule ccontr)
    assume "\<not> cn_finished c"
    then obtain ev where "cn_active_connect_ev c = Some ev" using unfinished(4) [OF life] by auto
    then show False using inflight_active(1) [of c ev] ops that by (simp add: ops_match_def)
  qed
  ultimately show ?thesis by blast
qed

text \<open>An attempt that connects first: the timeout is cancelled, and all three operations complete.\<close>

definition ready0 :: env where
  "ready0 = \<lparr>alloc_ok = (\<lambda>_. True), prep_ok = (\<lambda>_. True), post_ok = (\<lambda>_. True), clock = (\<lambda>_. 0)\<rparr>"

definition started0 :: ProxyConnector where
  "started0 = snd (Connector_Start ready0 9 (ProxyConnector_new 5))"

definition settled0 :: ProxyConnector where
  "settled0 = complete_op ready0 (CancelConnOp 4 2) 0 (complete_op ready0 (TimeoutOp 2) (- ECANCELED)
     (complete_op ready0 (ConnectOp 0) 0 started0))"

lemmas attempt_eval = settled0_def started0_def ready0_def complete_op_def Connector_OnConnect_def
  Connector_OnTimeout_def Connector_OnCancel_def Connector_Start_def ProxyConnector_new_def arm_timeout_def
  cn_new_def cn_prep_def cancel_timeout_def submit_cancel_def NotifyFinished_def MaybeRelease_def
  finish_defs Let_def

lemma settled0_reachable: "reachable_from (connector_step ready0) (connector_start ready0) settled0"
proof -
  let ?c1 = "complete_op ready0 (ConnectOp 0) 0 started0"
  let ?c2 = "complete_op ready0 (TimeoutOp 2) (- ECANCELED) ?c1"
  have "connector_start ready0 started0"
    unfolding connector_start_def
    by (intro exI [of _ 5] exI [of _ 9]) (simp add: attempt_eval)
  moreover have "ConnectOp 0 \<in> set (cn_inflight started0)" "TimeoutOp 2 \<in> set (cn_inflight ?c1)"
    "CancelConnOp 4 2 \<in> set (cn_inflight ?c2)"
    by (simp_all add: attempt_eval)
  ultimately show ?thesis
    unfolding settled0_def by (metis reach_start reach_step cs_complete)
qed

theorem connector_settles_witness:
  "cn_inflight settled0 = [] \<and> cn_finished settled0 \<and> cn_handed settled0 = [9] \<and> cn_closed settled0 = [] \<and>
   \<not> cn_self_ref settled0"
  using connector_settles [OF settled0_reachable] by (simp add: attempt_eval)

end
