(* ===== verification/Spec2Isabelle.thy ===== *)
theory Spec2Isabelle
  imports Packet_Session Session_Props Mpsc_Queue Room_Manager Media_Hls Http_Session Worker Proxy_Connector
begin

text \<open>
  Verification library for the io_uring server runtime.

  \<^bold>\<open>The program.\<close> A C++ library of servers on Linux's io_uring. A worker thread owns a ring, a listener
  and the sessions on them; a session owns its receive state and its send queue and exchanges bytes
  with the kernel through operations it submits and completions it is told of. On top of the
  sessions there are two protocol families: game servers (length-prefixed packets, players, rooms
  whose packets are jobs) and web servers (an HTTP parser, requests, a router, responses). Job
  queues, a lock-free queue and posted tasks carry work between threads.

  \<^bold>\<open>Buffers.\<close> \<open>Recv_Buffer\<close> models \<^verbatim>\<open>core/RecvBuffer.h\<close> at 32-bit width and shows that it refines a
  bounded byte queue. \<open>Send_Buffer\<close> models the chunk pool of \<^verbatim>\<open>core/SendBuffer.h\<close> with the shared
  storage explicit: live buffers are disjoint and keep their bytes as long as the pool is used by
  one thread at a time, and a release on another thread can break that. \<open>Send_Queue\<close> models
  \<^verbatim>\<open>core/SendQueue.h\<close>: order, accounting and registration. \<open>Ring_Buffer\<close> models the buffers provided
  to the kernel (\<^verbatim>\<open>src/runtime/ring/RingBuffer.cpp\<close>): their layout in one mapping.

  \<^bold>\<open>The ring and the worker.\<close> \<open>Io_Ring\<close> models \<^verbatim>\<open>src/runtime/ring/IoRing.cpp\<close>, the events of
  \<^verbatim>\<open>core/RingEvent.h\<close> and the session table: one function per member, a record of the ring with the
  kernel's side of it, the heap of tasks and events explicit so that a dead pointer is a fault.
  \<open>Worker_Loop\<close> is the event loop as a transition system in which the ring's thread, posting threads
  and the kernel interleave: posted tasks run once and in order and no wake-up is lost. \<open>Listener\<close>
  models \<^verbatim>\<open>src/runtime/io/Listener.cpp\<close>: every accepted connection has one owner, the session limit
  holds, stopping is final. \<open>Worker\<close> models \<^verbatim>\<open>Worker.cpp\<close> and \<^verbatim>\<open>WorkerPool.cpp\<close>: starting is all or
  nothing, the waits of a shutdown end, and what was posted before it still runs.

  \<^bold>\<open>Sessions.\<close> \<open>Session_Detail\<close>, \<open>Session_Model\<close>, \<open>Session_Invariant\<close>, \<open>Session_Apps\<close> and
  \<open>Session_Props\<close> model \<^verbatim>\<open>src/runtime/io/Session.cpp\<close> and \<^verbatim>\<open>SessionSend.cpp\<close>: a record for the
  session, one function per member function, the application's callbacks as a parameter with a
  contract (a locale), and a step relation for the calls and the completions of the kernel. An
  invariant is carried through every step; from it follow the accounting of pending operations, the
  single release, the order of the bytes in both directions, the end of the drain loop, and what a
  flush promises.

  \<^bold>\<open>Queues and jobs.\<close> \<open>Mpsc_Queue\<close> interleaves the atomic steps of any number of producers with one
  consumer (\<^verbatim>\<open>core/MpscQueue.h\<close>). \<open>Job_Queue\<close> does the same for \<^verbatim>\<open>src/runtime/job\<close>: jobs of a queue
  run one at a time, in order, and no wake-up is lost; the timer is exact.

  \<^bold>\<open>Game.\<close> \<open>Packet_Session\<close> models the framing of \<^verbatim>\<open>src/modules/game/PacketSession.cpp\<close> over the
  receive buffer and the encoder of \<^verbatim>\<open>game/PacketBuilder.h\<close> over the pool; what was encoded arrives,
  however the stream is cut. \<open>Player_Registry\<close> refines a set of records (on the association-list
  hash maps of \<open>Unordered_Map\<close>). \<open>Room_Manager\<close> puts rooms on a heap with the references that keep
  them alive, over the job queues.

  \<^bold>\<open>Web.\<close> \<open>Http_Text\<close> has the text functions of the standard library and of \<^verbatim>\<open>web/HttpRequest.h\<close>;
  \<open>Http_Request\<close> the accessors of a request, which scan in place, shown equal to lookups in parsed
  lists; \<open>Http_Parser\<close> the callbacks and the loop of \<^verbatim>\<open>HttpParser.cpp\<close>, which assemble a message
  exactly or reject it for the first limit it breaks; \<open>Radix_Tree\<close> the routing tree of
  \<^verbatim>\<open>RadixTree.cpp\<close>, equal to a search in a table of patterns; \<open>Http_Response\<close> the serialisation of
  \<^verbatim>\<open>HttpResponse.cpp\<close>, which can be read back; \<open>Media_Hls\<close> the helpers of \<^verbatim>\<open>src/modules/media/Hls.cpp\<close>.
  \<open>Http_Stream\<close>, \<open>Http_Router\<close> and \<open>Http_Session\<close> model the HTTP session (\<^verbatim>\<open>HttpSession*.cpp\<close>,
  \<^verbatim>\<open>Router.cpp\<close>, \<^verbatim>\<open>RouterDeferred.cpp\<close>) on the connection interface \<open>http_transport\<close>, a locale that is
  interpreted on the session model: streamed bodies arrive whole and in portions, every request
  reaches its handler once or is answered with an error, deferred responses are counted, and the
  receive path of any input never faults.

  \<^bold>\<open>Proxy.\<close> \<open>Proxy_Connector\<close> models \<^verbatim>\<open>src/modules/proxy/ProxyConnector.cpp\<close>, the race of a connect
  request with its timeout and with cancellations: the attempt settles once, its descriptor has one
  owner, and the connector lives exactly as long as the kernel holds one of its operations.

  \<^bold>\<open>Parameters.\<close> Code outside the repository is an argument of the definitions: the outcomes of
  kernel operations, of liburing and of allocations are given by oracles asked by number, so that
  they may answer differently each time; tasks, completion handlers, the session factory and the
  request handlers by the calls they make and their result; the application by its callbacks;
  llhttp by the events it reports for an input, protobuf by the bytes of a message, the clock by a
  sequence of readings. Hypotheses on them are named where they are used: a successful submission
  takes every request (\<open>takes_all\<close>), task and event objects are aligned (\<open>aligned\<close>), the parser
  makes progress (\<open>progresses\<close>), a pause lasts its ten milliseconds.

  \<^bold>\<open>Fuel.\<close> \<open>Feed\<close> takes one unit per round and ends with one more than the length of the input,
  because every round but the last consumes a byte. \<open>Execute\<close> of a job queue, the drain of the
  lock-free queue, the drain of paused chunks and the wait of a shutdown count their rounds the same
  way, each with a theorem that says how many are enough. The search for a room id is a
  \<open>partial_function\<close>; a lemma says when it returns. The event loop itself does not end and is a step
  relation. All other loops are recursive functions with a termination proof.

  \<^bold>\<open>Not modelled.\<close> The rest of the proxy, TLS and ACME; the web server's front end, which only builds
  workers; CPU affinity and the guard of a mapping, which only wrap system calls; logging and
  profiling; the example applications, the benchmarks, the activity server and the vendored
  database. A session that is released while one of its own calls is still on the stack is not
  followed further, and exceptions thrown through the C callbacks of the parser end the model's
  interest in that connection.
\<close>

end
